(* ===== verification/Prelude.thy ===== *)
theory Prelude
  imports Main "HOL-Library.Word"
begin

text \<open>
  Shared vocabulary of the development: machine integers, the failures a C++ operation can end
  in, a result type with its sequencing, and the facts on lists and results that the component
  theories use.

  Failures are values. \<open>Assertion\<close> is a \<open>SYLAR_ASSERT\<close> / \<open>SYLAR_ASSERT2\<close> that does not hold
  (src/sylar/macro.h logs and then calls \<open>assert\<close>, and the build in src/CMakeLists.txt does not
  define \<open>NDEBUG\<close>, so the process aborts); \<open>Null_deref\<close> is a member access through a null pointer;
  \<open>Undefined\<close> is any other undefined behaviour the source can reach; \<open>Throws\<close> is a C++ exception.
\<close>

unbundle bit_operations_syntax

type_synonym u64 = "64 word"
type_synonym u32 = "32 word"

named_theorems result_simps \<open>unfolding of sequenced results\<close>

datatype failure =
    Assertion string
  | Null_deref string
  | Undefined string
  | Throws string

type_synonym 'a result = "failure + 'a"

fun rbind :: "'a result \<Rightarrow> ('a \<Rightarrow> 'b result) \<Rightarrow> 'b result" where
  "rbind (Inl e) f = Inl e"
| "rbind (Inr x) f = f x"

definition SYLAR_ASSERT :: "bool \<Rightarrow> string \<Rightarrow> unit result" where
  "SYLAR_ASSERT x w = (if x then Inr () else Inl (Assertion w))"

text \<open>Division of C++ rounds towards zero.\<close>

definition c_div :: "int \<Rightarrow> int \<Rightarrow> int" where
  "c_div a b = sgn a * sgn b * (\<bar>a\<bar> div \<bar>b\<bar>)"

section \<open>Results\<close>

lemma rbind_Inr_iff [result_simps]:
  "rbind m f = Inr y \<longleftrightarrow> (\<exists>x. m = Inr x \<and> f x = Inr y)"
  by (cases m) auto

lemma rbind_Inl_iff [result_simps]:
  "rbind m f = Inl e \<longleftrightarrow> m = Inl e \<or> (\<exists>x. m = Inr x \<and> f x = Inl e)"
  by (cases m) auto

lemma SYLAR_ASSERT_Inr [simp]: "SYLAR_ASSERT c w = Inr u \<longleftrightarrow> c"
  by (simp add: SYLAR_ASSERT_def)

lemma SYLAR_ASSERT_Inl [simp]: "SYLAR_ASSERT c w = Inl e \<longleftrightarrow> \<not> c \<and> e = Assertion w"
  by (auto simp: SYLAR_ASSERT_def)

lemma SYLAR_ASSERT_True [simp]: "SYLAR_ASSERT True w = Inr ()"
  by (simp add: SYLAR_ASSERT_def)

lemma SYLAR_ASSERT_False [simp]: "SYLAR_ASSERT False w = Inl (Assertion w)"
  by (simp add: SYLAR_ASSERT_def)

section \<open>Words\<close>

lemma word_less_plus_one: "(x :: u64) \<noteq> NOT 0 \<Longrightarrow> x < x + 1"
proof -
  assume "x \<noteq> NOT 0"
  then have "1 + x \<noteq> 0"
    using max_word_wrap [of x] by (auto simp: add.commute)
  then have "unat (1 + x) = Suc (unat x)" by (rule unatSuc)
  then show ?thesis by (simp add: word_less_nat_alt add.commute)
qed

section \<open>Lists\<close>

lemma sorted_wrt_distinct:
  "(\<And>x. \<not> lt x x) \<Longrightarrow> sorted_wrt lt xs \<Longrightarrow> distinct xs"
  by (induction xs) auto

lemma sorted_wrt_cong_set:
  "(\<And>x y. x \<in> set xs \<Longrightarrow> y \<in> set xs \<Longrightarrow> lt x y = lt' x y) \<Longrightarrow>
   sorted_wrt lt xs = sorted_wrt lt' xs"
  by (induction xs) auto

lemma sorted_wrt_remove1: "sorted_wrt lt xs \<Longrightarrow> sorted_wrt lt (remove1 x xs)"
  by (induction xs) (auto dest: notin_set_remove1 in_set_remove1 set_remove1_subset [THEN subsetD])

lemma sorted_wrt_dropWhile: "sorted_wrt lt xs \<Longrightarrow> sorted_wrt lt (dropWhile P xs)"
  by (induction xs) auto

end
