(* ===== verification/Ordered_Set.thy ===== *)
theory Ordered_Set
  imports Prelude
begin

text \<open>
  \<open>std::set<T, Compare>\<close> of the C++ library, as far as the sources use it: the timer set of
  \<open>TimerManager\<close> (src/sylar/timer.h) and the sets of \<open>LogDefine\<close> (src/sylar/log.cc).
  The container is the list of its elements in iteration order. An element is located by a
  search along the order, so that two keys of which neither is less than the other are the
  same key. The locale \<open>strict_weak_order\<close> is the contract the C++ library puts on
  \<open>Compare\<close>; its lemmas are what the clients rely on, and the comparator of the timers is an
  interpretation of it.
\<close>

fun ss_insert :: "('a \<Rightarrow> 'a \<Rightarrow> bool) \<Rightarrow> 'a \<Rightarrow> 'a list \<Rightarrow> 'a list" where
  "ss_insert lt k [] = [k]"
| "ss_insert lt k (y # ys) =
     (if lt y k then y # ss_insert lt k ys
      else if lt k y then k # y # ys
      else y # ys)"

definition ss_lower_bound :: "('a \<Rightarrow> 'a \<Rightarrow> bool) \<Rightarrow> 'a \<Rightarrow> 'a list \<Rightarrow> 'a list" where
  "ss_lower_bound lt k xs = dropWhile (\<lambda>x. lt x k) xs"

definition ss_find :: "('a \<Rightarrow> 'a \<Rightarrow> bool) \<Rightarrow> 'a \<Rightarrow> 'a list \<Rightarrow> 'a option" where
  "ss_find lt k xs =
     (case ss_lower_bound lt k xs of
        [] \<Rightarrow> None
      | y # _ \<Rightarrow> if lt k y then None else Some y)"

definition ss_erase :: "('a \<Rightarrow> 'a \<Rightarrow> bool) \<Rightarrow> 'a \<Rightarrow> 'a list \<Rightarrow> 'a list" where
  "ss_erase lt k xs = filter (\<lambda>x. lt x k \<or> lt k x) xs"

text \<open>The elements before the iterator \<open>upper_bound(k)\<close> and those from it on.\<close>

definition ss_before_upper :: "('a \<Rightarrow> 'a \<Rightarrow> bool) \<Rightarrow> 'a \<Rightarrow> 'a list \<Rightarrow> 'a list" where
  "ss_before_upper lt k xs = takeWhile (\<lambda>x. \<not> lt k x) xs"

definition ss_upper_bound :: "('a \<Rightarrow> 'a \<Rightarrow> bool) \<Rightarrow> 'a \<Rightarrow> 'a list \<Rightarrow> 'a list" where
  "ss_upper_bound lt k xs = dropWhile (\<lambda>x. \<not> lt k x) xs"

section \<open>The contract on the comparator\<close>

locale strict_weak_order =
  fixes lt :: "'a \<Rightarrow> 'a \<Rightarrow> bool"
  assumes irrefl [simp]: "\<not> lt x x"
    and transitive: "lt x y \<Longrightarrow> lt y z \<Longrightarrow> lt x z"
    and neg_transitive: "lt x z \<Longrightarrow> lt x y \<or> lt y z"
begin

lemma asym: "lt x y \<Longrightarrow> \<not> lt y x"
  using transitive by fastforce

lemma sorted_distinct: "sorted_wrt lt xs \<Longrightarrow> distinct xs"
  by (rule sorted_wrt_distinct) auto

lemma set_ss_insert_subset: "set (ss_insert lt k xs) \<subseteq> insert k (set xs)"
  by (induction xs) auto

lemma set_ss_insert_keeps: "set xs \<subseteq> set (ss_insert lt k xs)"
  by (induction xs) auto

lemma sorted_ss_insert: "sorted_wrt lt xs \<Longrightarrow> sorted_wrt lt (ss_insert lt k xs)"
proof (induction xs)
  case Nil
  then show ?case by simp
next
  case (Cons y ys)
  then show ?case
    using set_ss_insert_subset [of k ys] by (auto intro: transitive)
qed

lemma sorted_ss_erase: "sorted_wrt lt xs \<Longrightarrow> sorted_wrt lt (ss_erase lt k xs)"
  by (simp add: ss_erase_def sorted_wrt_filter)

lemma ss_find_Some_mem: "ss_find lt k xs = Some y \<Longrightarrow> y \<in> set xs \<and> \<not> lt k y \<and> \<not> lt y k"
proof -
  assume *: "ss_find lt k xs = Some y"
  then obtain ys where ys: "dropWhile (\<lambda>x. lt x k) xs = y # ys" and n: "\<not> lt k y"
    by (auto simp: ss_find_def ss_lower_bound_def split: list.splits if_splits)
  have "\<not> lt y k"
    using hd_dropWhile [of "\<lambda>x. lt x k" xs] ys by simp
  moreover have "y \<in> set xs"
    using set_dropWhileD [of y "\<lambda>x. lt x k" xs] ys by simp
  ultimately show ?thesis using n by blast
qed

lemma ss_find_None_iff:
  "sorted_wrt lt xs \<Longrightarrow>
   ss_find lt k xs = None \<longleftrightarrow> (\<forall>y \<in> set xs. lt k y \<or> lt y k)"
proof (induction xs)
  case Nil
  then show ?case by (simp add: ss_find_def ss_lower_bound_def)
next
  case (Cons y ys)
  show ?case
  proof (cases "lt y k")
    case True
    with Cons show ?thesis by (simp add: ss_find_def ss_lower_bound_def)
  next
    case False
    then show ?thesis
      using Cons.prems by (auto simp: ss_find_def ss_lower_bound_def intro: transitive)
  qed
qed

lemma ss_find_insert:
  "sorted_wrt lt xs \<Longrightarrow> \<exists>y. ss_find lt k (ss_insert lt k xs) = Some y"
proof -
  assume s: "sorted_wrt lt xs"
  have "\<exists>y \<in> set (ss_insert lt k xs). \<not> lt k y \<and> \<not> lt y k"
    by (induction xs) auto
  then have "ss_find lt k (ss_insert lt k xs) \<noteq> None"
    using ss_find_None_iff [OF sorted_ss_insert [OF s]] by blast
  then show ?thesis by blast
qed

lemma before_upper_le: "x \<in> set (ss_before_upper lt k xs) \<Longrightarrow> \<not> lt k x"
  by (auto simp: ss_before_upper_def dest: set_takeWhileD)

lemma upper_bound_less:
  "sorted_wrt lt xs \<Longrightarrow> x \<in> set (ss_upper_bound lt k xs) \<Longrightarrow> lt k x"
proof (induction xs)
  case Nil
  then show ?case by (simp add: ss_upper_bound_def)
next
  case (Cons y ys)
  show ?case
  proof (cases "lt k y")
    case True
    with Cons.prems show ?thesis
      by (auto simp: ss_upper_bound_def intro: transitive)
  next
    case False
    with Cons show ?thesis by (simp add: ss_upper_bound_def)
  qed
qed

lemma upper_bound_split: "ss_before_upper lt k xs @ ss_upper_bound lt k xs = xs"
  by (simp add: ss_before_upper_def ss_upper_bound_def)

end

locale strict_total_order = strict_weak_order +
  assumes total: "x \<noteq> y \<Longrightarrow> lt x y \<or> lt y x"
begin

lemma set_ss_insert [simp]: "set (ss_insert lt k xs) = insert k (set xs)"
proof (induction xs)
  case Nil
  then show ?case by simp
next
  case (Cons y ys)
  then show ?case using total [of y k] by auto
qed

lemma ss_find_total:
  "sorted_wrt lt xs \<Longrightarrow> ss_find lt k xs = (if k \<in> set xs then Some k else None)"
proof -
  assume s: "sorted_wrt lt xs"
  show ?thesis
  proof (cases "ss_find lt k xs")
    case None
    then show ?thesis using ss_find_None_iff [OF s, of k] irrefl by auto
  next
    case (Some y)
    with ss_find_Some_mem [OF Some] total [of k y] show ?thesis by auto
  qed
qed

lemma ss_erase_total: "sorted_wrt lt xs \<Longrightarrow> ss_erase lt k xs = remove1 k xs"
proof -
  assume s: "sorted_wrt lt xs"
  have "(lt x k \<or> lt k x) = (x \<noteq> k)" for x
    using total by auto
  then show ?thesis
    using sorted_distinct [OF s]
    by (simp add: ss_erase_def distinct_remove1_removeAll removeAll_filter_not_eq)
      (metis (mono_tags, lifting) filter_cong)
qed

lemma ss_insert_hd_iff:
  "sorted_wrt lt xs \<Longrightarrow> k \<notin> set xs \<Longrightarrow>
   hd (ss_insert lt k xs) = k \<longleftrightarrow> (\<forall>y \<in> set xs. lt k y)"
proof (cases xs)
  case Nil
  then show ?thesis by simp
next
  case (Cons y ys)
  assume "sorted_wrt lt xs" "k \<notin> set xs"
  then show ?thesis
    using Cons total [of k y] asym [of y k] by (auto intro: transitive)
qed

end

end
