(* ===== verification/Timer.thy ===== *)
theory Timer
  imports Ordered_Set
begin

text \<open>
  The timers of src/sylar/timer.h and src/sylar/timer.cc: \<open>Timer\<close>, its comparator and
  \<open>TimerManager\<close>.

  A \<open>Timer\<close> is an object of the heap \<open>theap\<close>, named by its address (a \<open>nat\<close>, ordered as the
  raw pointers are); \<open>m_timers\<close> is the \<open>std::set\<close> of addresses in its iteration order.
  Milliseconds are \<open>uint64_t\<close> and wrap. A clock reading (\<open>Get_current_ms()\<close>) and the address that
  an allocation returns are arguments of the operations. An operation returns its result
  together with the new state. \<open>front_calls\<close> counts the calls of the virtual
  \<open>on_timer_insert_at_front()\<close>, which the subclass \<open>IOManager\<close> turns into a wake-up.
  \<open>m_manager\<close> is not a field: one manager is modelled, and it is the state.
\<close>

named_theorems timer_defs \<open>definitions of the timer operations\<close>

section \<open>Timers and their order\<close>

record 'cb timer =
  m_recurring :: bool
  m_ms :: u64
  m_next :: u64
  tm_cb :: "'cb option"

record 'cb timer_manager =
  theap :: "nat \<Rightarrow> 'cb timer option"
  m_timers :: "nat list"
  m_previous_time :: u64
  front_calls :: nat

text \<open>The two constructors of \<open>Timer\<close>: a timer proper, and the probe used to search the set.\<close>

definition Timer_new :: "u64 \<Rightarrow> u64 \<Rightarrow> 'cb option \<Rightarrow> bool \<Rightarrow> 'cb timer" where
  "Timer_new now ms cb recurring =
     \<lparr>m_recurring = recurring, m_ms = ms, m_next = now + ms, tm_cb = cb\<rparr>"

definition Timer_probe :: "u64 \<Rightarrow> 'cb timer" where
  "Timer_probe next_time =
     \<lparr>m_recurring = False, m_ms = 0, m_next = next_time, tm_cb = None\<rparr>"

text \<open>
  The object at an address. A \<open>Timer::ptr\<close> keeps its object alive, so the sources never read
  through a dangling one; an address without an object reads as the fields' initialisers.
\<close>

definition tm_at :: "(nat \<Rightarrow> 'cb timer option) \<Rightarrow> nat \<Rightarrow> 'cb timer" where
  "tm_at h a = (case h a of Some t \<Rightarrow> t | None \<Rightarrow> Timer_probe 0)"

definition Timer_less ::
    "(nat \<Rightarrow> 'cb timer option) \<Rightarrow> nat option \<Rightarrow> nat option \<Rightarrow> bool" where
  "Timer_less h lhs rhs =
     (case lhs of
        None \<Rightarrow> (case rhs of None \<Rightarrow> False | Some _ \<Rightarrow> True)
      | Some l \<Rightarrow>
          (case rhs of
             None \<Rightarrow> False
           | Some r \<Rightarrow>
               if m_next (tm_at h l) < m_next (tm_at h r) then True
               else if m_next (tm_at h l) > m_next (tm_at h r) then False
               else l < r))"

abbreviation tm_less :: "(nat \<Rightarrow> 'cb timer option) \<Rightarrow> nat \<Rightarrow> nat \<Rightarrow> bool" where
  "tm_less h a b \<equiv> Timer_less h (Some a) (Some b)"

definition empty_manager :: "'cb timer_manager" where
  "empty_manager = \<lparr>theap = Map.empty, m_timers = [], m_previous_time = 0, front_calls = 0\<rparr>"

section \<open>Operations\<close>

definition tm_write ::
    "nat \<Rightarrow> ('cb timer \<Rightarrow> 'cb timer) \<Rightarrow> 'cb timer_manager \<Rightarrow> 'cb timer_manager" where
  "tm_write a f m = m\<lparr>theap := (theap m)(a \<mapsto> f (tm_at (theap m) a))\<rparr>"

text \<open>
  \<open>TimerManager::add_timer(Timer::ptr, WriteLock&)\<close>: insert, compare with \<open>begin()\<close>, release
  the caller's lock, notify. The lock is the caller's business (see \<open>expire_loop\<close>).
\<close>

definition add_timer_locked :: "nat \<Rightarrow> 'cb timer_manager \<Rightarrow> 'cb timer_manager" where
  "add_timer_locked a m =
     (let ts = ss_insert (tm_less (theap m)) a (m_timers m);
          at_front = (case ts of [] \<Rightarrow> False | b # _ \<Rightarrow> b = a)
      in m\<lparr>m_timers := ts,
           front_calls := front_calls m + (if at_front then 1 else 0)\<rparr>)"

definition add_timer ::
    "u64 \<Rightarrow> nat \<Rightarrow> u64 \<Rightarrow> 'cb option \<Rightarrow> bool \<Rightarrow> 'cb timer_manager \<Rightarrow> nat \<times> 'cb timer_manager" where
  "add_timer now a ms cb recurring m =
     (a, add_timer_locked a (m\<lparr>theap := (theap m)(a \<mapsto> Timer_new now ms cb recurring)\<rparr>))"

definition Timer_cancel :: "nat \<Rightarrow> 'cb timer_manager \<Rightarrow> bool \<times> 'cb timer_manager" where
  "Timer_cancel a m =
     (if tm_cb (tm_at (theap m) a) \<noteq> None then
        (let m1 = tm_write a (\<lambda>t. t\<lparr>tm_cb := None\<rparr>) m
         in (True,
             case ss_find (tm_less (theap m1)) a (m_timers m1) of
               Some b \<Rightarrow> m1\<lparr>m_timers := remove1 b (m_timers m1)\<rparr>
             | None \<Rightarrow> m1))
      else (False, m))"

definition Timer_refresh :: "u64 \<Rightarrow> nat \<Rightarrow> 'cb timer_manager \<Rightarrow> bool \<times> 'cb timer_manager" where
  "Timer_refresh now a m =
     (if tm_cb (tm_at (theap m) a) = None then (False, m)
      else case ss_find (tm_less (theap m)) a (m_timers m) of
             None \<Rightarrow> (False, m)
           | Some b \<Rightarrow>
               (let m1 = m\<lparr>m_timers := remove1 b (m_timers m)\<rparr>;
                    m2 = tm_write a (\<lambda>t. t\<lparr>m_next := now + m_ms t\<rparr>) m1
                in (True, add_timer_locked a m2)))"

definition Timer_reset ::
    "u64 \<Rightarrow> u64 \<Rightarrow> bool \<Rightarrow> nat \<Rightarrow> 'cb timer_manager \<Rightarrow> bool \<times> 'cb timer_manager" where
  "Timer_reset now ms from_now a m =
     (if ms = m_ms (tm_at (theap m) a) \<and> \<not> from_now then (True, m)
      else case ss_find (tm_less (theap m)) a (m_timers m) of
             None \<Rightarrow> (False, m)
           | Some _ \<Rightarrow>
               (let m1 = m\<lparr>m_timers := ss_erase (tm_less (theap m)) a (m_timers m)\<rparr>;
                    m2 = tm_write a
                           (\<lambda>t. t\<lparr>m_next := (if from_now then now + ms else m_next t - m_ms t + ms)\<rparr>)
                           m1;
                    m3 = tm_write a (\<lambda>t. t\<lparr>m_ms := ms\<rparr>) m2
                in (True, add_timer_locked a m3)))"

definition get_next_timeout :: "u64 \<Rightarrow> 'cb timer_manager \<Rightarrow> u64" where
  "get_next_timeout now m =
     (case m_timers m of
        [] \<Rightarrow> NOT 0
      | b # _ \<Rightarrow>
          if now \<ge> m_next (tm_at (theap m) b) then 0
          else m_next (tm_at (theap m) b) - now)"

definition has_timer :: "'cb timer_manager \<Rightarrow> bool" where
  "has_timer m = (m_timers m \<noteq> [])"

definition detect_clock_rollover :: "u64 \<Rightarrow> 'cb timer_manager \<Rightarrow> bool \<times> 'cb timer_manager" where
  "detect_clock_rollover now m =
     (now < m_previous_time m \<and> now < m_previous_time m - 60 * 60 * 1000,
      m\<lparr>m_previous_time := now\<rparr>)"

subsection \<open>Expiry\<close>

text \<open>
  \<open>TimerManager::list_expired_cbs\<close>. The write lock of the second half is a scoped lock that
  \<open>add_timer(timer, lock)\<close> releases; \<open>es_locked\<close> is its \<open>m_locked\<close> flag and \<open>es_unlocked\<close>
  lists the timers that were put back into \<open>m_timers\<close> while it was not held.
\<close>

record 'cb expire_state =
  es_tm :: "'cb timer_manager"
  es_cbs :: "'cb option list"
  es_locked :: bool
  es_unlocked :: "nat list"

fun expire_loop :: "u64 \<Rightarrow> nat list \<Rightarrow> 'cb expire_state \<Rightarrow> 'cb expire_state" where
  "expire_loop now [] s = s"
| "expire_loop now (a # ts) s =
     (let t = tm_at (theap (es_tm s)) a;
          s1 = s\<lparr>es_cbs := es_cbs s @ [tm_cb t]\<rparr>
      in expire_loop now ts
           (if m_recurring t then
              s1\<lparr>es_tm := add_timer_locked a
                   (tm_write a (\<lambda>t. t\<lparr>m_next := now + m_ms t\<rparr>) (es_tm s)),
                 es_locked := False,
                 es_unlocked := es_unlocked s @ (if es_locked s then [] else [a])\<rparr>
            else s1\<lparr>es_tm := tm_write a (\<lambda>t. t\<lparr>tm_cb := None\<rparr>) (es_tm s)\<rparr>))"

text \<open>
  The split of the set: the elements before \<open>upper_bound(now_timer)\<close>, or the first one alone when
  \<open>upper_bound\<close> is \<open>begin()\<close>. \<open>probe\<close> is the address of \<open>now_timer\<close>.
\<close>

definition expired_split ::
    "u64 \<Rightarrow> nat \<Rightarrow> 'cb timer_manager \<Rightarrow> nat list \<times> nat list" where
  "expired_split now probe m =
     (let lt = tm_less ((theap m)(probe \<mapsto> Timer_probe now));
          before = ss_before_upper lt probe (m_timers m);
          rest = ss_upper_bound lt probe (m_timers m)
      in if before = [] then (take 1 rest, drop 1 rest) else (before, rest))"

definition list_expired_locked ::
    "u64 \<Rightarrow> nat \<Rightarrow> 'cb timer_manager \<Rightarrow> 'cb expire_state result" where
  "list_expired_locked now probe m =
     (case m_timers m of
        [] \<Rightarrow> Inl (Undefined ''*m_timers.begin() of an empty set'')
      | b # _ \<Rightarrow>
          if m_next (tm_at (theap m) b) > now then
            Inr \<lparr>es_tm = m, es_cbs = [], es_locked = True, es_unlocked = []\<rparr>
          else
            (let (expired, rest) = expired_split now probe m
             in Inr (expire_loop now expired
                  \<lparr>es_tm = m\<lparr>m_timers := rest\<rparr>, es_cbs = [], es_locked = True,
                   es_unlocked = []\<rparr>)))"

definition list_expired_cbs ::
    "u64 \<Rightarrow> nat \<Rightarrow> 'cb timer_manager \<Rightarrow> 'cb expire_state result" where
  "list_expired_cbs now probe m =
     (if m_timers m = [] then Inr \<lparr>es_tm = m, es_cbs = [], es_locked = False, es_unlocked = []\<rparr>
      else list_expired_locked now probe m)"

subsection \<open>Conditional timers\<close>

text \<open>
  A timer callback is a plain function or \<open>std::bind(&Cond_cb, weak_cond, cb)\<close>. Calling it calls
  a function of the client (the result), nothing (\<open>None\<close>), or throws when the bound
  \<open>std::function\<close> is empty. \<open>alive w\<close> says whether \<open>weak_con.lock()\<close> still finds the condition.
\<close>

datatype 'f timer_cb = Plain_cb 'f | Bind_Cond_cb nat "'f option"

definition Cond_cb :: "(nat \<Rightarrow> bool) \<Rightarrow> nat \<Rightarrow> 'f option \<Rightarrow> 'f option result" where
  "Cond_cb alive weak_con cb =
     (if alive weak_con then
        (case cb of Some f \<Rightarrow> Inr (Some f) | None \<Rightarrow> Inl (Throws ''bad_function_call''))
      else Inr None)"

fun call_timer_cb :: "(nat \<Rightarrow> bool) \<Rightarrow> 'f timer_cb \<Rightarrow> 'f option result" where
  "call_timer_cb alive (Plain_cb f) = Inr (Some f)"
| "call_timer_cb alive (Bind_Cond_cb w cb) = Cond_cb alive w cb"

definition add_condition_timer ::
    "u64 \<Rightarrow> nat \<Rightarrow> u64 \<Rightarrow> 'f option \<Rightarrow> nat \<Rightarrow> bool \<Rightarrow> 'f timer_cb timer_manager
       \<Rightarrow> nat \<times> 'f timer_cb timer_manager" where
  "add_condition_timer now a ms cb weak_cond recurring m =
     add_timer now a ms (Some (Bind_Cond_cb weak_cond cb)) recurring m"


section \<open>The comparator is a strict total order on addresses\<close>

lemma tm_less_iff:
  "tm_less h a b \<longleftrightarrow>
     m_next (tm_at h a) < m_next (tm_at h b) \<or>
     m_next (tm_at h a) = m_next (tm_at h b) \<and> a < b"
  by (auto simp: Timer_less_def)

interpretation timer_order: strict_total_order "\<lambda>a b. tm_less h a b" for h
  by unfold_locales (auto simp: tm_less_iff)

lemma tm_at_upd [simp]:
  "tm_at (h(a \<mapsto> t)) b = (if b = a then t else tm_at h b)"
  by (simp add: tm_at_def)

lemma tm_less_same_next:
  "m_next t = m_next (tm_at h a) \<Longrightarrow> tm_less (h(a \<mapsto> t)) b c = tm_less h b c"
  by (simp add: tm_less_iff)

lemma sorted_tm_frame:
  "a \<notin> set xs \<Longrightarrow>
   sorted_wrt (tm_less (h(a \<mapsto> t))) xs = sorted_wrt (tm_less h) xs"
  by (rule sorted_wrt_cong_set) (auto simp: tm_less_iff)

section \<open>Well-formed managers and their deadlines\<close>

definition tm_wf :: "'cb timer_manager \<Rightarrow> bool" where
  "tm_wf m \<longleftrightarrow>
     sorted_wrt (tm_less (theap m)) (m_timers m) \<and>
     (\<forall>a \<in> set (m_timers m). theap m a \<noteq> None)"

text \<open>The abstract view of a manager: which timers are armed, and for when.\<close>

definition deadlines :: "'cb timer_manager \<Rightarrow> nat \<Rightarrow> u64 option" where
  "deadlines m a = (if a \<in> set (m_timers m) then Some (m_next (tm_at (theap m) a)) else None)"

lemma tm_wf_sorted [dest]: "tm_wf m \<Longrightarrow> sorted_wrt (tm_less (theap m)) (m_timers m)"
  by (simp add: tm_wf_def)

lemma tm_wf_distinct: "tm_wf m \<Longrightarrow> distinct (m_timers m)"
  by (auto simp: tm_wf_def dest: timer_order.sorted_distinct)

lemma tm_wf_find:
  "tm_wf m \<Longrightarrow>
   ss_find (tm_less (theap m)) a (m_timers m) = (if a \<in> set (m_timers m) then Some a else None)"
  by (simp add: tm_wf_def timer_order.ss_find_total)

lemma tm_wf_empty: "tm_wf empty_manager"
  by (simp add: tm_wf_def empty_manager_def)

lemma tm_wf_write_same_next:
  "tm_wf m \<Longrightarrow> m_next (f (tm_at (theap m) a)) = m_next (tm_at (theap m) a) \<Longrightarrow> tm_wf (tm_write a f m)"
  by (auto simp: tm_wf_def tm_write_def tm_less_same_next)

lemma tm_wf_write_notin:
  "tm_wf m \<Longrightarrow> a \<notin> set (m_timers m) \<Longrightarrow> tm_wf (tm_write a f m)"
  by (auto simp: tm_wf_def tm_write_def sorted_tm_frame)

lemma tm_wf_remove1: "tm_wf m \<Longrightarrow> tm_wf (m\<lparr>m_timers := remove1 a (m_timers m)\<rparr>)"
  by (auto simp: tm_wf_def sorted_wrt_remove1 dest: set_remove1_subset [THEN subsetD])

lemma set_add_timer_locked [simp]:
  "set (m_timers (add_timer_locked a m)) = insert a (set (m_timers m))"
  by (simp add: add_timer_locked_def Let_def)

lemma theap_add_timer_locked [simp]: "theap (add_timer_locked a m) = theap m"
  by (simp add: add_timer_locked_def Let_def)

lemma theap_tm_write [simp]:
  "theap (tm_write a f m) = (theap m)(a \<mapsto> f (tm_at (theap m) a))"
  by (simp add: tm_write_def)

lemma m_timers_tm_write [simp]: "m_timers (tm_write a f m) = m_timers m"
  by (simp add: tm_write_def)

lemma tm_wf_add_timer_locked:
  "tm_wf m \<Longrightarrow> theap m a \<noteq> None \<Longrightarrow> tm_wf (add_timer_locked a m)"
  by (auto simp: tm_wf_def add_timer_locked_def Let_def timer_order.sorted_ss_insert)


section \<open>The operations on the abstract view\<close>

lemma tm_wf_add_timer:
  assumes "tm_wf m" and "a \<notin> set (m_timers m)"
  shows "tm_wf (snd (add_timer now a ms cb rec m))"
proof -
  have "tm_wf (m\<lparr>theap := (theap m)(a \<mapsto> Timer_new now ms cb rec)\<rparr>)"
    using assms by (auto simp: tm_wf_def sorted_tm_frame)
  then show ?thesis by (simp add: add_timer_def tm_wf_add_timer_locked)
qed

lemma deadlines_add_timer:
  "a \<notin> set (m_timers m) \<Longrightarrow>
   deadlines (snd (add_timer now a ms cb rec m)) = (deadlines m)(a \<mapsto> now + ms)"
  by (auto simp: deadlines_def add_timer_def Timer_new_def fun_eq_iff)

lemma Timer_cancel_unfold:
  assumes "tm_wf m"
  shows "Timer_cancel a m =
    (if tm_cb (tm_at (theap m) a) = None then (False, m)
     else (True, (tm_write a (\<lambda>t. t\<lparr>tm_cb := None\<rparr>) m)\<lparr>m_timers := remove1 a (m_timers m)\<rparr>))"
proof -
  let ?m = "tm_write a (\<lambda>t. t\<lparr>tm_cb := None\<rparr>) m"
  have "tm_wf ?m"
    using assms by (rule tm_wf_write_same_next) simp
  then have "ss_find (tm_less (theap ?m)) a (m_timers m) =
      (if a \<in> set (m_timers m) then Some a else None)"
    using tm_wf_find [of ?m a] by simp
  then show ?thesis
    by (simp add: Timer_cancel_def Let_def remove1_idem)
qed

lemma tm_wf_Timer_cancel:
  assumes "tm_wf m"
  shows "tm_wf (snd (Timer_cancel a m))"
proof -
  have "tm_wf (tm_write a (\<lambda>t. t\<lparr>tm_cb := None\<rparr>) m)"
    using assms by (rule tm_wf_write_same_next) simp
  then show ?thesis
    using assms tm_wf_remove1 [of "tm_write a (\<lambda>t. t\<lparr>tm_cb := None\<rparr>) m" a]
    by (simp add: Timer_cancel_unfold)
qed

lemma deadlines_Timer_cancel:
  assumes "tm_wf m"
  shows "deadlines (snd (Timer_cancel a m)) =
    (if tm_cb (tm_at (theap m) a) = None then deadlines m else (deadlines m)(a := None))"
  using tm_wf_distinct [OF assms] assms
  by (auto simp: Timer_cancel_unfold deadlines_def fun_eq_iff)

text \<open>Taking a timer out, giving it a new deadline and putting it back: \<open>refresh\<close> and \<open>reset\<close>.\<close>

lemma tm_wf_rearm:
  assumes "tm_wf m"
  shows "tm_wf (add_timer_locked a (tm_write a f (m\<lparr>m_timers := remove1 a (m_timers m)\<rparr>)))"
proof -
  let ?m = "m\<lparr>m_timers := remove1 a (m_timers m)\<rparr>"
  have "tm_wf ?m" "a \<notin> set (m_timers ?m)"
    using tm_wf_remove1 [OF assms, of a] tm_wf_distinct [OF assms] by simp_all
  then have "tm_wf (tm_write a f ?m)"
    by (rule tm_wf_write_notin)
  then show ?thesis
    by (rule tm_wf_add_timer_locked) simp
qed

lemma deadlines_rearm:
  assumes "tm_wf m"
  shows "deadlines (add_timer_locked a (tm_write a f (m\<lparr>m_timers := remove1 a (m_timers m)\<rparr>))) =
    (deadlines m)(a \<mapsto> m_next (f (tm_at (theap m) a)))"
  using tm_wf_distinct [OF assms] by (auto simp: deadlines_def fun_eq_iff)

lemma Timer_refresh_unfold:
  "tm_wf m \<Longrightarrow>
   Timer_refresh now a m =
    (if tm_cb (tm_at (theap m) a) = None \<or> a \<notin> set (m_timers m) then (False, m)
     else (True, add_timer_locked a (tm_write a (\<lambda>t. t\<lparr>m_next := now + m_ms t\<rparr>)
                   (m\<lparr>m_timers := remove1 a (m_timers m)\<rparr>))))"
  by (simp add: Timer_refresh_def tm_wf_find Let_def)

lemma tm_write_twice: "tm_write a f (tm_write a g m) = tm_write a (\<lambda>t. f (g t)) m"
  by (simp add: tm_write_def)

lemma Timer_reset_unfold:
  "tm_wf m \<Longrightarrow>
   Timer_reset now ms from_now a m =
    (if ms = m_ms (tm_at (theap m) a) \<and> \<not> from_now then (True, m)
     else if a \<notin> set (m_timers m) then (False, m)
     else (True, add_timer_locked a
            (tm_write a (\<lambda>t. t\<lparr>m_next := (if from_now then now + ms else m_next t - m_ms t + ms),
                               m_ms := ms\<rparr>)
              (m\<lparr>m_timers := remove1 a (m_timers m)\<rparr>))))"
  by (simp add: Timer_reset_def tm_wf_find Let_def tm_write_twice
      timer_order.ss_erase_total tm_wf_sorted)

lemma tm_wf_Timer_refresh: "tm_wf m \<Longrightarrow> tm_wf (snd (Timer_refresh now a m))"
  by (simp add: Timer_refresh_unfold tm_wf_rearm)

lemma tm_wf_Timer_reset: "tm_wf m \<Longrightarrow> tm_wf (snd (Timer_reset now ms from_now a m))"
  by (simp add: Timer_reset_unfold tm_wf_rearm)

section \<open>Expiry\<close>

text \<open>What the expiry loop does to a timer object: re-arm a recurring one, disarm any other.\<close>

definition expire_timer :: "u64 \<Rightarrow> 'cb timer \<Rightarrow> 'cb timer" where
  "expire_timer now t =
     (if m_recurring t then t\<lparr>m_next := now + m_ms t\<rparr> else t\<lparr>tm_cb := None\<rparr>)"

definition recurring_of :: "(nat \<Rightarrow> 'cb timer option) \<Rightarrow> nat list \<Rightarrow> nat list" where
  "recurring_of h ts = filter (\<lambda>a. m_recurring (tm_at h a)) ts"

lemma recurring_of_cong:
  "(\<And>b. b \<in> set ts \<Longrightarrow> tm_at h b = tm_at h' b) \<Longrightarrow> recurring_of h ts = recurring_of h' ts"
  by (simp add: recurring_of_def cong: filter_cong)

lemma expire_loop_Cons:
  "expire_loop now (a # ts) s =
     expire_loop now ts
       (s\<lparr>es_cbs := es_cbs s @ [tm_cb (tm_at (theap (es_tm s)) a)],
          es_tm := (if m_recurring (tm_at (theap (es_tm s)) a)
                    then add_timer_locked a (tm_write a (expire_timer now) (es_tm s))
                    else tm_write a (expire_timer now) (es_tm s)),
          es_locked := es_locked s \<and> \<not> m_recurring (tm_at (theap (es_tm s)) a),
          es_unlocked := es_unlocked s @
            (if m_recurring (tm_at (theap (es_tm s)) a) \<and> \<not> es_locked s then [a] else [])\<rparr>)"
  by (simp add: Let_def expire_timer_def tm_write_def)

lemma expire_loop_heap:
  "distinct ts \<Longrightarrow>
   tm_at (theap (es_tm (expire_loop now ts s))) b =
     (if b \<in> set ts then expire_timer now (tm_at (theap (es_tm s)) b)
      else tm_at (theap (es_tm s)) b)"
proof (induction ts arbitrary: s)
  case Nil
  then show ?case by simp
next
  case (Cons a ts)
  then show ?case by (auto simp: expire_loop_Cons simp del: expire_loop.simps)
qed

lemma expire_loop_cbs:
  "distinct ts \<Longrightarrow>
   es_cbs (expire_loop now ts s) = es_cbs s @ map (\<lambda>a. tm_cb (tm_at (theap (es_tm s)) a)) ts"
proof (induction ts arbitrary: s)
  case Nil
  then show ?case by simp
next
  case (Cons a ts)
  have "tm_at (theap (es_tm s)) b = tm_at ((theap (es_tm s))(a \<mapsto> t)) b" if "b \<in> set ts" for b t
    using Cons.prems that by auto
  with Cons show ?case by (auto simp: expire_loop_Cons simp del: expire_loop.simps)
qed

lemma expire_loop_timers:
  "distinct ts \<Longrightarrow>
   set (m_timers (es_tm (expire_loop now ts s))) =
     set (m_timers (es_tm s)) \<union> set (recurring_of (theap (es_tm s)) ts)"
proof (induction ts arbitrary: s)
  case Nil
  then show ?case by (simp add: recurring_of_def)
next
  case (Cons a ts)
  have "recurring_of ((theap (es_tm s))(a \<mapsto> t)) ts = recurring_of (theap (es_tm s)) ts" for t
    using Cons.prems by (intro recurring_of_cong) auto
  with Cons show ?case
    by (auto simp: expire_loop_Cons recurring_of_def simp del: expire_loop.simps)
qed

lemma expire_loop_wf:
  "distinct ts \<Longrightarrow> tm_wf (es_tm s) \<Longrightarrow> set ts \<inter> set (m_timers (es_tm s)) = {} \<Longrightarrow>
   tm_wf (es_tm (expire_loop now ts s))"
proof (induction ts arbitrary: s)
  case Nil
  then show ?case by simp
next
  case (Cons a ts)
  have w: "tm_wf (tm_write a (expire_timer now) (es_tm s))"
    using Cons.prems by (intro tm_wf_write_notin) auto
  have "tm_wf (add_timer_locked a (tm_write a (expire_timer now) (es_tm s)))"
    using w by (rule tm_wf_add_timer_locked) simp
  with w Cons show ?case
    by (auto simp: expire_loop_Cons simp del: expire_loop.simps intro!: Cons.IH)
qed

lemma expire_loop_unlocked:
  "distinct ts \<Longrightarrow>
   es_unlocked (expire_loop now ts s) = es_unlocked s @
     (let rs = recurring_of (theap (es_tm s)) ts in if es_locked s then drop 1 rs else rs)"
proof (induction ts arbitrary: s)
  case Nil
  then show ?case by (simp add: recurring_of_def)
next
  case (Cons a ts)
  have "recurring_of ((theap (es_tm s))(a \<mapsto> t)) ts = recurring_of (theap (es_tm s)) ts" for t
    using Cons.prems by (intro recurring_of_cong) auto
  with Cons show ?case
    by (auto simp: expire_loop_Cons recurring_of_def Let_def simp del: expire_loop.simps)
qed


lemma expired_split_spec:
  assumes wf: "tm_wf m" and ne: "m_timers m = b # bs"
    and due: "m_next (tm_at (theap m) b) \<le> now" and probe: "probe \<notin> set (m_timers m)"
    and split: "expired_split now probe m = (E, R)"
  shows "E @ R = m_timers m"
    and "a \<in> set E \<Longrightarrow> m_next (tm_at (theap m) a) \<le> now"
    and "a \<in> set R \<Longrightarrow>
      now < m_next (tm_at (theap m) a) \<or> now = m_next (tm_at (theap m) a) \<and> probe < a"
proof -
  let ?h = "(theap m)(probe \<mapsto> Timer_probe now)"
  let ?B = "ss_before_upper (tm_less ?h) probe (m_timers m)"
  let ?U = "ss_upper_bound (tm_less ?h) probe (m_timers m)"
  have sorted: "sorted_wrt (tm_less ?h) (m_timers m)"
    using wf probe by (simp add: sorted_tm_frame tm_wf_sorted)
  have BU: "?B @ ?U = m_timers m"
    by (rule timer_order.upper_bound_split)
  have E: "E = (if ?B = [] then take 1 ?U else ?B)" and R: "R = (if ?B = [] then drop 1 ?U else ?U)"
    using split by (auto simp: expired_split_def Let_def split: if_splits)
  show "E @ R = m_timers m"
    using BU E R by (simp split: if_splits)
  have before: "m_next (tm_at (theap m) x) \<le> now" if "x \<in> set ?B" for x
  proof -
    have "x \<noteq> probe" using that BU probe by (metis Un_iff set_append)
    then show ?thesis
      using timer_order.before_upper_le [OF that] by (auto simp: tm_less_iff Timer_probe_def)
  qed
  show "a \<in> set E \<Longrightarrow> m_next (tm_at (theap m) a) \<le> now"
  proof -
    assume a: "a \<in> set E"
    show ?thesis
    proof (cases "?B = []")
      case True
      then have "?U = b # bs" using BU ne by simp
      with a E True due show ?thesis by simp
    next
      case False
      with a E before show ?thesis by simp
    qed
  qed
  assume a: "a \<in> set R"
  then have "a \<in> set ?U" using R by (auto split: if_splits dest: in_set_dropD)
  then have "tm_less ?h probe a" "a \<noteq> probe"
    using timer_order.upper_bound_less [OF sorted] BU probe by (blast, metis Un_iff set_append)
  then show "now < m_next (tm_at (theap m) a) \<or> now = m_next (tm_at (theap m) a) \<and> probe < a"
    by (auto simp: tm_less_iff Timer_probe_def)
qed

text \<open>The outcome of a call of \<open>list_expired_cbs\<close>, by the split of the timer set it makes.\<close>

definition expires :: "u64 \<Rightarrow> nat \<Rightarrow> 'cb timer_manager \<Rightarrow> nat list \<times> nat list" where
  "expires now probe m =
     (case m_timers m of
        [] \<Rightarrow> ([], [])
      | b # _ \<Rightarrow> if m_next (tm_at (theap m) b) > now then ([], m_timers m)
                 else expired_split now probe m)"

lemma expires_spec:
  assumes wf: "tm_wf m" and probe: "probe \<notin> set (m_timers m)"
    and ex: "expires now probe m = (E, R)"
  shows "E @ R = m_timers m"
    and "a \<in> set E \<Longrightarrow> m_next (tm_at (theap m) a) \<le> now"
    and "a \<in> set R \<Longrightarrow>
      now < m_next (tm_at (theap m) a) \<or> now = m_next (tm_at (theap m) a) \<and> probe < a"
proof -
  consider (empty) "m_timers m = []"
    | (later) b bs where "m_timers m = b # bs" "m_next (tm_at (theap m) b) > now"
    | (due) b bs where "m_timers m = b # bs" "m_next (tm_at (theap m) b) \<le> now"
    by (cases "m_timers m") (simp, meson not_le_imp_less)
  then have "E @ R = m_timers m \<and> (a \<in> set E \<longrightarrow> m_next (tm_at (theap m) a) \<le> now) \<and>
    (a \<in> set R \<longrightarrow>
      now < m_next (tm_at (theap m) a) \<or> now = m_next (tm_at (theap m) a) \<and> probe < a)"
  proof cases
    case empty
    with ex show ?thesis by (simp add: expires_def)
  next
    case later
    then have "now < m_next (tm_at (theap m) x)" if "x \<in> set (m_timers m)" for x
      using wf that by (auto simp: tm_wf_def tm_less_iff intro: less_trans)
    with later ex show ?thesis by (auto simp: expires_def)
  next
    case due
    with ex have "expired_split now probe m = (E, R)"
      by (simp add: expires_def leD)
    with expired_split_spec [OF wf due probe] show ?thesis by blast
  qed
  then show "E @ R = m_timers m"
    and "a \<in> set E \<Longrightarrow> m_next (tm_at (theap m) a) \<le> now"
    and "a \<in> set R \<Longrightarrow>
      now < m_next (tm_at (theap m) a) \<or> now = m_next (tm_at (theap m) a) \<and> probe < a"
    by blast+
qed

lemma list_expired_cbs_loop:
  assumes "expires now probe m = (E, R)" and "E @ R = m_timers m"
  shows "\<exists>locked. list_expired_cbs now probe m =
    Inr (expire_loop now E
      \<lparr>es_tm = m\<lparr>m_timers := R\<rparr>, es_cbs = [], es_locked = locked, es_unlocked = []\<rparr>) \<and>
    (E \<noteq> [] \<longrightarrow> locked)"
  using assms
  by (auto simp: expires_def list_expired_cbs_def list_expired_locked_def
      split: list.splits if_splits)


section \<open>The timer queue as its clients see it\<close>

text \<open>
  What \<open>IOManager\<close> and the hooks rely on: arming and disarming change one deadline, and the
  next timeout is the distance to the earliest deadline.
\<close>

locale timer_queue =
  fixes invar :: "'q \<Rightarrow> bool"
    and armed :: "'q \<Rightarrow> nat \<Rightarrow> u64 option"
    and arm :: "u64 \<Rightarrow> nat \<Rightarrow> u64 \<Rightarrow> 'q \<Rightarrow> 'q"
    and next_timeout :: "u64 \<Rightarrow> 'q \<Rightarrow> u64"
  assumes invar_arm: "invar q \<Longrightarrow> armed q a = None \<Longrightarrow> invar (arm now a ms q)"
    and armed_arm: "invar q \<Longrightarrow> armed q a = None \<Longrightarrow> armed (arm now a ms q) = (armed q)(a \<mapsto> now + ms)"
    and timeout_none: "invar q \<Longrightarrow> armed q = Map.empty \<Longrightarrow> next_timeout now q = NOT 0"
    and timeout_some: "invar q \<Longrightarrow> armed q \<noteq> Map.empty \<Longrightarrow>
      \<exists>a d. armed q a = Some d \<and> (\<forall>b e. armed q b = Some e \<longrightarrow> d \<le> e) \<and>
        next_timeout now q = (if d \<le> now then 0 else d - now)"
begin

lemma timeout_zero_iff:
  assumes "invar q"
  shows "next_timeout now q = 0 \<longleftrightarrow> (\<exists>a d. armed q a = Some d \<and> d \<le> now)"
proof (cases "armed q = Map.empty")
  case True
  then show ?thesis using timeout_none [OF assms] by simp
next
  case False
  obtain a d where "armed q a = Some d" "\<forall>b e. armed q b = Some e \<longrightarrow> d \<le> e"
    "next_timeout now q = (if d \<le> now then 0 else d - now)"
    using timeout_some [OF assms False] by blast
  moreover have "d \<le> now \<or> d - now \<noteq> 0" by auto
  ultimately show ?thesis by (auto intro: order_trans)
qed

lemma timeout_le:
  assumes "invar q" and d: "armed q a = Some d"
  shows "unat (next_timeout now q) \<le> unat d - unat now"
proof -
  obtain e where e: "e \<le> d" "next_timeout now q = (if e \<le> now then 0 else e - now)"
    using timeout_some [OF assms(1), of now] d by (metis option.distinct(1))
  show ?thesis
  proof (cases "e \<le> now")
    case False
    then have "unat (e - now) = unat e - unat now" by (intro unat_sub) simp
    with e False show ?thesis by (simp add: word_le_nat_alt)
  qed (use e in simp)
qed

lemma timeout_max_iff:
  assumes "invar q" and "now \<noteq> 0"
  shows "next_timeout now q = NOT 0 \<longleftrightarrow> armed q = Map.empty"
proof (cases "armed q = Map.empty")
  case True
  then show ?thesis using timeout_none [OF assms(1)] by simp
next
  case False
  obtain d where d: "next_timeout now q = (if d \<le> now then 0 else d - now)"
    using timeout_some [OF assms(1) False] by blast
  have "d - now \<noteq> NOT 0" if "\<not> d \<le> now"
  proof
    assume "d - now = NOT 0"
    then have "unat d - unat now = unat (- 1 :: u64)"
      using that by (simp add: unat_sub word_le_nat_alt flip: unat_sub)
    moreover have "unat d \<le> unat (- 1 :: u64)" "0 < unat now"
      using assms(2) by (simp_all add: word_le_nat_alt [symmetric] unat_gt_0)
    ultimately show False
      using that by (simp add: word_le_nat_alt)
  qed
  with d False show ?thesis by auto
qed

end

lemma get_next_timeout_least:
  assumes "tm_wf m" and "m_timers m = b # bs"
  shows "deadlines m c = Some e \<Longrightarrow> m_next (tm_at (theap m) b) \<le> e"
  using assms by (auto simp: deadlines_def tm_wf_def tm_less_iff split: if_splits)

interpretation timers: timer_queue tm_wf deadlines
  "\<lambda>now a ms m. snd (add_timer now a ms cb rec m)" get_next_timeout for cb rec
proof unfold_locales
  fix q :: "'a timer_manager" and a now ms
  assume "tm_wf q" "deadlines q a = None"
  then show "tm_wf (snd (add_timer now a ms cb rec q))"
    by (intro tm_wf_add_timer) (auto simp: deadlines_def split: if_splits)
next
  fix q :: "'a timer_manager" and a now ms
  assume "tm_wf q" "deadlines q a = None"
  then show "deadlines (snd (add_timer now a ms cb rec q)) = (deadlines q)(a \<mapsto> now + ms)"
    by (intro deadlines_add_timer) (auto simp: deadlines_def split: if_splits)
next
  fix q :: "'a timer_manager" and now
  assume "tm_wf q" "deadlines q = Map.empty"
  then have "set (m_timers q) = {}"
    by (auto simp: deadlines_def fun_eq_iff split: if_splits)
  then show "get_next_timeout now q = NOT 0"
    by (simp add: get_next_timeout_def)
next
  fix q :: "'a timer_manager" and now
  assume wf: "tm_wf q" and "deadlines q \<noteq> Map.empty"
  then obtain b bs where b: "m_timers q = b # bs"
    by (cases "m_timers q") (auto simp: deadlines_def)
  let ?d = "m_next (tm_at (theap q) b)"
  have "deadlines q b = Some ?d" using b by (simp add: deadlines_def)
  moreover have "get_next_timeout now q = (if ?d \<le> now then 0 else ?d - now)"
    using b by (simp add: get_next_timeout_def)
  ultimately show "\<exists>a d. deadlines q a = Some d \<and> (\<forall>b e. deadlines q b = Some e \<longrightarrow> d \<le> e) \<and>
      get_next_timeout now q = (if d \<le> now then 0 else d - now)"
    using get_next_timeout_least [OF wf b] by blast
qed


section \<open>Properties\<close>

text \<open>A manager with three timers, used by the witnesses: two recurring ones, due at 60 and 70, and a
  one-shot timer due at 100.\<close>

definition demo_timers :: "nat timer_manager" where
  "demo_timers =
     snd (add_timer 10 7 60 (Some 2) True
       (snd (add_timer 10 3 50 (Some 1) True
         (snd (add_timer 10 5 90 (Some 3) False empty_manager)))))"

lemma demo_timers_eq:
  "demo_timers =
     \<lparr>theap = [5 \<mapsto> \<lparr>m_recurring = False, m_ms = 90, m_next = 100, tm_cb = Some 3\<rparr>,
               3 \<mapsto> \<lparr>m_recurring = True, m_ms = 50, m_next = 60, tm_cb = Some 1\<rparr>,
               7 \<mapsto> \<lparr>m_recurring = True, m_ms = 60, m_next = 70, tm_cb = Some 2\<rparr>],
      m_timers = [3, 7, 5], m_previous_time = 0, front_calls = 2\<rparr>"
  by (simp add: demo_timers_def add_timer_def add_timer_locked_def empty_manager_def
      Timer_new_def Timer_less_def tm_at_def Let_def)

lemma demo_timers_wf: "tm_wf demo_timers"
  by (simp add: demo_timers_eq tm_wf_def tm_less_iff tm_at_def)

lemma list_expired_cbs_wf:
  assumes "tm_wf m" and probe: "probe \<notin> set (m_timers m)"
  shows "\<exists>s. list_expired_cbs now probe m = Inr s \<and> tm_wf (es_tm s)"
proof -
  obtain E R where ER: "expires now probe m = (E, R)" by fastforce
  note app = expires_spec(1) [OF assms(1) probe ER]
  have "sorted_wrt (tm_less (theap m)) (E @ R)" "distinct (E @ R)"
    using assms app tm_wf_distinct by (auto simp: tm_wf_def)
  moreover have "set (E @ R) = set (m_timers m)" by (simp only: app)
  ultimately have R: "tm_wf (m\<lparr>m_timers := R\<rparr>)" "distinct E" "set E \<inter> set R = {}"
    using assms by (auto simp: tm_wf_def sorted_wrt_append)
  obtain locked where L: "list_expired_cbs now probe m =
      Inr (expire_loop now E
        \<lparr>es_tm = m\<lparr>m_timers := R\<rparr>, es_cbs = [], es_locked = locked, es_unlocked = []\<rparr>)"
    using list_expired_cbs_loop [OF ER app] by blast
  have "tm_wf (es_tm (expire_loop now E
      \<lparr>es_tm = m\<lparr>m_timers := R\<rparr>, es_cbs = [], es_locked = locked, es_unlocked = []\<rparr>))"
    by (rule expire_loop_wf) (simp_all add: R)
  with L show ?thesis by blast
qed

text \<open>
  C7 (timer_set_invariant). Every operation of the timer component keeps the timer set well formed:
  \<open>m_timers\<close> stays strictly sorted by \<open>Timer::Comparator\<close> (so without duplicates) and holds live
  timers only. The set is keyed on \<open>m_next\<close>, which the operations change, so this says that no
  operation changes the key of a timer that is in the set.
\<close>

theorem timer_set_invariant:
  assumes "tm_wf m"
  shows "(a \<notin> set (m_timers m) \<longrightarrow> tm_wf (snd (add_timer now a ms cb rec m))) \<and>
    tm_wf (snd (Timer_cancel b m)) \<and>
    tm_wf (snd (Timer_refresh now b m)) \<and>
    tm_wf (snd (Timer_reset now ms from_now b m)) \<and>
    tm_wf (snd (detect_clock_rollover now m)) \<and>
    (probe \<notin> set (m_timers m) \<longrightarrow>
      (\<exists>s. list_expired_cbs now probe m = Inr s \<and> tm_wf (es_tm s)))"
  using assms list_expired_cbs_wf [OF assms]
  by (simp add: tm_wf_add_timer tm_wf_Timer_cancel tm_wf_Timer_refresh tm_wf_Timer_reset)
    (simp add: detect_clock_rollover_def tm_wf_def)

theorem timer_set_invariant_witness:
  "tm_wf demo_timers \<and> tm_wf (snd (Timer_reset 20 5 False 7 demo_timers)) \<and>
   (\<exists>s. list_expired_cbs 80 4 demo_timers = Inr s \<and> tm_wf (es_tm s))"
  using demo_timers_wf
    timer_set_invariant [OF demo_timers_wf, of 9 20 5 None True 7 False 4]
    timer_set_invariant [OF demo_timers_wf, of 9 80 5 None True 7 False 4]
  by (simp add: demo_timers_eq)

text \<open>
  Theorem (timer_deadlines_refine). Over the abstract view \<open>deadlines\<close> (which timers are armed, and for
  when), \<open>add_timer\<close> arms one timer for \<open>now + ms\<close>; \<open>cancel\<close> disarms a timer that still has
  its callback and reports \<open>false\<close> without a change otherwise; \<open>refresh\<close> re-arms an armed timer
  from now; \<open>reset\<close> re-arms it from now or from the moment it was last armed (\<open>m_next - m_ms\<close>).
  No other timer's deadline changes.
\<close>

theorem timer_deadlines_refine:
  assumes "tm_wf m"
  shows "(a \<notin> set (m_timers m) \<longrightarrow>
       deadlines (snd (add_timer now a ms cb rec m)) = (deadlines m)(a \<mapsto> now + ms)) \<and>
    Timer_cancel a m =
      (tm_cb (tm_at (theap m) a) \<noteq> None, snd (Timer_cancel a m)) \<and>
    deadlines (snd (Timer_cancel a m)) =
      (if tm_cb (tm_at (theap m) a) = None then deadlines m else (deadlines m)(a := None)) \<and>
    (tm_cb (tm_at (theap m) a) \<noteq> None \<and> deadlines m a \<noteq> None \<longrightarrow>
      deadlines (snd (Timer_refresh now a m)) =
        (deadlines m)(a \<mapsto> now + m_ms (tm_at (theap m) a))) \<and>
    (deadlines m a = Some d \<longrightarrow> from_now \<or> ms \<noteq> m_ms (tm_at (theap m) a) \<longrightarrow>
      deadlines (snd (Timer_reset now ms from_now a m)) =
        (deadlines m)(a \<mapsto> (if from_now then now + ms else d - m_ms (tm_at (theap m) a) + ms)))"
  using assms deadlines_Timer_cancel [OF assms]
  by (auto simp: deadlines_add_timer Timer_cancel_unfold Timer_refresh_unfold Timer_reset_unfold
      deadlines_rearm deadlines_def [of m a] split: if_splits)

theorem timer_deadlines_refine_witness:
  "tm_wf demo_timers \<and> deadlines demo_timers 7 = Some 70 \<and>
   deadlines (snd (Timer_reset 20 25 False 7 demo_timers)) = (deadlines demo_timers)(7 \<mapsto> 35)"
  using demo_timers_wf
    timer_deadlines_refine [OF demo_timers_wf, where a = 7 and now = 20 and ms = 25 and d = 70
      and from_now = False]
  by (simp add: demo_timers_eq deadlines_def tm_at_def)

lemma list_expired_cbs_effect:
  assumes "tm_wf m" and "probe \<notin> set (m_timers m)"
  obtains E R s where "m_timers m = E @ R" and "list_expired_cbs now probe m = Inr s"
    and "es_cbs s = map (\<lambda>a. tm_cb (tm_at (theap m) a)) E"
    and "\<And>a. a \<in> set E \<Longrightarrow> m_next (tm_at (theap m) a) \<le> now"
    and "\<And>a. a \<in> set R \<Longrightarrow> now < m_next (tm_at (theap m) a) \<or>
       now = m_next (tm_at (theap m) a) \<and> probe < a"
    and "deadlines (es_tm s) =
      (\<lambda>a. if a \<in> set E then (if m_recurring (tm_at (theap m) a)
                             then Some (now + m_ms (tm_at (theap m) a)) else None)
           else deadlines m a)"
    and "\<And>a. tm_at (theap (es_tm s)) a =
       (if a \<in> set E then expire_timer now (tm_at (theap m) a) else tm_at (theap m) a)"
proof -
  obtain E R where ER: "expires now probe m = (E, R)" by fastforce
  note app = expires_spec(1) [OF assms ER]
  obtain locked where L: "list_expired_cbs now probe m =
      Inr (expire_loop now E
        \<lparr>es_tm = m\<lparr>m_timers := R\<rparr>, es_cbs = [], es_locked = locked, es_unlocked = []\<rparr>)"
    using list_expired_cbs_loop [OF ER app] by blast
  let ?s = "expire_loop now E
    \<lparr>es_tm = m\<lparr>m_timers := R\<rparr>, es_cbs = [], es_locked = locked, es_unlocked = []\<rparr>"
  have "distinct (E @ R)" using tm_wf_distinct [OF assms(1)] app by simp
  then have dist: "distinct E" and disj: "set E \<inter> set R = {}" by simp_all
  have heap: "tm_at (theap (es_tm ?s)) a =
      (if a \<in> set E then expire_timer now (tm_at (theap m) a) else tm_at (theap m) a)" for a
    by (simp add: expire_loop_heap [OF dist])
  have "set (m_timers m) = set E \<union> set R" by (metis app set_append)
  then have dl: "deadlines (es_tm ?s) =
      (\<lambda>a. if a \<in> set E then (if m_recurring (tm_at (theap m) a)
                             then Some (now + m_ms (tm_at (theap m) a)) else None)
           else deadlines m a)"
    using disj
    by (auto simp: deadlines_def fun_eq_iff recurring_of_def expire_timer_def heap
        expire_loop_timers [OF dist])
  show ?thesis
    by (rule that [of E R ?s])
      (use app L dl expires_spec(2,3) [OF assms ER] in \<open>simp_all add: heap expire_loop_cbs [OF dist]\<close>)
qed




text \<open>
  Theorem (get_next_timeout_correct). \<open>get_next_timeout\<close> answers \<open>~0\<close> when no timer is armed; otherwise
  it answers 0 exactly when some timer is due, and else the distance from \<open>now\<close> to the earliest
  deadline, which never wraps. A reading of \<open>~0\<close> at a nonzero clock therefore means that no timer is
  armed, which \<open>IOManager::stopping\<close> relies on.
\<close>

theorem get_next_timeout_correct:
  assumes "tm_wf m"
  shows "(get_next_timeout now m = 0 \<longleftrightarrow> (\<exists>a d. deadlines m a = Some d \<and> d \<le> now)) \<and>
    (deadlines m = Map.empty \<longrightarrow> get_next_timeout now m = NOT 0) \<and>
    (now \<noteq> 0 \<and> get_next_timeout now m = NOT 0 \<longrightarrow> \<not> has_timer m) \<and>
    (\<forall>a d. deadlines m a = Some d \<and> now < d \<longrightarrow>
       unat (get_next_timeout now m) \<le> unat d - unat now)"
proof -
  have "deadlines m = Map.empty \<longleftrightarrow> \<not> has_timer m"
    by (cases "m_timers m") (auto simp: deadlines_def has_timer_def fun_eq_iff)
  then show ?thesis
    using timers.timeout_le [OF assms] timers.timeout_zero_iff [OF assms, of now] timers.timeout_none [OF assms, of now]
      timers.timeout_max_iff [OF assms, of now]
    by blast
qed

theorem get_next_timeout_correct_witness:
  "tm_wf demo_timers \<and> get_next_timeout 60 demo_timers = 0 \<and> get_next_timeout 40 demo_timers = 20"
  using demo_timers_wf
    get_next_timeout_correct [OF demo_timers_wf, of 60]
  by (simp add: demo_timers_eq deadlines_def get_next_timeout_def tm_at_def)

text \<open>
  Theorem (expiry_unlocked_inserts). The loop of \<open>list_expired_cbs\<close> puts recurring timers back with
  \<open>add_timer(timer, lock)\<close>, which releases the caller's write lock. All recurring timers of one call
  but the first are therefore inserted into \<open>m_timers\<close> without the lock: exactly the tail of the
  expired recurring timers.
\<close>

theorem expiry_unlocked_inserts:
  assumes "tm_wf m" and "probe \<notin> set (m_timers m)"
    and "list_expired_cbs now probe m = Inr s"
  shows "\<exists>E R. m_timers m = E @ R \<and> expires now probe m = (E, R) \<and>
    es_unlocked s = drop 1 (recurring_of (theap m) E)"
proof -
  obtain E R where ER: "expires now probe m = (E, R)" by fastforce
  note app = expires_spec(1) [OF assms(1,2) ER]
  have "distinct (E @ R)" using tm_wf_distinct [OF assms(1)] app by simp
  then have "distinct E" by simp
  with list_expired_cbs_loop [OF ER app] assms(3)
  have "es_unlocked s = drop 1 (recurring_of (theap m) E)"
    by (cases "E = []") (auto simp: expire_loop_unlocked Let_def recurring_of_def)
  with app ER show ?thesis by metis
qed

theorem expiry_unlocked_inserts_witness:
  "tm_wf demo_timers \<and> 4 \<notin> set (m_timers demo_timers) \<and>
   (\<exists>s. list_expired_cbs 80 4 demo_timers = Inr s \<and> es_unlocked s = [7])"
proof -
  have p: "4 \<notin> set (m_timers demo_timers)" by (simp add: demo_timers_eq)
  obtain s where s: "list_expired_cbs 80 4 demo_timers = Inr s"
    using list_expired_cbs_loop expires_spec(1) [OF demo_timers_wf p] by (metis surj_pair)
  have "expires 80 4 demo_timers = ([3, 7], [5])"
    by (simp add: demo_timers_eq expires_def expired_split_def Let_def ss_before_upper_def
        ss_upper_bound_def tm_less_iff tm_at_def Timer_probe_def)
  with expiry_unlocked_inserts [OF demo_timers_wf p s] have "es_unlocked s = [7]"
    by (auto simp: recurring_of_def demo_timers_eq tm_at_def)
  with p s demo_timers_wf show ?thesis by blast
qed

text \<open>
  Theorem (expiry_check_race). \<open>list_expired_cbs\<close> tests \<open>m_timers.empty()\<close> under a read lock, releases it,
  and reads \<open>*m_timers.begin()\<close> under a write lock without testing again. When the only timer is
  cancelled between the two, the second half dereferences \<open>begin()\<close> of an empty set.
\<close>

theorem expiry_check_race:
  assumes "tm_wf m" and "m_timers m = [a]" and "tm_cb (tm_at (theap m) a) \<noteq> None"
  shows "has_timer m \<and>
    list_expired_locked now probe (snd (Timer_cancel a m)) =
      Inl (Undefined ''*m_timers.begin() of an empty set'')"
  using assms by (auto simp: has_timer_def list_expired_locked_def Timer_cancel_unfold)

theorem expiry_check_race_witness:
  "list_expired_locked 80 4 (snd (Timer_cancel 1
     (snd (add_timer 0 1 9 (Some (0::nat)) False empty_manager)))) =
   Inl (Undefined ''*m_timers.begin() of an empty set'')"
proof -
  let ?m = "snd (add_timer 0 1 9 (Some (0::nat)) False empty_manager)"
  have "tm_wf ?m" by (rule tm_wf_add_timer) (simp_all add: tm_wf_empty, simp add: empty_manager_def)
  moreover have "m_timers ?m = [1]" "tm_cb (tm_at (theap ?m) 1) \<noteq> None"
    by (simp_all add: add_timer_def add_timer_locked_def empty_manager_def Timer_new_def tm_at_def)
  ultimately show ?thesis using expiry_check_race [of ?m 1 80 4] by blast
qed

text \<open>
  Theorem (detect_clock_rollover_correct). The rollover test is right for a previous reading of at least
  one hour: it reports a rollover exactly when the clock went back by more than an hour. For an
  earlier previous reading the subtraction wraps and every step backwards counts as a rollover.
\<close>

theorem detect_clock_rollover_correct:
  "fst (detect_clock_rollover now m) \<longleftrightarrow>
     (if 3600000 \<le> unat (m_previous_time m) then unat now + 3600000 < unat (m_previous_time m)
      else unat now < unat (m_previous_time m))"
proof -
  let ?p = "m_previous_time m"
  have h: "unat (3600000 :: u64) = 3600000" by simp
  show ?thesis
  proof (cases "3600000 \<le> unat ?p")
    case True
    then have "unat (?p - 3600000) = unat ?p - 3600000"
      by (metis h unat_sub word_le_nat_alt)
    with True show ?thesis
      by (auto simp: detect_clock_rollover_def word_less_nat_alt)
  next
    case False
    then have "unat (?p - 3600000) = unat ?p + 2 ^ 64 - 3600000"
      by (simp add: unat_sub_if' )
    with False show ?thesis
      by (auto simp: detect_clock_rollover_def word_less_nat_alt)
  qed
qed

end
