(* ===== verification/Timer_Alarms.thy ===== *)
theory Timer_Alarms
  imports Timer
begin

text \<open>
  What \<open>TimerManager\<close> promises to its clients, as an abstract system: a table of armed timers, indexed by the timer's address, in which
  every call updates at most the timer it is made on. \<open>call_run\<close> is a history of calls on the manager of theory \<open>Timer\<close> with the
  answers it gave, \<open>alarm_run\<close> a history of the table. The order of the set, the comparator, the search key and the callbacks
  left in disarmed objects do not occur in the table.
\<close>

section \<open>Calls and their answers\<close>

datatype 'cb timer_call =
    Call_add u64 nat u64 "'cb option" bool
  | Call_cancel nat
  | Call_refresh u64 nat
  | Call_reset u64 u64 bool nat
  | Call_next u64
  | Call_any
  | Call_expired u64 nat

datatype 'cb timer_answer =
    Ans_timer nat
  | Ans_bool bool
  | Ans_ms u64
  | Ans_cbs "'cb option list"

text \<open>A call on the manager. The first number is the reading of the clock; \<open>Call_expired\<close> also has the address of the search key.\<close>

fun make_call :: "'cb timer_call \<Rightarrow> 'cb timer_manager \<Rightarrow> ('cb timer_answer \<times> 'cb timer_manager) result" where
  "make_call (Call_add now a ms cb rec) m = (let (t, m') = add_timer now a ms cb rec m in Inr (Ans_timer t, m'))"
| "make_call (Call_cancel a) m = (let (b, m') = Timer_cancel a m in Inr (Ans_bool b, m'))"
| "make_call (Call_refresh now a) m = (let (b, m') = Timer_refresh now a m in Inr (Ans_bool b, m'))"
| "make_call (Call_reset now ms from_now a) m = (let (b, m') = Timer_reset now ms from_now a m in Inr (Ans_bool b, m'))"
| "make_call (Call_next now) m = Inr (Ans_ms (get_next_timeout now m), m)"
| "make_call Call_any m = Inr (Ans_bool (has_timer m), m)"
| "make_call (Call_expired now probe) m = rbind (list_expired_cbs now probe m) (\<lambda>s. Inr (Ans_cbs (es_cbs s), es_tm s))"

text \<open>An allocation does not return the address of a live object; a timer that is not armed may be gone.\<close>

fun address_free :: "'cb timer_call \<Rightarrow> 'cb timer_manager \<Rightarrow> bool" where
  "address_free (Call_add now a ms cb rec) m = (a \<notin> set (m_timers m))"
| "address_free (Call_expired now probe) m = (probe \<notin> set (m_timers m))"
| "address_free c m = True"

inductive call_run :: "'cb timer_manager \<Rightarrow> ('cb timer_call \<times> 'cb timer_answer) list \<Rightarrow> 'cb timer_manager \<Rightarrow> bool" where
  call_run_Nil: "call_run m [] m"
| call_run_Cons: "address_free c m \<Longrightarrow> make_call c m = Inr (ans, m1) \<Longrightarrow> call_run m1 tr m2 \<Longrightarrow>
    call_run m ((c, ans) # tr) m2"

text \<open>A list of calls made one after the other.\<close>

fun make_calls :: "'cb timer_call list \<Rightarrow> 'cb timer_manager \<Rightarrow> (('cb timer_call \<times> 'cb timer_answer) list \<times> 'cb timer_manager) option" where
  "make_calls [] m = Some ([], m)"
| "make_calls (c # cs) m =
     (if address_free c m then
        (case make_call c m of
           Inl _ \<Rightarrow> None
         | Inr (ans, m1) \<Rightarrow> (case make_calls cs m1 of None \<Rightarrow> None | Some (tr, m2) \<Rightarrow> Some ((c, ans) # tr, m2)))
      else None)"

lemma make_calls_run: "make_calls cs m = Some (tr, m') \<Longrightarrow> call_run m tr m'"
proof (induction cs m arbitrary: tr m' rule: make_calls.induct)
  case (2 c cs m)
  from "2.prems" obtain ans m1 tr1 where "address_free c m" "make_call c m = Inr (ans, m1)" "make_calls cs m1 = Some (tr1, m')"
    "tr = (c, ans) # tr1" by (auto split: if_splits sum.splits option.splits)
  with "2.IH" [OF this(1) this(2)] show ?case by (auto intro: call_run_Cons)
qed (simp add: call_run_Nil)

section \<open>The table of armed timers\<close>

type_synonym 'cb alarms = "nat \<Rightarrow> 'cb timer option"

text \<open>Of the armed timers in the order of their deadlines, and of their addresses where these are equal.\<close>

definition in_order :: "'cb alarms \<Rightarrow> nat list \<Rightarrow> bool" where
  "in_order A = sorted_wrt (\<lambda>a b. m_next (tm_at A a) < m_next (tm_at A b) \<or> m_next (tm_at A a) = m_next (tm_at A b) \<and> a < b)"

text \<open>How long until a timer is due.\<close>

definition remaining :: "u64 \<Rightarrow> 'cb timer \<Rightarrow> u64" where
  "remaining now t = (if m_next t \<le> now then 0 else m_next t - now)"

text \<open>
  The contract of each call. A call on a timer that is not armed changes nothing, and \<open>reset\<close> may answer either way for it. Expiry takes every timer
  whose deadline has passed; a timer due exactly now may be taken or left.
\<close>

fun alarm_step :: "'cb timer_call \<Rightarrow> 'cb timer_answer \<Rightarrow> 'cb alarms \<Rightarrow> 'cb alarms \<Rightarrow> bool" where
  "alarm_step (Call_add now a ms cb rec) ans A A' \<longleftrightarrow>
     ans = Ans_timer a \<and> A a = None \<and>
     A' = A(a \<mapsto> \<lparr>m_recurring = rec, m_ms = ms, m_next = now + ms, tm_cb = cb\<rparr>)"
| "alarm_step (Call_cancel a) ans A A' \<longleftrightarrow>
     (case A a of
        Some t \<Rightarrow> (if tm_cb t = None then ans = Ans_bool False \<and> A' = A else ans = Ans_bool True \<and> A' = A(a := None))
      | None \<Rightarrow> ans = Ans_bool False \<and> A' = A)"
| "alarm_step (Call_refresh now a) ans A A' \<longleftrightarrow>
     (case A a of
        Some t \<Rightarrow> (if tm_cb t = None then ans = Ans_bool False \<and> A' = A
          else ans = Ans_bool True \<and> A' = A(a \<mapsto> t\<lparr>m_next := now + m_ms t\<rparr>))
      | None \<Rightarrow> ans = Ans_bool False \<and> A' = A)"
| "alarm_step (Call_reset now ms from_now a) ans A A' \<longleftrightarrow>
     (case A a of
        Some t \<Rightarrow> ans = Ans_bool True \<and>
          A' = (if ms = m_ms t \<and> \<not> from_now then A
            else A(a \<mapsto> t\<lparr>m_ms := ms, m_next := (if from_now then now else m_next t - m_ms t) + ms\<rparr>))
      | None \<Rightarrow> A' = A)"
| "alarm_step (Call_next now) ans A A' \<longleftrightarrow> A' = A \<and>
     (if A = Map.empty then ans = Ans_ms (NOT 0)
      else \<exists>t \<in> ran A. ans = Ans_ms (remaining now t) \<and> (\<forall>u \<in> ran A. remaining now t \<le> remaining now u))"
| "alarm_step Call_any ans A A' \<longleftrightarrow> A' = A \<and> ans = Ans_bool (A \<noteq> Map.empty)"
| "alarm_step (Call_expired now probe) ans A A' \<longleftrightarrow>
     (\<exists>E. in_order A E \<and> set E \<subseteq> dom A \<and> ans = Ans_cbs (map (\<lambda>a. tm_cb (tm_at A a)) E) \<and>
        (\<forall>a \<in> dom A. (a \<in> set E \<longrightarrow> m_next (tm_at A a) \<le> now) \<and> (m_next (tm_at A a) < now \<longrightarrow> a \<in> set E)) \<and>
        A' = (\<lambda>a. if a \<in> set E then (if m_recurring (tm_at A a)
          then Some ((tm_at A a)\<lparr>m_next := now + m_ms (tm_at A a)\<rparr>) else None) else A a))"

inductive alarm_run :: "'cb alarms \<Rightarrow> ('cb timer_call \<times> 'cb timer_answer) list \<Rightarrow> 'cb alarms \<Rightarrow> bool" where
  alarm_run_Nil: "alarm_run A [] A"
| alarm_run_Cons: "alarm_step c ans A A1 \<Longrightarrow> alarm_run A1 tr A2 \<Longrightarrow> alarm_run A ((c, ans) # tr) A2"

section \<open>The manager implements the table\<close>

definition alarms :: "'cb timer_manager \<Rightarrow> 'cb alarms" where
  "alarms m a = (if a \<in> set (m_timers m) then Some (tm_at (theap m) a) else None)"

text \<open>A timer that is not armed has lost its callback.\<close>

definition timers_ok :: "'cb timer_manager \<Rightarrow> bool" where
  "timers_ok m \<longleftrightarrow> tm_wf m \<and> (\<forall>a. a \<notin> set (m_timers m) \<longrightarrow> tm_cb (tm_at (theap m) a) = None)"

lemma timers_ok_wf [dest]: "timers_ok m \<Longrightarrow> tm_wf m"
  by (simp add: timers_ok_def)

lemma timers_ok_empty: "timers_ok empty_manager"
  by (simp add: timers_ok_def tm_wf_empty) (simp add: empty_manager_def tm_at_def Timer_probe_def)

lemma alarms_empty: "alarms empty_manager = Map.empty"
  by (simp add: alarms_def empty_manager_def fun_eq_iff)

lemma dom_alarms [simp]: "dom (alarms m) = set (m_timers m)"
  by (auto simp: alarms_def split: if_splits)

lemma tm_at_alarms: "a \<in> set (m_timers m) \<Longrightarrow> tm_at (alarms m) a = tm_at (theap m) a"
  by (simp add: alarms_def tm_at_def)

lemma ran_alarms: "ran (alarms m) = tm_at (theap m) ` set (m_timers m)"
  by (auto simp: alarms_def ran_def split: if_splits)

lemma alarms_rearm:
  "tm_wf m \<Longrightarrow> a \<in> set (m_timers m) \<Longrightarrow>
   alarms (add_timer_locked a (tm_write a f (m\<lparr>m_timers := remove1 a (m_timers m)\<rparr>))) =
     (alarms m)(a \<mapsto> f (tm_at (theap m) a))"
  using tm_wf_distinct by (fastforce simp: alarms_def fun_eq_iff)

lemma ok_rearm:
  assumes "timers_ok m"
  shows "timers_ok (add_timer_locked a (tm_write a f (m\<lparr>m_timers := remove1 a (m_timers m)\<rparr>)))"
  using assms tm_wf_rearm [of m a f] tm_wf_distinct [of m] by (auto simp: timers_ok_def)

lemma add_refines:
  assumes "timers_ok m" and "a \<notin> set (m_timers m)" and "add_timer now a ms cb rec m = (t, m')"
  shows "timers_ok m' \<and> alarm_step (Call_add now a ms cb rec) (Ans_timer t) (alarms m) (alarms m')"
proof -
  have m': "t = a" "m' = snd (add_timer now a ms cb rec m)" using assms(3) by (auto simp: add_timer_def)
  have "timers_ok m'" unfolding m' using assms(1,2) tm_wf_add_timer [of m a now ms cb rec]
    by (auto simp: timers_ok_def add_timer_def)
  then show ?thesis unfolding m' using assms(2)
    by (auto simp: add_timer_def alarms_def Timer_new_def fun_eq_iff)
qed

lemma cancel_refines:
  assumes "timers_ok m" and "Timer_cancel a m = (b, m')"
  shows "timers_ok m' \<and> alarm_step (Call_cancel a) (Ans_bool b) (alarms m) (alarms m')"
proof -
  have "timers_ok m'" using assms tm_wf_Timer_cancel [of m a] tm_wf_distinct [of m]
    by (auto simp: timers_ok_def Timer_cancel_unfold split: if_splits)
  moreover have "a \<in> set (m_timers m)" if "tm_cb (tm_at (theap m) a) \<noteq> None"
    using assms(1) that by (auto simp: timers_ok_def)
  ultimately show ?thesis
    using assms tm_wf_distinct [of m]
    by (auto simp: Timer_cancel_unfold timers_ok_wf alarms_def fun_eq_iff split: if_splits)
qed

lemma refresh_refines:
  assumes "timers_ok m" and "Timer_refresh now a m = (b, m')"
  shows "timers_ok m' \<and> alarm_step (Call_refresh now a) (Ans_bool b) (alarms m) (alarms m')"
  using assms ok_rearm [OF assms(1), of a] alarms_rearm [of m a]
  by (auto simp: Timer_refresh_unfold timers_ok_wf alarms_def [of m a] split: if_splits)

lemma reset_refines:
  assumes "timers_ok m" and "Timer_reset now ms from_now a m = (b, m')"
  shows "timers_ok m' \<and> alarm_step (Call_reset now ms from_now a) (Ans_bool b) (alarms m) (alarms m')"
  using assms ok_rearm [OF assms(1), of a] alarms_rearm [of m a]
  by (auto simp: Timer_reset_unfold timers_ok_wf alarms_def [of m a] split: if_splits)

lemma next_refines:
  assumes "timers_ok m"
  shows "alarm_step (Call_next now) (Ans_ms (get_next_timeout now m)) (alarms m) (alarms m)"
proof (cases "m_timers m")
  case Nil
  then show ?thesis by (simp add: get_next_timeout_def alarms_def fun_eq_iff)
next
  case (Cons b ts)
  have "m_next (tm_at (theap m) b) \<le> m_next (tm_at (theap m) a)" if "a \<in> set (m_timers m)" for a
    using timers_ok_wf [OF assms] that unfolding tm_wf_def Cons by (auto simp: tm_less_iff)
  then have "remaining now (tm_at (theap m) b) \<le> remaining now (tm_at (theap m) a)" if "a \<in> set (m_timers m)" for a
    using that by (fastforce simp: remaining_def word_le_nat_alt unat_sub_if')
  moreover have "alarms m \<noteq> Map.empty" using Cons dom_alarms [of m] by (metis dom_empty empty_set list.simps(15) insert_not_empty)
  moreover have "get_next_timeout now m = remaining now (tm_at (theap m) b)"
    by (simp add: get_next_timeout_def Cons remaining_def)
  ultimately show ?thesis by (auto simp: ran_alarms Cons)
qed

lemma any_refines: "alarm_step Call_any (Ans_bool (has_timer m)) (alarms m) (alarms m)"
proof -
  have "alarms m = Map.empty \<longleftrightarrow> m_timers m = []" using dom_alarms [of m] by (metis dom_eq_empty_conv set_empty)
  then show ?thesis by (simp add: has_timer_def)
qed

lemma expired_refines:
  assumes "timers_ok m" and "probe \<notin> set (m_timers m)" and "list_expired_cbs now probe m = Inr s"
  shows "timers_ok (es_tm s) \<and> alarm_step (Call_expired now probe) (Ans_cbs (es_cbs s)) (alarms m) (alarms (es_tm s))"
proof -
  note wf = timers_ok_wf [OF assms(1)]
  obtain E R s2 where e: "m_timers m = E @ R" "list_expired_cbs now probe m = Inr s2"
    "es_cbs s2 = map (\<lambda>a. tm_cb (tm_at (theap m) a)) E"
    "\<And>a. a \<in> set E \<Longrightarrow> m_next (tm_at (theap m) a) \<le> now"
    "\<And>a. a \<in> set R \<Longrightarrow> now < m_next (tm_at (theap m) a) \<or> now = m_next (tm_at (theap m) a) \<and> probe < a"
    "deadlines (es_tm s2) = (\<lambda>a. if a \<in> set E then (if m_recurring (tm_at (theap m) a)
       then Some (now + m_ms (tm_at (theap m) a)) else None) else deadlines m a)"
    "\<And>a. tm_at (theap (es_tm s2)) a = (if a \<in> set E then expire_timer now (tm_at (theap m) a) else tm_at (theap m) a)"
    by (rule list_expired_cbs_effect [OF wf assms(2)], rule that)
  have s: "s2 = s" using e(2) assms(3) by simp
  have wf': "tm_wf (es_tm s)" using list_expired_cbs_wf [OF wf assms(2), of now] assms(3) by auto
  have mem: "a \<in> set (m_timers (es_tm s)) \<longleftrightarrow>
      (if a \<in> set E then m_recurring (tm_at (theap m) a) else a \<in> set (m_timers m))" for a
    using fun_cong [OF e(6), of a] s by (auto simp: deadlines_def split: if_splits)
  have ok: "timers_ok (es_tm s)"
    using wf' assms(1) e(7) [unfolded s] mem by (auto simp: timers_ok_def expire_timer_def)
  have at: "tm_at (alarms m) a = tm_at (theap m) a" if "a \<in> set E" for a
    using that e(1) by (simp add: tm_at_alarms)
  have "in_order (alarms m) E"
    using wf unfolding tm_wf_def e(1) in_order_def
    by (auto simp: sorted_wrt_append at tm_less_iff intro: sorted_wrt_mono_rel [rotated])
  moreover have "alarms (es_tm s) = (\<lambda>a. if a \<in> set E then (if m_recurring (tm_at (alarms m) a)
      then Some ((tm_at (alarms m) a)\<lparr>m_next := now + m_ms (tm_at (alarms m) a)\<rparr>) else None) else alarms m a)"
    using mem e(7) [unfolded s] by (auto simp: alarms_def [of "es_tm s"] fun_eq_iff at expire_timer_def alarms_def [of m])
  moreover have "a \<in> set E" if "a \<in> set (m_timers m)" "m_next (tm_at (alarms m) a) < now" for a
    using that e(1) e(5) [of a] by (auto simp: tm_at_alarms)
  moreover have "m_next (tm_at (alarms m) a) \<le> now" if "a \<in> set E" for a
    using e(4) [OF that] at [OF that] by simp
  moreover have "es_cbs s = map (\<lambda>a. tm_cb (tm_at (alarms m) a)) E"
    using e(3) s at by simp
  ultimately have "alarm_step (Call_expired now probe) (Ans_cbs (es_cbs s)) (alarms m) (alarms (es_tm s))"
    unfolding alarm_step.simps dom_alarms using e(1) by (intro exI [of _ E]) auto
  with ok show ?thesis by blast
qed

lemma make_call_refines:
  assumes "timers_ok m" and "address_free c m" and "make_call c m = Inr (ans, m')"
  shows "timers_ok m' \<and> alarm_step c ans (alarms m) (alarms m')"
proof (cases c)
  case (Call_add now a ms cb rec)
  with assms show ?thesis by (auto simp: add_refines split: prod.splits simp del: alarm_step.simps)
next
  case (Call_cancel a)
  with assms show ?thesis by (auto simp: cancel_refines split: prod.splits simp del: alarm_step.simps)
next
  case (Call_refresh now a)
  with assms show ?thesis by (auto simp: refresh_refines split: prod.splits simp del: alarm_step.simps)
next
  case (Call_reset now ms from_now a)
  with assms show ?thesis by (auto simp: reset_refines split: prod.splits simp del: alarm_step.simps)
next
  case (Call_next now)
  with assms show ?thesis by (auto simp: next_refines simp del: alarm_step.simps)
next
  case Call_any
  with assms show ?thesis by (auto simp: any_refines simp del: alarm_step.simps)
next
  case (Call_expired now probe)
  with assms show ?thesis by (auto simp: expired_refines rbind_Inr_iff simp del: alarm_step.simps)
qed

lemma make_call_total:
  assumes "timers_ok m" and "address_free c m"
  shows "\<exists>ans m'. make_call c m = Inr (ans, m')"
proof (cases c)
  case (Call_expired now probe)
  with list_expired_cbs_wf [OF timers_ok_wf [OF assms(1)], of probe now] assms(2) show ?thesis by (auto simp: rbind_Inr_iff)
qed (simp_all add: Let_def split_def)

lemma call_run_ok: "call_run m tr m' \<Longrightarrow> timers_ok m \<Longrightarrow> timers_ok m' \<and> alarm_run (alarms m) tr (alarms m')"
  by (induction rule: call_run.induct) (auto intro: alarm_run.intros dest: make_call_refines simp del: alarm_step.simps)

text \<open>
  C6 (timer_manager_refines). Every history of calls on a timer manager, from its construction on, with the answers they gave, is a history of the table
  of armed timers, and leads to the table's state: a call changes the deadline, the period and the callback of at most the
  timer it is made on, \<open>cancel\<close> and \<open>refresh\<close> answer whether the timer was armed with a callback, the time-out is that of the earliest timer, and expiry
  takes every timer whose deadline has passed and none whose deadline is to come, in order. No call fails.
\<close>

theorem timer_manager_refines:
  assumes "call_run empty_manager tr m"
  shows "alarm_run Map.empty tr (alarms m) \<and> (\<forall>c. address_free c m \<longrightarrow> (\<exists>ans m'. make_call c m = Inr (ans, m')))"
proof -
  from call_run_ok [OF assms timers_ok_empty] have r: "timers_ok m" "alarm_run Map.empty tr (alarms m)"
    by (simp_all add: alarms_empty)
  from make_call_total [OF r(1)] r(2) show ?thesis by blast
qed

theorem timer_manager_refines_witness:
  "\<exists>m :: nat timer_manager.
    call_run empty_manager
      [(Call_add 10 5 50 (Some 1) True, Ans_timer 5), (Call_reset 20 30 False 5, Ans_bool True), (Call_next 25, Ans_ms 15),
       (Call_expired 60 9, Ans_cbs [Some 1]), (Call_cancel 5, Ans_bool True), (Call_any, Ans_bool False)] m \<and>
    alarm_run Map.empty
      [(Call_add 10 5 50 (Some 1) True, Ans_timer 5), (Call_reset 20 30 False 5, Ans_bool True), (Call_next 25, Ans_ms 15),
       (Call_expired 60 9, Ans_cbs [Some 1]), (Call_cancel 5, Ans_bool True), (Call_any, Ans_bool False)] (alarms m)"
proof -
  let ?cs = "[Call_add 10 5 50 (Some 1) True, Call_reset 20 30 False 5, Call_next 25, Call_expired 60 9, Call_cancel 5, Call_any]
    :: nat timer_call list"
  let ?tr = "[(Call_add 10 5 50 (Some 1) True, Ans_timer 5), (Call_reset 20 30 False 5, Ans_bool True), (Call_next 25, Ans_ms 15),
       (Call_expired 60 9, Ans_cbs [Some 1]), (Call_cancel 5, Ans_bool True), (Call_any, Ans_bool False)] :: (nat timer_call \<times> nat timer_answer) list"
  have "(case make_calls ?cs empty_manager of None \<Rightarrow> False | Some (tr, _) \<Rightarrow> tr = ?tr)" by code_simp
  then obtain m where "make_calls ?cs empty_manager = Some (?tr, m)"
    by (cases "make_calls ?cs empty_manager") auto
  from make_calls_run [OF this] have "\<exists>m. call_run empty_manager ?tr m" by blast
  then show ?thesis using timer_manager_refines by blast
qed

end
