(* ===== verification/Fiber.thy ===== *)
theory Fiber
  imports Prelude
begin

text \<open>
  The fibers (stackful coroutines) of src/sylar/fiber.h and src/sylar/fiber.cc.

  \<open>fglobal\<close> holds what all threads share: the fiber objects by address and the two atomic counters.
  \<open>tls\<close> holds one thread's variables: \<open>t_fiber\<close> and \<open>t_threadFiber\<close> of fiber.cc, \<open>t_fiber\<close> of
  scheduler.cc (here \<open>t_main\<close>, read by \<open>Scheduler::GetMainFiber()\<close>), and, as a ghost, \<open>cpu\<close>: the
  fiber whose context the thread is executing. \<open>swapcontext\<close> saves the running context into one
  fiber and resumes another. A saved context is \<open>Fresh\<close> (made by \<open>makecontext\<close>: it will enter
  the entry function), \<open>Saved\<close> (inside the callback) or \<open>Past_end\<close> (behind the last switch of the
  entry function, where resuming runs into \<open>SYLAR_ASSERT2(false, "Should not reach here")\<close>).
  The callback itself is code of the client: between being switched in and switching out it may do
  anything, and the operations by which it can leave the processor are \<open>Yield_to_Ready\<close>,
  \<open>Yield_to_Hold\<close>, a bare \<open>swapOut\<close>, and the two ways its entry function ends.
\<close>

datatype fiber_state = INIT | HOLD | EXEC | TERM_st | READY | EXCPT

datatype entry_fun = Entry_MainFunc | Entry_Caller_MainFunc

datatype ucontext = Fresh | Saved | Past_end

record 'cb fiber =
  m_id :: u64
  m_stacksize :: u32
  m_state :: fiber_state
  m_ctx :: ucontext
  m_entry :: entry_fun
  m_stack :: bool
  fb_cb :: "'cb option"

record 'cb fglobal =
  fheap :: "nat \<Rightarrow> 'cb fiber option"
  s_fiber_id :: u64
  s_fiber_count :: u64

record tls =
  t_fiber :: "nat option"
  t_threadFiber :: "nat option"
  t_main :: "nat option"
  cpu :: "nat option"

type_synonym 'cb fenv = "tls \<times> 'cb fglobal"

definition fglobal_init :: "'cb fglobal" where
  "fglobal_init = \<lparr>fheap = Map.empty, s_fiber_id = 0, s_fiber_count = 0\<rparr>"

definition tls_init :: tls where
  "tls_init = \<lparr>t_fiber = None, t_threadFiber = None, t_main = None, cpu = None\<rparr>"

definition fiber_get :: "'cb fglobal \<Rightarrow> nat \<Rightarrow> 'cb fiber result" where
  "fiber_get g f = (case fheap g f of Some fb \<Rightarrow> Inr fb | None \<Rightarrow> Inl (Undefined ''dangling Fiber*''))"

definition fiber_set :: "nat \<Rightarrow> 'cb fiber \<Rightarrow> 'cb fglobal \<Rightarrow> 'cb fglobal" where
  "fiber_set f fb g = g\<lparr>fheap := (fheap g)(f \<mapsto> fb)\<rparr>"

definition ptr_get :: "string \<Rightarrow> nat option \<Rightarrow> nat result" where
  "ptr_get w p = (case p of Some f \<Rightarrow> Inr f | None \<Rightarrow> Inl (Null_deref w))"

section \<open>Creation and destruction\<close>

text \<open>\<open>Fiber::Fiber()\<close>, the fiber of a thread's own stack, at address \<open>a\<close>.\<close>

definition Fiber_main_new :: "nat \<Rightarrow> 'cb fenv \<Rightarrow> 'cb fenv" where
  "Fiber_main_new a = (\<lambda>(t, g).
     (t\<lparr>t_fiber := Some a, cpu := Some a\<rparr>,
      (fiber_set a \<lparr>m_id = 0, m_stacksize = 0, m_state = EXEC, m_ctx = Saved,
                    m_entry = Entry_MainFunc, m_stack = False, fb_cb = None\<rparr> g)
        \<lparr>s_fiber_count := s_fiber_count g + 1\<rparr>))"

text \<open>
  \<open>Fiber::Fiber(cb, stacksize, use_caller)\<close>. \<open>dflt\<close> is \<open>g_fiber_stack_size->getValue()\<close>; \<open>stack\<close>
  says that \<open>malloc\<close> returned a block. A \<open>size_t\<close> stack size is cut to 32 bits.
\<close>

definition Fiber_new ::
    "nat \<Rightarrow> 'cb option \<Rightarrow> u64 \<Rightarrow> bool \<Rightarrow> u32 \<Rightarrow> bool \<Rightarrow> 'cb fglobal \<Rightarrow> 'cb fglobal" where
  "Fiber_new a cb stacksize use_caller dflt stack g =
     (fiber_set a \<lparr>m_id = s_fiber_id g + 1,
                   m_stacksize = (if stacksize \<noteq> 0 then ucast stacksize else dflt),
                   m_state = INIT, m_ctx = Fresh,
                   m_entry = (if use_caller then Entry_Caller_MainFunc else Entry_MainFunc),
                   m_stack = stack, fb_cb = cb\<rparr> g)
       \<lparr>s_fiber_id := s_fiber_id g + 1, s_fiber_count := s_fiber_count g + 1\<rparr>"

definition Fiber_delete :: "nat \<Rightarrow> 'cb fenv \<Rightarrow> 'cb fenv result" where
  "Fiber_delete f = (\<lambda>(t, g).
     rbind (fiber_get g f) (\<lambda>fb.
       let g' = g\<lparr>fheap := (fheap g)(f := None), s_fiber_count := s_fiber_count g - 1\<rparr>
       in if m_stack fb then
            rbind (SYLAR_ASSERT (m_state fb \<in> {INIT, TERM_st, EXCPT}) ''INIT, TERM or EXCPT'')
              (\<lambda>_. Inr (t, g'))
          else
            rbind (SYLAR_ASSERT (fb_cb fb = None) ''!m_cb'') (\<lambda>_.
            rbind (SYLAR_ASSERT (m_state fb = EXEC) ''m_state == EXEC'') (\<lambda>_.
              Inr (if t_fiber t = Some f then t\<lparr>t_fiber := None\<rparr> else t, g')))))"

definition Fiber_reset :: "nat \<Rightarrow> 'cb option \<Rightarrow> 'cb fglobal \<Rightarrow> 'cb fglobal result" where
  "Fiber_reset f cb g =
     rbind (fiber_get g f) (\<lambda>fb.
     rbind (SYLAR_ASSERT (m_stack fb) ''m_stack'') (\<lambda>_.
     rbind (SYLAR_ASSERT (m_state fb \<in> {INIT, TERM_st, EXCPT}) ''INIT, TERM or EXCPT'') (\<lambda>_.
       Inr (fiber_set f (fb\<lparr>fb_cb := cb, m_ctx := Fresh, m_entry := Entry_MainFunc,
                           m_state := INIT\<rparr>) g))))"

section \<open>Switching\<close>

text \<open>
  \<open>swapcontext(from, to)\<close>: \<open>c\<close> is where the running context stands when it is saved into
  \<open>from\<close>.
\<close>

definition swapcontext :: "ucontext \<Rightarrow> nat \<Rightarrow> nat \<Rightarrow> 'cb fenv \<Rightarrow> 'cb fenv result" where
  "swapcontext c from to = (\<lambda>(t, g).
     rbind (fiber_get g from) (\<lambda>a.
       let g1 = fiber_set from (a\<lparr>m_ctx := c\<rparr>) g
       in rbind (fiber_get g1 to) (\<lambda>b.
            if m_ctx b = Past_end then Inl (Assertion ''Should not reach here'')
            else Inr (t\<lparr>cpu := Some to\<rparr>, g1))))"

definition Fiber_SetThis :: "nat option \<Rightarrow> tls \<Rightarrow> tls" where
  "Fiber_SetThis f t = t\<lparr>t_fiber := f\<rparr>"

definition Fiber_setState :: "nat \<Rightarrow> fiber_state \<Rightarrow> 'cb fglobal \<Rightarrow> 'cb fglobal result" where
  "Fiber_setState f st g = rbind (fiber_get g f) (\<lambda>fb. Inr (fiber_set f (fb\<lparr>m_state := st\<rparr>) g))"

definition Fiber_switch_in :: "string \<Rightarrow> nat option \<Rightarrow> nat \<Rightarrow> 'cb fenv \<Rightarrow> 'cb fenv result" where
  "Fiber_switch_in w out f = (\<lambda>(t, g).
     let t1 = Fiber_SetThis (Some f) t
     in rbind (fiber_get g f) (\<lambda>fb.
        rbind (SYLAR_ASSERT (m_state fb \<noteq> EXEC) ''m_state != EXEC'') (\<lambda>_.
        rbind (ptr_get w out) (\<lambda>m.
          swapcontext Saved m f (t1, fiber_set f (fb\<lparr>m_state := EXEC\<rparr>) g)))))"

definition Fiber_call :: "nat \<Rightarrow> 'cb fenv \<Rightarrow> 'cb fenv result" where
  "Fiber_call f = (\<lambda>(t, g). Fiber_switch_in ''t_threadFiber'' (t_threadFiber t) f (t, g))"

definition Fiber_swapIn :: "nat \<Rightarrow> 'cb fenv \<Rightarrow> 'cb fenv result" where
  "Fiber_swapIn f = (\<lambda>(t, g). Fiber_switch_in ''Scheduler::GetMainFiber()'' (t_main t) f (t, g))"

definition Fiber_swapOut_at :: "ucontext \<Rightarrow> nat \<Rightarrow> 'cb fenv \<Rightarrow> 'cb fenv result" where
  "Fiber_swapOut_at c f = (\<lambda>(t, g).
     rbind (ptr_get ''Scheduler::GetMainFiber()'' (t_main t)) (\<lambda>m.
       swapcontext c f m (Fiber_SetThis (t_main t) t, g)))"

definition Fiber_swapOut :: "nat \<Rightarrow> 'cb fenv \<Rightarrow> 'cb fenv result" where
  "Fiber_swapOut f = Fiber_swapOut_at Saved f"

definition Fiber_back_at :: "ucontext \<Rightarrow> nat \<Rightarrow> 'cb fenv \<Rightarrow> 'cb fenv result" where
  "Fiber_back_at c f = (\<lambda>(t, g).
     rbind (ptr_get ''t_threadFiber'' (t_threadFiber t)) (\<lambda>m.
       swapcontext c f m (Fiber_SetThis (t_threadFiber t) t, g)))"

text \<open>\<open>Fiber::GetThis()\<close>: the running fiber, or a new main fiber (at address \<open>a\<close>).\<close>

definition Fiber_GetThis :: "nat \<Rightarrow> 'cb fenv \<Rightarrow> nat \<times> 'cb fenv" where
  "Fiber_GetThis a = (\<lambda>(t, g).
     (case t_fiber t of
        Some f \<Rightarrow> (f, (t, g))
      | None \<Rightarrow> (let (t1, g1) = Fiber_main_new a (t, g)
                in (a, (t1\<lparr>t_threadFiber := Some a\<rparr>, g1)))))"

text \<open>
  \<open>Yield_to_Ready\<close> and \<open>Yield_to_Hold\<close> set the state of the running fiber and then switch away; here both happen in one step. A fiber that
  is found by another thread in between has its new state but its context is not saved; theory \<open>Wakeup\<close> has the consequence (\<open>hold_before_saved\<close>).
\<close>

definition Fiber_yield :: "fiber_state \<Rightarrow> nat \<Rightarrow> 'cb fenv \<Rightarrow> 'cb fenv result" where
  "Fiber_yield st a e =
     (let (cur, (t, g)) = Fiber_GetThis a e
      in rbind (Fiber_setState cur st g) (\<lambda>g1. Fiber_swapOut cur (t, g1)))"

definition Fiber_Yield_to_Ready :: "nat \<Rightarrow> 'cb fenv \<Rightarrow> 'cb fenv result" where
  "Fiber_Yield_to_Ready a e = Fiber_yield READY a e"

definition Fiber_Yield_to_Hold :: "nat \<Rightarrow> 'cb fenv \<Rightarrow> 'cb fenv result" where
  "Fiber_Yield_to_Hold a e = Fiber_yield HOLD a e"

text \<open>
  The end of \<open>Fiber::MainFunc\<close> and \<open>Fiber::Caller_MainFunc\<close>: the callback returned or threw
  (calling an empty \<open>std::function\<close> throws), the state is set, and the fiber leaves for good.
\<close>

datatype body_exit = Body_returns | Body_throws

definition body_end :: "body_exit \<Rightarrow> 'cb fiber \<Rightarrow> 'cb fiber" where
  "body_end r fb =
     (if r = Body_returns \<and> fb_cb fb \<noteq> None then fb\<lparr>fb_cb := None, m_state := TERM_st\<rparr>
      else fb\<lparr>m_state := EXCPT\<rparr>)"

definition Fiber_MainFunc_exit :: "body_exit \<Rightarrow> 'cb fenv \<Rightarrow> 'cb fenv result" where
  "Fiber_MainFunc_exit r = (\<lambda>(t, g).
     rbind (ptr_get ''GetThis()'' (t_fiber t)) (\<lambda>cur.
     rbind (fiber_get g cur) (\<lambda>fb.
       Fiber_swapOut_at Past_end cur (t, fiber_set cur (body_end r fb) g))))"

definition Fiber_Caller_MainFunc_exit :: "body_exit \<Rightarrow> 'cb fenv \<Rightarrow> 'cb fenv result" where
  "Fiber_Caller_MainFunc_exit r = (\<lambda>(t, g).
     rbind (ptr_get ''GetThis()'' (t_fiber t)) (\<lambda>cur.
     rbind (fiber_get g cur) (\<lambda>fb.
       Fiber_back_at Past_end cur (t, fiber_set cur (body_end r fb) g))))"

definition Fiber_Total_Fibers :: "'cb fglobal \<Rightarrow> u64" where
  "Fiber_Total_Fibers g = s_fiber_count g"

definition Fiber_GetFiberId :: "'cb fenv \<Rightarrow> u64 result" where
  "Fiber_GetFiberId = (\<lambda>(t, g).
     case t_fiber t of None \<Rightarrow> Inr 0 | Some f \<Rightarrow> rbind (fiber_get g f) (\<lambda>fb. Inr (m_id fb)))"


text \<open>The ways a fiber that was switched in leaves the processor, as one operation.\<close>

datatype leave = Leave_Ready | Leave_Hold | Leave_bare | Leave_end body_exit

definition Fiber_leave :: "leave \<Rightarrow> nat \<Rightarrow> 'cb fenv \<Rightarrow> 'cb fenv result" where
  "Fiber_leave l f e =
     (case l of
        Leave_Ready \<Rightarrow> Fiber_Yield_to_Ready 0 e
      | Leave_Hold \<Rightarrow> Fiber_Yield_to_Hold 0 e
      | Leave_bare \<Rightarrow> Fiber_swapOut f e
      | Leave_end r \<Rightarrow>
          rbind (fiber_get (snd e) f) (\<lambda>fb.
            if m_entry fb = Entry_MainFunc then Fiber_MainFunc_exit r e
            else Fiber_Caller_MainFunc_exit r e))"

definition leave_fiber :: "leave \<Rightarrow> 'cb fiber \<Rightarrow> 'cb fiber" where
  "leave_fiber l fb =
     (case l of
        Leave_Ready \<Rightarrow> fb\<lparr>m_state := READY, m_ctx := Saved\<rparr>
      | Leave_Hold \<Rightarrow> fb\<lparr>m_state := HOLD, m_ctx := Saved\<rparr>
      | Leave_bare \<Rightarrow> fb\<lparr>m_ctx := Saved\<rparr>
      | Leave_end r \<Rightarrow> (body_end r fb)\<lparr>m_ctx := Past_end\<rparr>)"

section \<open>What a fiber's state says about its context\<close>

text \<open>
  \<open>run\<close> is the set of fibers on some thread's processor and \<open>M\<close> the set of fibers that are a thread's
  main fiber or scheduler fiber. Both kinds are in state \<open>EXEC\<close>. Off the processor, the state of a
  fiber tells what resuming it does: \<open>INIT\<close> enters its entry function, \<open>TERM\<close> and \<open>EXCPT\<close> are past
  its end, anything else continues inside the callback.
\<close>

definition ctx_ok :: "'cb fiber \<Rightarrow> bool" where
  "ctx_ok fb \<longleftrightarrow>
     (m_ctx fb = Fresh \<longleftrightarrow> m_state fb = INIT) \<and>
     (m_ctx fb = Past_end \<longleftrightarrow> m_state fb \<in> {TERM_st, EXCPT})"

definition fibers_ok :: "nat set \<Rightarrow> nat set \<Rightarrow> 'cb fglobal \<Rightarrow> bool" where
  "fibers_ok run M g \<longleftrightarrow>
     (\<forall>f. f \<in> run \<or> f \<in> M \<longrightarrow> (\<exists>fb. fheap g f = Some fb \<and> m_state fb = EXEC)) \<and>
     (\<forall>f fb. fheap g f = Some fb \<and> f \<notin> run \<longrightarrow> ctx_ok fb)"

lemma fiber_get_set [simp]:
  "fiber_get (fiber_set f fb g) f' = (if f' = f then Inr fb else fiber_get g f')"
  by (simp add: fiber_get_def fiber_set_def)

lemma fheap_fiber_set [simp]: "fheap (fiber_set f fb g) = (fheap g)(f \<mapsto> fb)"
  by (simp add: fiber_set_def)

lemma fiber_set_twice [simp]: "fiber_set f fb (fiber_set f fb' g) = fiber_set f fb g"
  by (simp add: fiber_set_def)

lemma fiber_get_Inr_iff: "fiber_get g f = Inr fb \<longleftrightarrow> fheap g f = Some fb"
  by (auto simp: fiber_get_def split: option.splits)

lemma fiber_get_Some [simp]: "fheap g f = Some fb \<Longrightarrow> fiber_get g f = Inr fb"
  by (simp add: fiber_get_def)

lemma ptr_get_Some [simp]: "ptr_get w (Some f) = Inr f"
  by (simp add: ptr_get_def)

lemma ptr_get_None [simp]: "ptr_get w None = Inl (Null_deref w)"
  by (simp add: ptr_get_def)

lemmas switch_defs =
  Fiber_switch_in_def Fiber_swapOut_at_def Fiber_back_at_def
  swapcontext_def Fiber_SetThis_def Let_def

lemma fibers_ok_alive:
  "fibers_ok run M g \<Longrightarrow> f \<in> run \<or> f \<in> M \<Longrightarrow> \<exists>fb. fheap g f = Some fb \<and> m_state fb = EXEC"
  unfolding fibers_ok_def by blast

lemma fibers_ok_exec:
  "fibers_ok run M g \<Longrightarrow> f \<in> run \<or> f \<in> M \<Longrightarrow> fheap g f = Some fb \<Longrightarrow> m_state fb = EXEC"
  by (frule (1) fibers_ok_alive) auto

lemma fibers_ok_off:
  "fibers_ok run M g \<Longrightarrow> f \<notin> run \<Longrightarrow> fheap g f = Some fb \<Longrightarrow> ctx_ok fb"
  unfolding fibers_ok_def by blast

lemma fibers_ok_set:
  "fibers_ok run M g \<Longrightarrow> f \<notin> run \<union> M \<Longrightarrow> ctx_ok fb \<Longrightarrow> fibers_ok run M (fiber_set f fb g)"
  by (auto simp: fibers_ok_def)

subsection \<open>Switching in\<close>

lemma switch_in_eq:
  assumes "fheap g f = Some fb" and "fheap g m = Some mb" and "f \<noteq> m"
  shows "Fiber_switch_in w (Some m) f (t, g) =
    (if m_state fb = EXEC then Inl (Assertion ''m_state != EXEC'')
     else if m_ctx fb = Past_end then Inl (Assertion ''Should not reach here'')
     else Inr (t\<lparr>t_fiber := Some f, cpu := Some f\<rparr>,
               fiber_set m (mb\<lparr>m_ctx := Saved\<rparr>) (fiber_set f (fb\<lparr>m_state := EXEC\<rparr>) g)))"
  using assms by (simp add: switch_defs SYLAR_ASSERT_def)

lemma fibers_ok_switch_in:
  assumes ok: "fibers_ok run M g" and f: "fheap g f = Some fb" "f \<notin> run" "f \<notin> M"
    and m: "fheap g m = Some mb" "m \<in> run" "m \<in> M"
  shows "fibers_ok (insert f (run - {m})) M
    (fiber_set m (mb\<lparr>m_ctx := Saved\<rparr>) (fiber_set f (fb\<lparr>m_state := EXEC\<rparr>) g))"
proof -
  have "m \<noteq> f" "m_state mb = EXEC"
    using fibers_ok_exec [OF ok, of m mb] m f by auto
  with assms show ?thesis
    by (auto simp: fibers_ok_def ctx_ok_def)
qed

subsection \<open>Switching out\<close>

lemma leave_eq:
  assumes f: "fheap g f = Some fb" and m: "fheap g m = Some mb" "f \<noteq> m" "m_ctx mb \<noteq> Past_end"
    and t: "t_fiber t = Some f"
    and out: "(case l of
        Leave_end r \<Rightarrow> (if m_entry fb = Entry_MainFunc then t_main t else t_threadFiber t)
      | _ \<Rightarrow> t_main t) = Some m"
  shows "Fiber_leave l f (t, g) =
    Inr (t\<lparr>t_fiber := Some m, cpu := Some m\<rparr>, fiber_set f (leave_fiber l fb) g)"
  using assms
  by (auto simp: Fiber_leave_def leave_fiber_def Fiber_Yield_to_Ready_def Fiber_Yield_to_Hold_def
      Fiber_yield_def Fiber_GetThis_def Fiber_setState_def Fiber_swapOut_def
      Fiber_MainFunc_exit_def Fiber_Caller_MainFunc_exit_def switch_defs split: leave.splits)

lemma leave_fiber_ctx_ok: "m_state fb = EXEC \<Longrightarrow> ctx_ok (leave_fiber l fb)"
  by (auto simp: leave_fiber_def ctx_ok_def body_end_def split: leave.splits)

lemma fibers_ok_leave:
  assumes ok: "fibers_ok run M g" and f: "fheap g f = Some fb" "f \<in> run" "f \<notin> M"
    and m: "m \<in> M"
  shows "fibers_ok (insert m (run - {f})) M (fiber_set f (leave_fiber l fb) g)"
proof -
  have "m \<noteq> f" using f m by auto
  moreover have "ctx_ok (leave_fiber l fb)"
    using fibers_ok_exec [OF ok _ f(1)] f(2) by (intro leave_fiber_ctx_ok) simp
  ultimately show ?thesis
    using ok f m by (auto simp: fibers_ok_def)
qed

lemma fibers_ok_main_ctx:
  assumes "fibers_ok run M g" "m \<in> M" "m \<notin> run"
  obtains mb where "fheap g m = Some mb" "m_state mb = EXEC" "m_ctx mb = Saved"
proof -
  obtain mb where mb: "fheap g m = Some mb" "m_state mb = EXEC"
    using fibers_ok_alive [OF assms(1)] assms(2) by blast
  moreover have "m_ctx mb = Saved"
    using fibers_ok_off [OF assms(1,3) mb(1)] mb(2) by (cases "m_ctx mb") (auto simp: ctx_ok_def)
  ultimately show ?thesis by (rule that)
qed

lemma fibers_ok_Fiber_new:
  "fibers_ok run M g \<Longrightarrow> a \<notin> run \<union> M \<Longrightarrow> fibers_ok run M (Fiber_new a cb sz uc dflt st g)"
  by (auto simp: fibers_ok_def Fiber_new_def fiber_set_def ctx_ok_def)

lemma fibers_ok_Fiber_reset:
  "fibers_ok run M g \<Longrightarrow> f \<notin> run \<union> M \<Longrightarrow> Fiber_reset f cb g = Inr g' \<Longrightarrow> fibers_ok run M g'"
  by (auto simp: Fiber_reset_def ctx_ok_def result_simps intro!: fibers_ok_set)


section \<open>Counting and naming fibers\<close>

definition count_ok :: "'cb fglobal \<Rightarrow> bool" where
  "count_ok g \<longleftrightarrow> finite (dom (fheap g)) \<and> s_fiber_count g = of_nat (card (dom (fheap g)))"

definition ids_ok :: "'cb fglobal \<Rightarrow> bool" where
  "ids_ok g \<longleftrightarrow>
     (\<forall>f fb. fheap g f = Some fb \<longrightarrow> m_id fb \<le> s_fiber_id g) \<and>
     (\<forall>f fb f' fb'. fheap g f = Some fb \<and> fheap g f' = Some fb' \<and> m_id fb = m_id fb' \<and>
        m_id fb \<noteq> 0 \<longrightarrow> f = f')"

lemma count_ok_set: "count_ok g \<Longrightarrow> fheap g f \<noteq> None \<Longrightarrow> count_ok (fiber_set f fb g)"
  by (auto simp: count_ok_def fiber_set_def insert_absorb domIff)

lemma count_ok_Fiber_new:
  "count_ok g \<Longrightarrow> fheap g a = None \<Longrightarrow> count_ok (Fiber_new a cb sz uc dflt st g)"
  by (auto simp: count_ok_def Fiber_new_def fiber_set_def domIff card_insert_if)

lemma count_ok_Fiber_main_new:
  "count_ok g \<Longrightarrow> fheap g a = None \<Longrightarrow> count_ok (snd (Fiber_main_new a (t, g)))"
  by (auto simp: count_ok_def Fiber_main_new_def fiber_set_def domIff card_insert_if)

lemma Fiber_delete_Inr:
  assumes "Fiber_delete f (t, g) = Inr e"
  shows "f \<in> dom (fheap g)"
    and "snd e = g\<lparr>fheap := (fheap g)(f := None), s_fiber_count := s_fiber_count g - 1\<rparr>"
proof -
  show f: "f \<in> dom (fheap g)"
    using assms by (cases "fheap g f") (simp_all add: Fiber_delete_def fiber_get_def domIff)
  then obtain fb where "fheap g f = Some fb" by auto
  then show "snd e = g\<lparr>fheap := (fheap g)(f := None), s_fiber_count := s_fiber_count g - 1\<rparr>"
    using assms
    by (simp only: Fiber_delete_def prod.case fiber_get_Some rbind.simps Let_def SYLAR_ASSERT_def
        split: if_splits) auto
qed

lemma count_ok_Fiber_delete:
  assumes "count_ok g" and "Fiber_delete f (t, g) = Inr e"
  shows "count_ok (snd e)"
proof -
  note d = Fiber_delete_Inr [OF assms(2)]
  have "s_fiber_count g = 1 + of_nat (card (dom (fheap g) - {f}))"
    using d(1) assms(1) card.remove [of "dom (fheap g)" f] unfolding count_ok_def
    by (metis of_nat_Suc)
  then show ?thesis
    using assms(1) unfolding d(2) count_ok_def by simp
qed

lemma swapcontext_dom:
  "swapcontext c from to (t, g) = Inr (t', g') \<Longrightarrow> dom (fheap g') = dom (fheap g) \<and>
     s_fiber_count g' = s_fiber_count g \<and> s_fiber_id g' = s_fiber_id g"
  by (auto simp: swapcontext_def Let_def result_simps fiber_get_Inr_iff fiber_set_def
      split: if_splits)

lemma ids_ok_Fiber_new:
  assumes "ids_ok g" and "s_fiber_id g \<noteq> NOT 0"
  shows "ids_ok (Fiber_new a cb sz uc dflt st g)"
proof -
  have lt: "s_fiber_id g < s_fiber_id g + 1"
    using assms(2) by (rule word_less_plus_one)
  then have "m_id fb < s_fiber_id g + 1" if "fheap g f = Some fb" for f fb
    using assms(1) that by (auto simp: ids_ok_def intro: le_less_trans)
  then show ?thesis
    using assms(1) lt
    by (auto simp: ids_ok_def Fiber_new_def fiber_set_def less_imp_le split: if_splits)
      (metis less_irrefl)+
qed

section \<open>Properties\<close>

text \<open>
  Theorem (fiber_swapIn_outcome). Switching a fiber in, from the scheduler's fiber of the thread, succeeds
  exactly when the fiber is not running and has not ended: a fiber in \<open>EXEC\<close> fails the assertion of
  \<open>swapIn\<close>, and one in \<open>TERM\<close> or \<open>EXCPT\<close> resumes behind the end of \<open>MainFunc\<close> and aborts there. On
  success the thread runs the fiber, \<open>GetThis()\<close> names it, and the relation between states and
  contexts still holds.
\<close>

theorem fiber_swapIn_outcome:
  assumes "fibers_ok run M g" and "t_main t = Some m" and "m \<in> run" and "m \<in> M"
    and "fheap g f = Some fb" and "f \<notin> run" and "f \<notin> M"
  shows "(m_state fb \<in> {INIT, HOLD, READY} \<longrightarrow>
      (\<exists>g'. Fiber_swapIn f (t, g) = Inr (t\<lparr>t_fiber := Some f, cpu := Some f\<rparr>, g') \<and>
        fibers_ok (insert f (run - {m})) M g' \<and>
        fheap g' f = Some (fb\<lparr>m_state := EXEC\<rparr>) \<and>
        (\<forall>f'. f' \<noteq> f \<and> f' \<noteq> m \<longrightarrow> fheap g' f' = fheap g f'))) \<and>
    (m_state fb = EXEC \<longrightarrow> Fiber_swapIn f (t, g) = Inl (Assertion ''m_state != EXEC'')) \<and>
    (m_state fb \<in> {TERM_st, EXCPT} \<longrightarrow>
      Fiber_swapIn f (t, g) = Inl (Assertion ''Should not reach here''))"
proof -
  obtain mb where m: "fheap g m = Some mb"
    using fibers_ok_alive [OF assms(1)] assms(3) by blast
  have "f \<noteq> m" using assms by auto
  moreover have "ctx_ok fb" using fibers_ok_off [OF assms(1,6,5)] .
  ultimately show ?thesis
    using switch_in_eq [OF assms(5) m] fibers_ok_switch_in [OF assms(1,5,6,7) m assms(3,4)] assms(2)
    by (auto simp: Fiber_swapIn_def ctx_ok_def)
qed

text \<open>A shared world for the witnesses: main fiber 1 on the processor, fibers 2 (new) and 3 (ended).\<close>

definition demo_fibers :: "nat fglobal" where
  "demo_fibers =
     \<lparr>fheap = [1 \<mapsto> \<lparr>m_id = 0, m_stacksize = 0, m_state = EXEC, m_ctx = Saved,
                     m_entry = Entry_MainFunc, m_stack = False, fb_cb = None\<rparr>,
               2 \<mapsto> \<lparr>m_id = 1, m_stacksize = 1024, m_state = INIT, m_ctx = Fresh,
                     m_entry = Entry_MainFunc, m_stack = True, fb_cb = Some 8\<rparr>,
               3 \<mapsto> \<lparr>m_id = 2, m_stacksize = 1024, m_state = TERM_st, m_ctx = Past_end,
                     m_entry = Entry_MainFunc, m_stack = True, fb_cb = None\<rparr>],
      s_fiber_id = 2, s_fiber_count = 3\<rparr>"

definition demo_tls :: tls where
  "demo_tls = \<lparr>t_fiber = Some 1, t_threadFiber = Some 1, t_main = Some 1, cpu = Some 1\<rparr>"

lemma demo_fibers_ok: "fibers_ok {1} {1} demo_fibers"
  by (auto simp: fibers_ok_def ctx_ok_def demo_fibers_def split: if_splits)

theorem fiber_swapIn_outcome_witness:
  "fibers_ok {1} {1} demo_fibers \<and>
   (\<exists>g'. Fiber_swapIn 2 (demo_tls, demo_fibers) =
      Inr (demo_tls\<lparr>t_fiber := Some 2, cpu := Some 2\<rparr>, g')) \<and>
   Fiber_swapIn 3 (demo_tls, demo_fibers) = Inl (Assertion ''Should not reach here'')"
  using demo_fibers_ok
    fiber_swapIn_outcome [OF demo_fibers_ok, of demo_tls 1 2]
    fiber_swapIn_outcome [OF demo_fibers_ok, of demo_tls 1 3]
  by (auto simp: demo_tls_def demo_fibers_def)

text \<open>
  C15 (fiber_leave_returns). Whatever the callback did while it ran, when it leaves the processor by
  \<open>Yield_to_Ready\<close>, \<open>Yield_to_Hold\<close>, a bare \<open>swapOut\<close> or the end of its entry function, the
  thread is back in the scheduler's fiber (for a fiber made with \<open>use_caller\<close>: in the thread's main
  fiber), \<open>GetThis()\<close> names that fiber again, the fiber's state is the one its way of leaving
  stands for, and no other fiber changed.
\<close>

theorem fiber_leave_returns:
  assumes "fibers_ok run M g" and "fheap g f = Some fb" and "f \<in> run" and "f \<notin> M"
    and "t_fiber t = Some f" and "t_main t = Some m" and "m \<in> M" and "m \<notin> run"
    and "m_entry fb = Entry_MainFunc"
  shows "\<exists>g'. Fiber_leave l f (t, g) = Inr (t\<lparr>t_fiber := Some m, cpu := Some m\<rparr>, g') \<and>
    fibers_ok (insert m (run - {f})) M g' \<and>
    (\<forall>f'. f' \<noteq> f \<longrightarrow> fheap g' f' = fheap g f') \<and>
    (\<exists>fb'. fheap g' f = Some fb' \<and>
       m_state fb' = (case l of Leave_Ready \<Rightarrow> READY | Leave_Hold \<Rightarrow> HOLD | Leave_bare \<Rightarrow> EXEC
         | Leave_end r \<Rightarrow> (if r = Body_returns \<and> fb_cb fb \<noteq> None then TERM_st else EXCPT)))"
proof -
  obtain mb where mb: "fheap g m = Some mb" "m_ctx mb = Saved"
    using fibers_ok_main_ctx [OF assms(1,7,8)] by blast
  have "f \<noteq> m" using assms by auto
  then have "Fiber_leave l f (t, g) =
      Inr (t\<lparr>t_fiber := Some m, cpu := Some m\<rparr>, fiber_set f (leave_fiber l fb) g)"
    using assms mb by (intro leave_eq [of _ _ _ _ mb]) (auto split: leave.splits)
  moreover have "m_state fb = EXEC"
    using fibers_ok_exec [OF assms(1) _ assms(2)] assms(3) by simp
  ultimately show ?thesis
    using fibers_ok_leave [OF assms(1-4,7), of l]
    by (auto simp: leave_fiber_def body_end_def split: leave.splits)
qed

theorem fiber_leave_returns_witness:
  "\<exists>t g t' g'. Fiber_swapIn 2 (demo_tls, demo_fibers) = Inr (t, g) \<and>
     Fiber_leave (Leave_end Body_returns) 2 (t, g) = Inr (t', g') \<and> cpu t' = Some 1 \<and>
     map_option m_state (fheap g' 2) = Some TERM_st"
proof -
  let ?g = "fiber_set 2 ((the (fheap demo_fibers 2))\<lparr>m_state := EXEC\<rparr>) demo_fibers"
  have e: "Fiber_swapIn 2 (demo_tls, demo_fibers) =
      Inr (demo_tls\<lparr>t_fiber := Some 2, cpu := Some 2\<rparr>, ?g)"
    by (simp add: Fiber_swapIn_def switch_defs demo_tls_def demo_fibers_def fiber_get_def
        fiber_set_def fun_upd_twist)
  have "fibers_ok {2} {1} ?g"
    by (auto simp: fibers_ok_def ctx_ok_def demo_fibers_def split: if_splits)
  from fiber_leave_returns [OF this, of 2 _ "demo_tls\<lparr>t_fiber := Some 2, cpu := Some 2\<rparr>" 1
      "Leave_end Body_returns"] e
  show ?thesis by (fastforce simp: demo_fibers_def demo_tls_def)
qed


lemma switch_in_dom:
  assumes "Fiber_switch_in w out f (t, g) = Inr e"
  shows "dom (fheap (snd e)) = dom (fheap g)" and "s_fiber_count (snd e) = s_fiber_count g"
proof -
  obtain fb m where f: "fheap g f = Some fb"
    and e: "swapcontext Saved m f
      (Fiber_SetThis (Some f) t, fiber_set f (fb\<lparr>m_state := EXEC\<rparr>) g) = Inr e"
    using assms
    by (cases "fheap g f"; cases out)
      (simp_all add: Fiber_switch_in_def Let_def fiber_get_def SYLAR_ASSERT_def split: if_splits)
  obtain t' g' where e': "e = (t', g')" by (cases e)
  from swapcontext_dom [OF e [unfolded e']] f e'
  show "dom (fheap (snd e)) = dom (fheap g)" and "s_fiber_count (snd e) = s_fiber_count g"
    by (auto simp: fiber_set_def)
qed

text \<open>
  Theorem (fiber_count_invariant). \<open>Fiber::Total_Fibers()\<close> is the number of live fiber objects: the
  constructors and the destructor keep the counter equal to it (modulo \<open>2^64\<close>), and switching and
  \<open>reset\<close> leave both unchanged.
\<close>

theorem fiber_count_invariant:
  assumes "count_ok g"
  shows "(fheap g a = None \<longrightarrow> count_ok (Fiber_new a cb sz uc dflt st g)) \<and>
    (fheap g a = None \<longrightarrow> count_ok (snd (Fiber_main_new a (t, g)))) \<and>
    (\<forall>e. Fiber_delete f (t, g) = Inr e \<longrightarrow> count_ok (snd e)) \<and>
    (\<forall>g'. Fiber_reset f cb g = Inr g' \<longrightarrow> count_ok g') \<and>
    (\<forall>e. Fiber_swapIn f (t, g) = Inr e \<longrightarrow> count_ok (snd e)) \<and>
    Fiber_Total_Fibers g = of_nat (card (dom (fheap g)))"
proof -
  have "count_ok g'" if "Fiber_reset f cb g = Inr g'" for g'
    using that assms
    by (cases "fheap g f")
      (auto simp: Fiber_reset_def fiber_get_def SYLAR_ASSERT_def split: if_splits
        intro!: count_ok_set)
  moreover have "count_ok (snd e)" if "Fiber_swapIn f (t, g) = Inr e" for e
    using switch_in_dom [of _ "t_main t" f t g e] that assms
    by (simp add: Fiber_swapIn_def count_ok_def)
  ultimately show ?thesis
    using assms count_ok_Fiber_new [OF assms] count_ok_Fiber_main_new [OF assms]
      count_ok_Fiber_delete [OF assms]
    by (simp add: Fiber_Total_Fibers_def count_ok_def [of g])
qed

theorem fiber_count_invariant_witness:
  "count_ok demo_fibers \<and> count_ok (Fiber_new 4 (Some 9) 0 False 1024 True demo_fibers)"
proof -
  have "count_ok demo_fibers"
    by (simp add: count_ok_def demo_fibers_def)
  then show ?thesis
    using fiber_count_invariant [of demo_fibers 4 "Some 9" 0 False 1024 True]
    by (simp add: demo_fibers_def)
qed

text \<open>
  Theorem (fiber_ids_fresh). As long as the 64-bit counter has not wrapped, the identifier of a new fiber is
  nonzero and differs from the identifier of every fiber created before; main fibers carry 0.
\<close>

theorem fiber_ids_fresh:
  assumes "ids_ok g" and "s_fiber_id g \<noteq> NOT 0"
  shows "ids_ok (Fiber_new a cb sz uc dflt st g) \<and>
    (\<exists>fb. fheap (Fiber_new a cb sz uc dflt st g) a = Some fb \<and> m_id fb \<noteq> 0 \<and>
       (\<forall>f fb'. fheap g f = Some fb' \<longrightarrow> m_id fb' < m_id fb))"
proof -
  have lt: "s_fiber_id g < s_fiber_id g + 1"
    using assms(2) by (rule word_less_plus_one)
  then have "\<forall>f fb'. fheap g f = Some fb' \<longrightarrow> m_id fb' < s_fiber_id g + 1"
    using assms(1) by (auto simp: ids_ok_def intro: le_less_trans)
  moreover have "s_fiber_id g + 1 \<noteq> 0"
    using lt by auto
  ultimately show ?thesis
    using ids_ok_Fiber_new [OF assms, of a cb sz uc dflt st] by (simp add: Fiber_new_def)
qed

theorem fiber_ids_fresh_witness:
  "ids_ok demo_fibers \<and> ids_ok (Fiber_new 4 (Some 9) 0 False 1024 True demo_fibers)"
proof -
  have "ids_ok demo_fibers"
    by (auto simp: ids_ok_def demo_fibers_def split: if_splits)
  moreover have "s_fiber_id demo_fibers \<noteq> NOT 0"
    by (simp add: demo_fibers_def)
  ultimately show ?thesis
    using fiber_ids_fresh by blast
qed

text \<open>
  Theorem (fiber_reset_outcome). \<open>Fiber::reset\<close> accepts exactly the fibers that own a stack and are in \<open>INIT\<close>,
  \<open>TERM\<close> or \<open>EXCPT\<close>, and aborts on any other; an accepted fiber is new again: it will enter \<open>MainFunc\<close>
  with the given callback (also a fiber that was made for \<open>Caller_MainFunc\<close>).
\<close>

theorem fiber_reset_outcome:
  assumes "fheap g f = Some fb"
  shows "(m_stack fb \<and> m_state fb \<in> {INIT, TERM_st, EXCPT} \<longrightarrow>
      (\<exists>g'. Fiber_reset f cb g = Inr g' \<and>
        fheap g' = (fheap g)(f \<mapsto> fb\<lparr>fb_cb := cb, m_ctx := Fresh, m_entry := Entry_MainFunc,
                                    m_state := INIT\<rparr>))) \<and>
    (\<not> (m_stack fb \<and> m_state fb \<in> {INIT, TERM_st, EXCPT}) \<longrightarrow>
      (\<exists>w. Fiber_reset f cb g = Inl (Assertion w)))"
  using assms by (auto simp: Fiber_reset_def SYLAR_ASSERT_def)

theorem fiber_reset_outcome_witness:
  "\<exists>g'. Fiber_reset 3 (Some 4) demo_fibers = Inr g' \<and> map_option m_state (fheap g' 3) = Some INIT"
  using fiber_reset_outcome [of demo_fibers 3 _ "Some 4"]
  by (fastforce simp: demo_fibers_def)

end
