(* ===== verification/Scheduler.thy ===== *)
theory Scheduler
  imports Fiber "HOL-Library.Multiset"
begin

text \<open>
  The scheduler of src/sylar/scheduler.h and src/sylar/scheduler.cc: the task queue, the main loop
  \<open>run()\<close> that every worker thread executes, and starting and stopping.

  The shared state is a \<open>sched\<close> record next to the fibers' \<open>fglobal\<close>. A worker is a thread inside
  \<open>run()\<close>; its record holds the locals of \<open>run()\<close> and a program counter. One iteration of the loop is
  cut where another thread can come between: the locked search of the queue (\<open>run_pick\<close>), the
  choice of a branch up to the switch into a fiber (\<open>run_dispatch\<close>), the fiber leaving the
  processor (\<open>run_leave\<close>), and what \<open>run()\<close> does when it has the processor back (\<open>run_after\<close>). Threads
  are named by their ids. Addresses returned by \<open>new\<close> are arguments. \<open>tickles\<close> counts the calls of
  the virtual \<open>tickle()\<close>, which does nothing here and wakes an epoll wait in \<open>IOManager\<close>.
  \<open>shared_ptr\<close> reference counts are not modelled.
\<close>

section \<open>Tasks and the queue\<close>

datatype 'cb fiber_or_cb = FT_fiber "nat option" | FT_cb "'cb option"

record 'cb task =
  ft_item :: "'cb fiber_or_cb"
  ft_thread :: int

record 'cb sched =
  m_fibers :: "'cb task list"
  m_threads :: "int list"
  m_thread_ids :: "int list"
  m_thread_count :: u64
  m_active_thread_count :: u64
  m_idle_thread_count :: u64
  m_stopping :: bool
  m_auto_stop :: bool
  m_root_thread_id :: int
  m_root_fiber :: "nat option"
  tickles :: nat

text \<open>\<open>Fiber_and_Thread::reset()\<close>: the second \<open>emplace\<close> leaves the empty callback alternative.\<close>

definition FT_reset :: "'cb task" where
  "FT_reset = \<lparr>ft_item = FT_cb None, ft_thread = -1\<rparr>"

text \<open>The constructors of \<open>Fiber_and_Thread\<close> that take a pointer swap the pointee out of its place.\<close>

definition FT_swap_fiber :: "nat option \<Rightarrow> int \<Rightarrow> 'cb task \<times> nat option" where
  "FT_swap_fiber f thr = (\<lparr>ft_item = FT_fiber f, ft_thread = thr\<rparr>, None)"

definition FT_swap_cb :: "'cb option \<Rightarrow> int \<Rightarrow> 'cb task \<times> 'cb option" where
  "FT_swap_cb c thr = (\<lparr>ft_item = FT_cb c, ft_thread = thr\<rparr>, None)"

definition tickle :: "'cb sched \<Rightarrow> 'cb sched" where
  "tickle s = s\<lparr>tickles := tickles s + 1\<rparr>"

text \<open>
  \<open>schedule_no_lock\<close>. The guard \<open>holds_alternative<Fiber::ptr> || holds_alternative<function>\<close> asks for
  the alternative and not for its content, and is always true: a null task is queued as well.
\<close>

definition schedule_no_lock :: "'cb task \<Rightarrow> 'cb sched \<Rightarrow> bool \<times> 'cb sched" where
  "schedule_no_lock ft s = (m_fibers s = [], s\<lparr>m_fibers := m_fibers s @ [ft]\<rparr>)"

definition schedule :: "'cb fiber_or_cb \<Rightarrow> int \<Rightarrow> 'cb sched \<Rightarrow> 'cb sched" where
  "schedule fc thr s =
     (let (need_tickle, s1) = schedule_no_lock \<lparr>ft_item = fc, ft_thread = thr\<rparr> s
      in if need_tickle then tickle s1 else s1)"

text \<open>\<open>schedule(begin, end)\<close> over a vector of callbacks, with what is left in the vector.\<close>

fun schedule_range_loop ::
    "'cb option list \<Rightarrow> bool \<Rightarrow> 'cb sched \<Rightarrow> bool \<times> 'cb option list \<times> 'cb sched" where
  "schedule_range_loop [] need s = (need, [], s)"
| "schedule_range_loop (c # cs) need s =
     (let (ft, c') = FT_swap_cb c (-1);
          (b, s1) = schedule_no_lock ft s;
          (need', cs', s2) = schedule_range_loop cs (b \<or> need) s1
      in (need', c' # cs', s2))"

definition schedule_range :: "'cb option list \<Rightarrow> 'cb sched \<Rightarrow> 'cb option list \<times> 'cb sched" where
  "schedule_range cs s =
     (let (need, cs', s1) = schedule_range_loop cs False s
      in (cs', if need then tickle s1 else s1))"

definition hasIdleThread :: "'cb sched \<Rightarrow> bool" where
  "hasIdleThread s = (m_idle_thread_count s > 0)"

definition stopping :: "'cb sched \<Rightarrow> bool" where
  "stopping s \<longleftrightarrow> m_auto_stop s \<and> m_stopping s \<and> m_fibers s = [] \<and> m_active_thread_count s = 0"

section \<open>The main loop\<close>

subsection \<open>The search of the queue\<close>

text \<open>
  The inner loop of \<open>run()\<close>: the task taken, the queue without it, and \<open>tickle_me\<close>
  (a task pinned to another thread was passed over, or tasks follow the one taken).
\<close>

fun scan :: "'cb fglobal \<Rightarrow> int \<Rightarrow> 'cb task list
    \<Rightarrow> ('cb task option \<times> 'cb task list \<times> bool) result" where
  "scan g tid [] = Inr (None, [], False)"
| "scan g tid (t # ts) =
     (if ft_thread t \<noteq> -1 \<and> ft_thread t \<noteq> tid then
        rbind (scan g tid ts) (\<lambda>(p, r, tk). Inr (p, t # r, True))
      else
        (case ft_item t of
           FT_fiber None \<Rightarrow> Inl (Null_deref ''(*f)->getState()'')
         | FT_fiber (Some f) \<Rightarrow>
             rbind (fiber_get g f) (\<lambda>fb.
               if m_state fb = EXEC then
                 rbind (scan g tid ts) (\<lambda>(p, r, tk). Inr (p, t # r, tk))
               else Inr (Some t, ts, ts \<noteq> []))
         | FT_cb c \<Rightarrow> Inr (Some t, ts, ts \<noteq> [])))"

subsection \<open>Workers\<close>

datatype pc =
    At_pick
  | At_dispatch
  | In_fiber nat
  | After_fiber nat
  | In_cb nat
  | After_cb nat
  | In_idle
  | After_idle
  | Exited

record 'cb worker =
  w_tls :: tls
  w_pc :: pc
  w_ft :: "'cb task"
  w_idle_fiber :: nat
  w_cb_fiber :: "nat option"
  w_hook :: bool

record 'cb world =
  w_sched :: "'cb sched"
  w_glob :: "'cb fglobal"
  w_thr :: "int \<Rightarrow> 'cb worker option"

text \<open>
  The beginning of \<open>run()\<close> on thread \<open>tid\<close>: hooks on, the thread's scheduler fiber (on the root thread it
  was set by the constructor), and the idle fiber. \<open>a\<close> and \<open>b\<close> are fresh addresses, \<open>idle\<close> the
  callback of the idle fiber, \<open>dflt\<close> the configured stack size.
\<close>

definition run_begin ::
    "nat \<Rightarrow> nat \<Rightarrow> 'cb \<Rightarrow> u32 \<Rightarrow> int \<Rightarrow> tls \<Rightarrow> 'cb sched \<Rightarrow> 'cb fglobal
       \<Rightarrow> 'cb worker \<times> 'cb fglobal" where
  "run_begin a b idle dflt tid t s g =
     (let (t1, g1) = (if tid \<noteq> m_root_thread_id s then
                        (let (f, (t', g')) = Fiber_GetThis a (t, g) in (t'\<lparr>t_main := Some f\<rparr>, g'))
                      else (t, g));
          g2 = Fiber_new b (Some idle) 0 False dflt True g1
      in (\<lparr>w_tls = t1, w_pc = At_pick, w_ft = \<lparr>ft_item = FT_fiber None, ft_thread = -1\<rparr>,
           w_idle_fiber = b, w_cb_fiber = None, w_hook = True\<rparr>, g2))"

definition run_pick ::
    "int \<Rightarrow> 'cb worker \<Rightarrow> 'cb sched \<Rightarrow> 'cb fglobal \<Rightarrow> ('cb worker \<times> 'cb sched) result" where
  "run_pick tid w s g =
     rbind (scan g tid (m_fibers s)) (\<lambda>(p, q, tickle_me).
       let s1 = s\<lparr>m_fibers := q\<rparr>
       in Inr (w\<lparr>w_ft := (case p of Some t \<Rightarrow> t | None \<Rightarrow> FT_reset), w_pc := At_dispatch\<rparr>,
               if tickle_me then tickle s1 else s1))"

definition dispatch_idle ::
    "'cb worker \<Rightarrow> 'cb sched \<Rightarrow> 'cb fglobal \<Rightarrow> ('cb worker \<times> 'cb sched \<times> 'cb fglobal) result" where
  "dispatch_idle w s g =
     rbind (fiber_get g (w_idle_fiber w)) (\<lambda>fb.
       if m_state fb = TERM_st then Inr (w\<lparr>w_pc := Exited\<rparr>, s, g)
       else
         rbind (Fiber_swapIn (w_idle_fiber w) (w_tls w, g)) (\<lambda>(t1, g1).
           Inr (w\<lparr>w_tls := t1, w_pc := In_idle\<rparr>,
                s\<lparr>m_idle_thread_count := m_idle_thread_count s + 1\<rparr>, g1)))"

text \<open>The fiber that will run a callback: the old \<open>cb_fiber\<close>, reset, or a new one at address \<open>a\<close>.\<close>

definition prepare_cb_fiber ::
    "nat \<Rightarrow> u32 \<Rightarrow> 'cb \<Rightarrow> 'cb worker \<Rightarrow> 'cb fglobal \<Rightarrow> (nat \<times> 'cb fglobal) result" where
  "prepare_cb_fiber a dflt c w g =
     (case w_cb_fiber w of
        Some b \<Rightarrow> rbind (Fiber_reset b (Some c) g) (\<lambda>g1. Inr (b, g1))
      | None \<Rightarrow> Inr (a, Fiber_new a (Some c) 0 False dflt True g))"

text \<open>
  The dispatch of a task: the test of the fiber's state, the increment of \<open>m_active_thread_count\<close> and the switch (lines 232-240) are one step. In
  between the worker only touches the atomic counter; that the state of the fiber can change after the test is left out here, as only the fiber
  itself, which is not running, or a second holder of the same fiber (see \<open>fiber_on_two_workers\<close>) would change it.
\<close>

definition run_dispatch ::
    "nat \<Rightarrow> u32 \<Rightarrow> 'cb worker \<Rightarrow> 'cb sched \<Rightarrow> 'cb fglobal
       \<Rightarrow> ('cb worker \<times> 'cb sched \<times> 'cb fglobal) result" where
  "run_dispatch a dflt w s g =
     (case ft_item (w_ft w) of
        FT_fiber (Some f) \<Rightarrow>
          rbind (fiber_get g f) (\<lambda>fb.
            if m_state fb \<noteq> TERM_st then
              rbind (Fiber_swapIn f (w_tls w, g)) (\<lambda>(t1, g1).
                Inr (w\<lparr>w_tls := t1, w_pc := In_fiber f\<rparr>,
                     s\<lparr>m_active_thread_count := m_active_thread_count s + 1\<rparr>, g1))
            else Inr (w\<lparr>w_pc := At_pick\<rparr>, s, g))
      | FT_cb (Some c) \<Rightarrow>
          rbind (prepare_cb_fiber a dflt c w g) (\<lambda>(b, g1).
          rbind (Fiber_swapIn b (w_tls w, g1)) (\<lambda>(t1, g2).
            Inr (w\<lparr>w_tls := t1, w_pc := In_cb b, w_ft := FT_reset, w_cb_fiber := Some b\<rparr>,
                 s\<lparr>m_active_thread_count := m_active_thread_count s + 1\<rparr>, g2)))
      | _ \<Rightarrow> dispatch_idle w s g)"

text \<open>The fiber on the worker's processor leaves it.\<close>

definition run_leave ::
    "leave \<Rightarrow> 'cb worker \<Rightarrow> 'cb fglobal \<Rightarrow> ('cb worker \<times> 'cb fglobal) result" where
  "run_leave l w g =
     (let go = (\<lambda>f pc'. rbind (Fiber_leave l f (w_tls w, g)) (\<lambda>(t1, g1).
                          Inr (w\<lparr>w_tls := t1, w_pc := pc'\<rparr>, g1)))
      in case w_pc w of
           In_fiber f \<Rightarrow> go f (After_fiber f)
         | In_cb f \<Rightarrow> go f (After_cb f)
         | In_idle \<Rightarrow> go (w_idle_fiber w) After_idle
         | _ \<Rightarrow> Inr (w, g))"

definition run_after ::
    "'cb worker \<Rightarrow> 'cb sched \<Rightarrow> 'cb fglobal \<Rightarrow> ('cb worker \<times> 'cb sched \<times> 'cb fglobal) result" where
  "run_after w s g =
     (case w_pc w of
        After_fiber f \<Rightarrow>
          (let s1 = s\<lparr>m_active_thread_count := m_active_thread_count s - 1\<rparr>;
               w1 = w\<lparr>w_ft := FT_reset, w_pc := At_pick\<rparr>
           in rbind (fiber_get g f) (\<lambda>fb.
                if m_state fb = READY then Inr (w1, schedule (FT_fiber (Some f)) (-1) s1, g)
                else if m_state fb \<noteq> TERM_st \<and> m_state fb \<noteq> EXCPT then
                  rbind (Fiber_setState f HOLD g) (\<lambda>g1. Inr (w1, s1, g1))
                else Inr (w1, s1, g)))
      | After_cb f \<Rightarrow>
          (let s1 = s\<lparr>m_active_thread_count := m_active_thread_count s - 1\<rparr>;
               w1 = w\<lparr>w_pc := At_pick\<rparr>
           in rbind (fiber_get g f) (\<lambda>fb.
                if m_state fb = READY then Inr (w1, schedule (FT_fiber (Some f)) (-1) s1, g)
                else if m_state fb = TERM_st \<or> m_state fb = EXCPT then
                  rbind (Fiber_reset f None g) (\<lambda>g1. Inr (w1, s1, g1))
                else
                  rbind (Fiber_setState f HOLD g)
                    (\<lambda>g1. Inr (w1\<lparr>w_cb_fiber := None\<rparr>, s1, g1))))
      | After_idle \<Rightarrow>
          (let s1 = s\<lparr>m_idle_thread_count := m_idle_thread_count s - 1\<rparr>;
               w1 = w\<lparr>w_pc := At_pick\<rparr>
           in rbind (fiber_get g (w_idle_fiber w)) (\<lambda>fb.
                if m_state fb \<noteq> TERM_st \<and> m_state fb \<noteq> EXCPT then
                  rbind (Fiber_setState (w_idle_fiber w) HOLD g) (\<lambda>g1. Inr (w1, s1, g1))
                else Inr (w1, s1, g)))
      | _ \<Rightarrow> Inr (w, s, g))"

text \<open>
  \<open>Scheduler::idle()\<close>, the body of the idle fiber: one turn of its loop ends the fiber when
  \<open>stopping()\<close> holds and yields otherwise.
\<close>

definition idle_turn :: "'cb sched \<Rightarrow> leave" where
  "idle_turn s = (if stopping s then Leave_end Body_returns else Leave_Hold)"


section \<open>Construction, start and stop\<close>

text \<open>
  \<open>Scheduler::Scheduler(threads, use_caller, name)\<close> on thread \<open>tid\<close>. \<open>cur\<close> says that the thread
  already has a scheduler; \<open>a\<close> and \<open>b\<close> are fresh addresses, \<open>run_cb\<close> the callback of the root fiber.
\<close>

definition Scheduler_new ::
    "nat \<Rightarrow> nat \<Rightarrow> 'cb \<Rightarrow> u32 \<Rightarrow> u64 \<Rightarrow> bool \<Rightarrow> bool \<Rightarrow> int \<Rightarrow> 'cb fenv
       \<Rightarrow> ('cb sched \<times> 'cb fenv) result" where
  "Scheduler_new a b run_cb dflt thread_count use_caller cur tid e =
     rbind (SYLAR_ASSERT (thread_count > 0) ''thread_count > 0'') (\<lambda>_.
       let s = \<lparr>m_fibers = [], m_threads = [], m_thread_ids = [], m_thread_count = thread_count,
                m_active_thread_count = 0, m_idle_thread_count = 0, m_stopping = True,
                m_auto_stop = True, m_root_thread_id = -1, m_root_fiber = None, tickles = 0\<rparr>
       in if use_caller then
            rbind (SYLAR_ASSERT (\<not> cur) ''GetThis() == nullptr'') (\<lambda>_.
              let (_, (t, g)) = Fiber_GetThis a e;
                  g1 = Fiber_new b (Some run_cb) 0 True dflt True g
              in Inr (s\<lparr>m_thread_count := thread_count - 1, m_root_thread_id := tid,
                        m_thread_ids := [tid], m_root_fiber := Some b\<rparr>,
                      (t\<lparr>t_main := Some b\<rparr>, g1)))
          else Inr (s, e))"

definition Scheduler_delete :: "'cb sched \<Rightarrow> unit result" where
  "Scheduler_delete s = SYLAR_ASSERT (m_stopping s) ''m_stopping''"

text \<open>\<open>Scheduler::start()\<close>; \<open>ids\<close> are the ids of the threads it creates.\<close>

definition sched_start :: "int list \<Rightarrow> 'cb sched \<Rightarrow> 'cb sched result" where
  "sched_start ids s =
     (if \<not> m_stopping s then Inr s
      else
        rbind (SYLAR_ASSERT (m_threads s = []) ''m_threads.empty()'') (\<lambda>_.
          let ids' = take (unat (m_thread_count s)) ids
          in Inr (s\<lparr>m_stopping := False, m_threads := ids', m_thread_ids := m_thread_ids s @ ids'\<rparr>)))"

text \<open>
  \<open>Scheduler::stop()\<close> up to and after the call of the root fiber. \<open>this\<close> says that
  \<open>GetThis() == this\<close> on the calling thread; \<open>virt\<close> is the virtual \<open>stopping()\<close>. The first half
  returns, calls the root fiber (whose body is \<open>run()\<close>), or goes on to the second half, which sets
  \<open>m_stopping\<close>, wakes every thread and joins the pool.
\<close>

datatype stop_branch = Stop_return | Stop_call_root nat | Stop_go_on

definition stop_enter ::
    "('cb sched \<Rightarrow> bool) \<Rightarrow> bool \<Rightarrow> 'cb sched \<Rightarrow> 'cb fglobal \<Rightarrow> (stop_branch \<times> 'cb sched) result" where
  "stop_enter virt this s g =
     (let s1 = s\<lparr>m_auto_stop := True\<rparr>;
          root_state = (case m_root_fiber s of
              None \<Rightarrow> Inr None
            | Some f \<Rightarrow> rbind (fiber_get g f) (\<lambda>fb. Inr (Some (m_state fb))))
      in rbind root_state (\<lambda>st.
           if st \<in> {Some TERM_st, Some INIT} \<and> m_thread_count s1 = 0 \<and> virt s1
           then Inr (Stop_return, s1)
           else
             rbind (if m_root_thread_id s1 \<noteq> -1
                    then SYLAR_ASSERT this ''GetThis() == this''
                    else SYLAR_ASSERT (\<not> this) ''GetThis() != this'') (\<lambda>_.
               Inr (case m_root_fiber s1 of
                      Some f \<Rightarrow> if \<not> virt s1 then (Stop_call_root f, s1) else (Stop_go_on, s1)
                    | None \<Rightarrow> (Stop_go_on, s1)))))"

definition stop_finish :: "'cb sched \<Rightarrow> 'cb sched" where
  "stop_finish s =
     (let s1 = (tickle ^^ unat (m_thread_count s)) (s\<lparr>m_stopping := True\<rparr>);
          s2 = (if m_root_fiber s \<noteq> None then tickle s1 else s1)
      in s2\<lparr>m_threads := []\<rparr>)"

section \<open>All interleavings of the workers\<close>

text \<open>
  One step of the system: code of the clients queues a task (any task but the idle fiber of a
  worker, which no client holds) or creates a fiber; or one worker makes a step of \<open>run()\<close>. A fiber
  or callback may leave the processor in any way; the idle fiber ends only where \<open>stopping()\<close> held.
\<close>

definition idles :: "'cb world \<Rightarrow> nat set" where
  "idles W = {w_idle_fiber w | w. w \<in> ran (w_thr W)}"

inductive world_step :: "'cb world \<Rightarrow> 'cb world \<Rightarrow> bool" where
  ws_schedule:
    "fc \<notin> {FT_fiber (Some i) | i. i \<in> idles W} \<Longrightarrow>
     world_step W (W\<lparr>w_sched := schedule fc thr (w_sched W)\<rparr>)"
| ws_new_fiber:
    "fheap (w_glob W) a = None \<Longrightarrow>
     world_step W (W\<lparr>w_glob := Fiber_new a cb sz uc dflt st (w_glob W)\<rparr>)"
| ws_pick:
    "w_thr W tid = Some w \<Longrightarrow> w_pc w = At_pick \<Longrightarrow>
     run_pick tid w (w_sched W) (w_glob W) = Inr (w', s') \<Longrightarrow>
     world_step W (W\<lparr>w_sched := s', w_thr := (w_thr W)(tid \<mapsto> w')\<rparr>)"
| ws_dispatch:
    "w_thr W tid = Some w \<Longrightarrow> w_pc w = At_dispatch \<Longrightarrow> fheap (w_glob W) a = None \<Longrightarrow>
     run_dispatch a dflt w (w_sched W) (w_glob W) = Inr (w', s', g') \<Longrightarrow>
     world_step W (W\<lparr>w_sched := s', w_glob := g', w_thr := (w_thr W)(tid \<mapsto> w')\<rparr>)"
| ws_leave:
    "w_thr W tid = Some w \<Longrightarrow> w_pc w \<in> {In_fiber f, In_cb f} \<Longrightarrow>
     run_leave l w (w_glob W) = Inr (w', g') \<Longrightarrow>
     world_step W (W\<lparr>w_glob := g', w_thr := (w_thr W)(tid \<mapsto> w')\<rparr>)"
| ws_idle:
    "w_thr W tid = Some w \<Longrightarrow> w_pc w = In_idle \<Longrightarrow>
     l \<in> {Leave_bare, idle_turn (w_sched W)} \<Longrightarrow>
     run_leave l w (w_glob W) = Inr (w', g') \<Longrightarrow>
     world_step W (W\<lparr>w_glob := g', w_thr := (w_thr W)(tid \<mapsto> w')\<rparr>)"
| ws_after:
    "w_thr W tid = Some w \<Longrightarrow> w_pc w \<in> {After_fiber f, After_cb f, After_idle} \<Longrightarrow>
     run_after w (w_sched W) (w_glob W) = Inr (w', s', g') \<Longrightarrow>
     world_step W (W\<lparr>w_sched := s', w_glob := g', w_thr := (w_thr W)(tid \<mapsto> w')\<rparr>)"

section \<open>The queue\<close>

lemma schedule_simps [simp]:
  "m_fibers (schedule fc thr s) = m_fibers s @ [\<lparr>ft_item = fc, ft_thread = thr\<rparr>]"
  "m_active_thread_count (schedule fc thr s) = m_active_thread_count s"
  "m_idle_thread_count (schedule fc thr s) = m_idle_thread_count s"
  "m_stopping (schedule fc thr s) = m_stopping s"
  "m_auto_stop (schedule fc thr s) = m_auto_stop s"
  by (simp_all add: schedule_def schedule_no_lock_def tickle_def Let_def)

lemma schedule_range_loop_eq:
  "schedule_range_loop cs need s =
     (need \<or> (cs \<noteq> [] \<and> m_fibers s = []), map (\<lambda>_. None) cs,
      s\<lparr>m_fibers := m_fibers s @ map (\<lambda>c. \<lparr>ft_item = FT_cb c, ft_thread = -1\<rparr>) cs\<rparr>)"
  by (induction cs arbitrary: need s) (auto simp: FT_swap_cb_def schedule_no_lock_def Let_def)

definition pinned_elsewhere :: "int \<Rightarrow> 'cb task \<Rightarrow> bool" where
  "pinned_elsewhere tid t \<longleftrightarrow> ft_thread t \<noteq> -1 \<and> ft_thread t \<noteq> tid"

definition eligible :: "'cb fglobal \<Rightarrow> int \<Rightarrow> 'cb task \<Rightarrow> bool" where
  "eligible g tid t \<longleftrightarrow> \<not> pinned_elsewhere tid t \<and>
     (case ft_item t of FT_fiber (Some f) \<Rightarrow> map_option m_state (fheap g f) \<noteq> Some EXEC | _ \<Rightarrow> True)"

definition task_ok :: "'cb fglobal \<Rightarrow> 'cb task \<Rightarrow> bool" where
  "task_ok g t \<longleftrightarrow> (case ft_item t of FT_fiber None \<Rightarrow> False | FT_fiber (Some f) \<Rightarrow> fheap g f \<noteq> None
                    | FT_cb c \<Rightarrow> True)"

lemma scan_total:
  "(\<And>t. t \<in> set q \<Longrightarrow> task_ok g t) \<Longrightarrow> \<not> isl (scan g tid q)"
proof (induction q)
  case Nil
  then show ?case by simp
next
  case (Cons t q)
  then have "\<not> isl (scan g tid q)" by simp
  moreover have "task_ok g t" using Cons.prems by simp
  ultimately show ?case
    by (cases "scan g tid q"; cases "ft_item t")
      (auto simp: task_ok_def fiber_get_def split: option.splits)
qed

lemma scan_spec:
  "scan g tid q = Inr (p, r, tk) \<Longrightarrow>
   (case p of
      None \<Rightarrow> r = q \<and> (\<forall>x \<in> set q. \<not> eligible g tid x) \<and> tk = (\<exists>x \<in> set q. pinned_elsewhere tid x)
    | Some t \<Rightarrow> (\<exists>pre post. q = pre @ t # post \<and> r = pre @ post \<and> eligible g tid t \<and>
        (\<forall>x \<in> set pre. \<not> eligible g tid x) \<and>
        tk = ((\<exists>x \<in> set pre. pinned_elsewhere tid x) \<or> post \<noteq> [])))"
proof (induction q arbitrary: p r tk)
  case Nil
  then show ?case by auto
next
  case (Cons t q)
  show ?case
  proof (cases "eligible g tid t")
    case True
    then have "p = Some t \<and> r = q \<and> tk = (q \<noteq> [])"
      using Cons.prems
      by (auto simp: eligible_def pinned_elsewhere_def fiber_get_def
          split: fiber_or_cb.splits option.splits if_splits)
    with True show ?thesis
      by (simp, intro exI [of _ "[]"] exI [of _ q]) simp
  next
    case False
    then obtain r' tk' where rec: "scan g tid q = Inr (p, r', tk')" and r: "r = t # r'"
      and tk: "tk = (pinned_elsewhere tid t \<or> tk')"
      using Cons.prems
      by (auto simp: eligible_def pinned_elsewhere_def fiber_get_def result_simps
          split: fiber_or_cb.splits option.splits if_splits)
    show ?thesis
    proof (cases p)
      case None
      then show ?thesis using Cons.IH [OF rec] False r tk by auto
    next
      case (Some u)
      then obtain pre post where "q = pre @ u # post" "r' = pre @ post" "eligible g tid u"
        "\<forall>x \<in> set pre. \<not> eligible g tid x"
        "tk' = ((\<exists>x \<in> set pre. pinned_elsewhere tid x) \<or> post \<noteq> [])"
        using Cons.IH [OF rec] by auto
      then show ?thesis
        using Some False r tk by (simp, intro exI [of _ "t # pre"] exI [of _ post]) simp
    qed
  qed
qed


section \<open>The two counters\<close>

text \<open>\<open>active\<close> and \<open>idling\<close>: the points of \<open>run()\<close> between an increment and its decrement.\<close>

definition active :: "pc \<Rightarrow> bool" where
  "active p \<longleftrightarrow> (case p of In_fiber f \<Rightarrow> True | After_fiber f \<Rightarrow> True | In_cb f \<Rightarrow> True | After_cb f \<Rightarrow> True
                | _ \<Rightarrow> False)"

definition idling :: "pc \<Rightarrow> bool" where
  "idling p \<longleftrightarrow> p = In_idle \<or> p = After_idle"

definition at_pc :: "(pc \<Rightarrow> bool) \<Rightarrow> 'cb world \<Rightarrow> int set" where
  "at_pc P W = {tid. \<exists>w. w_thr W tid = Some w \<and> P (w_pc w)}"

definition counters_ok :: "'cb world \<Rightarrow> bool" where
  "counters_ok W \<longleftrightarrow> finite (dom (w_thr W)) \<and>
     m_active_thread_count (w_sched W) = of_nat (card (at_pc active W)) \<and>
     m_idle_thread_count (w_sched W) = of_nat (card (at_pc idling W))"

text \<open>What one step of a worker does to a counter, by where the worker was and where it is.\<close>

definition moved :: "(pc \<Rightarrow> bool) \<Rightarrow> pc \<Rightarrow> pc \<Rightarrow> u64 \<Rightarrow> u64" where
  "moved P p p' n = n - (if P p then 1 else 0) + (if P p' then 1 else 0)"

definition counts_move :: "'cb worker \<Rightarrow> 'cb sched \<Rightarrow> 'cb worker \<Rightarrow> 'cb sched \<Rightarrow> bool" where
  "counts_move w s w' s' \<longleftrightarrow>
     m_active_thread_count s' = moved active (w_pc w) (w_pc w') (m_active_thread_count s) \<and>
     m_idle_thread_count s' = moved idling (w_pc w) (w_pc w') (m_idle_thread_count s)"

lemma tickle_simps [simp]:
  "m_fibers (tickle s) = m_fibers s" "m_active_thread_count (tickle s) = m_active_thread_count s"
  "m_idle_thread_count (tickle s) = m_idle_thread_count s" "m_stopping (tickle s) = m_stopping s"
  "m_auto_stop (tickle s) = m_auto_stop s" "tickles (tickle s) = Suc (tickles s)"
  by (simp_all add: tickle_def)

lemma run_pick_move:
  "run_pick tid w s g = Inr (w', s') \<Longrightarrow> w_pc w = At_pick \<Longrightarrow>
   counts_move w s w' s' \<and> w_pc w' = At_dispatch"
  by (auto simp: run_pick_def counts_move_def moved_def active_def idling_def result_simps Let_def)

lemma dispatch_idle_move:
  "dispatch_idle w s g = Inr (w', s', g') \<Longrightarrow> w_pc w = At_dispatch \<Longrightarrow>
   counts_move w s w' s' \<and> w_pc w' \<in> {In_idle, Exited}"
  by (cases "fheap g (w_idle_fiber w)"; cases "m_state (the (fheap g (w_idle_fiber w))) = TERM_st")
    (auto simp: dispatch_idle_def counts_move_def moved_def active_def idling_def result_simps
      fiber_get_def)

lemma run_dispatch_move:
  assumes "run_dispatch a dflt w s g = Inr (w', s', g')" and "w_pc w = At_dispatch"
  shows "counts_move w s w' s'"
proof -
  consider (idle) "dispatch_idle w s g = Inr (w', s', g')"
    | (skip) "w_pc w' = At_pick" "s' = s"
    | (busy) "active (w_pc w')" "s' = s\<lparr>m_active_thread_count := m_active_thread_count s + 1\<rparr>"
    using assms(1)
    by (auto simp: run_dispatch_def result_simps active_def
        split: fiber_or_cb.splits option.splits if_splits)
  then show ?thesis
  proof cases
    case idle
    then show ?thesis using dispatch_idle_move assms(2) by blast
  next
    case skip
    then show ?thesis using assms(2) by (simp add: counts_move_def moved_def active_def idling_def)
  next
    case busy
    then show ?thesis
      using assms(2)
      by (cases "w_pc w'") (simp_all add: counts_move_def moved_def active_def idling_def)
  qed
qed

lemma run_leave_move:
  "run_leave l w g = Inr (w', g') \<Longrightarrow> counts_move w s w' s"
  by (auto simp: run_leave_def result_simps counts_move_def moved_def active_def idling_def
      split: pc.splits)

lemma Fiber_setState_eq:
  "Fiber_setState f st g =
     (case fheap g f of None \<Rightarrow> Inl (Undefined ''dangling Fiber*'')
      | Some fb \<Rightarrow> Inr (fiber_set f (fb\<lparr>m_state := st\<rparr>) g))"
  by (simp add: Fiber_setState_def fiber_get_def split: option.split)

lemma fiber_bindD:
  "rbind (fiber_get g f) k = Inr z \<Longrightarrow> \<exists>fb. fheap g f = Some fb \<and> k fb = Inr z"
  by (cases "fheap g f") (simp_all add: fiber_get_def)

lemma run_after_cases [consumes 1]:
  assumes "run_after w s g = Inr (w', s', g')"
  obtains (stay) "w' = w" "s' = s" "g' = g"
  | (again) f where "w_pc w \<in> {After_fiber f, After_cb f}" "g' = g"
      "s' = schedule (FT_fiber (Some f)) (-1)
        (s\<lparr>m_active_thread_count := m_active_thread_count s - 1\<rparr>)"
      "w' = w\<lparr>w_ft := w_ft w', w_pc := At_pick\<rparr>" "w_ft w' \<in> {w_ft w, FT_reset}"
      "w_pc w' = At_pick"
  | (ended) f where "w_pc w = After_fiber f" "g' = g"
      "s' = s\<lparr>m_active_thread_count := m_active_thread_count s - 1\<rparr>"
      "w' = w\<lparr>w_ft := FT_reset, w_pc := At_pick\<rparr>"
  | (cb_ended) f where "w_pc w = After_cb f" "Fiber_reset f None g = Inr g'"
      "s' = s\<lparr>m_active_thread_count := m_active_thread_count s - 1\<rparr>" "w' = w\<lparr>w_pc := At_pick\<rparr>"
  | (held) f where "w_pc w \<in> {After_fiber f, After_cb f}" "Fiber_setState f HOLD g = Inr g'"
      "s' = s\<lparr>m_active_thread_count := m_active_thread_count s - 1\<rparr>"
      "w' = w\<lparr>w_ft := w_ft w', w_pc := At_pick, w_cb_fiber := w_cb_fiber w'\<rparr>"
      "w_ft w' \<in> {w_ft w, FT_reset}" "w_cb_fiber w' \<in> {w_cb_fiber w, None}"
      "w_pc w' = At_pick"
  | (idle) "w_pc w = After_idle" "g' = g \<or> Fiber_setState (w_idle_fiber w) HOLD g = Inr g'"
      "s' = s\<lparr>m_idle_thread_count := m_idle_thread_count s - 1\<rparr>" "w' = w\<lparr>w_pc := At_pick\<rparr>"
proof (cases "w_pc w")
  case (After_fiber f)
  then obtain fb where "fheap g f = Some fb"
    using assms by (auto dest!: fiber_bindD simp: run_after_def Let_def)
  with After_fiber assms that(2) [of f] that(3) [of f] that(5) [of f] show ?thesis
    by (auto simp: run_after_def Let_def result_simps split: if_splits)
next
  case (After_cb f)
  then obtain fb where "fheap g f = Some fb"
    using assms by (auto dest!: fiber_bindD simp: run_after_def Let_def)
  with After_cb assms that(2) [of f] that(4) [of f] that(5) [of f] show ?thesis
    by (auto simp: run_after_def Let_def result_simps split: if_splits)
next
  case After_idle
  then obtain fb where "fheap g (w_idle_fiber w) = Some fb"
    using assms by (auto dest!: fiber_bindD simp: run_after_def Let_def)
  with After_idle assms that(6) show ?thesis
    by (auto simp: run_after_def Let_def result_simps split: if_splits)
qed (use assms that(1) in \<open>auto simp: run_after_def\<close>)

lemma run_after_move:
  assumes "run_after w s g = Inr (w', s', g')"
  shows "counts_move w s w' s'"
  using assms
  by (cases rule: run_after_cases) (auto simp: counts_move_def moved_def active_def idling_def)

lemma at_pc_upd:
  assumes "w_thr W tid = Some w" and "finite (dom (w_thr W))"
  shows "of_nat (card (at_pc P (W\<lparr>w_sched := s, w_glob := g, w_thr := (w_thr W)(tid \<mapsto> w')\<rparr>))) =
    moved P (w_pc w) (w_pc w') (of_nat (card (at_pc P W)))"
proof -
  let ?A = "at_pc P W - {tid}"
  have fin: "finite (at_pc P W)"
    using assms(2) by (rule finite_subset [rotated]) (auto simp: at_pc_def)
  have eq: "at_pc P (W\<lparr>w_sched := s, w_glob := g, w_thr := (w_thr W)(tid \<mapsto> w')\<rparr>) =
      (if P (w_pc w') then insert tid ?A else ?A)"
    by (auto simp: at_pc_def)
  have "card (insert tid ?A) = Suc (card ?A)"
    using fin by (intro card_insert_disjoint) auto
  moreover have "of_nat (card (at_pc P W)) = of_nat (card ?A) + (if P (w_pc w) then 1 else (0 :: u64))"
    using fin assms(1) card.remove [OF fin, of tid] by (auto simp: at_pc_def)
  ultimately show ?thesis
    unfolding eq moved_def by (cases "P (w_pc w')"; cases "P (w_pc w)") (simp_all del: insert_Diff_single)
qed

lemma counters_ok_upd:
  assumes "counters_ok W" and "w_thr W tid = Some w" and "counts_move w (w_sched W) w' s'"
  shows "counters_ok (W\<lparr>w_sched := s', w_glob := g, w_thr := (w_thr W)(tid \<mapsto> w')\<rparr>)"
  using assms at_pc_upd [OF assms(2), where P = active and w' = w' and s = s' and g = g]
    at_pc_upd [OF assms(2), where P = idling and w' = w' and s = s' and g = g]
  by (simp add: counters_ok_def counts_move_def)

lemma counters_ok_step: "world_step W W' \<Longrightarrow> counters_ok W \<Longrightarrow> counters_ok W'"
proof (induction rule: world_step.induct)
  case (ws_schedule fc W thr)
  then show ?case by (simp add: counters_ok_def at_pc_def)
next
  case (ws_new_fiber W a cb sz uc dflt st)
  then show ?case by (simp add: counters_ok_def at_pc_def)
next
  case (ws_pick W tid w w' s')
  then show ?case
    using counters_ok_upd [of W tid w w' s' "w_glob W"] run_pick_move by fastforce
next
  case (ws_dispatch W tid w a dflt w' s' g')
  then show ?case using counters_ok_upd run_dispatch_move by blast
next
  case (ws_leave W tid w f l w' g')
  then show ?case
    using counters_ok_upd [of W tid w w' "w_sched W" g'] run_leave_move by fastforce
next
  case (ws_idle W tid w l w' g')
  then show ?case
    using counters_ok_upd [of W tid w w' "w_sched W" g'] run_leave_move by fastforce
next
  case (ws_after W tid w f w' s' g')
  then show ?case using counters_ok_upd run_after_move by blast
qed

section \<open>Workers do not exit before the scheduler stops\<close>

text \<open>The state of every fiber, and what the switches do to it.\<close>

definition st_of :: "'cb fglobal \<Rightarrow> nat \<Rightarrow> fiber_state option" where
  "st_of g f = map_option m_state (fheap g f)"

lemma st_of_set [simp]: "st_of (fiber_set f fb g) = (st_of g)(f \<mapsto> m_state fb)"
  by (auto simp: st_of_def)

lemma st_of_Fiber_new [simp]:
  "st_of (Fiber_new a cb sz uc dflt st g) = (st_of g)(a \<mapsto> INIT)"
  by (auto simp: st_of_def Fiber_new_def fiber_set_def)

lemma st_of_swapcontext:
  "swapcontext c from to (t, g) = Inr (t', g') \<Longrightarrow>
   st_of g' = st_of g \<and> t' = t\<lparr>cpu := Some to\<rparr>"
  by (auto dest!: fiber_bindD simp: swapcontext_def Let_def st_of_def fiber_get_set
      fiber_get_Inr_iff result_simps split: if_splits)

lemma st_of_swapIn:
  assumes "Fiber_swapIn f (t, g) = Inr (t', g')"
  shows "st_of g' = (st_of g)(f \<mapsto> EXEC) \<and> t' = t\<lparr>t_fiber := Some f, cpu := Some f\<rparr>"
proof -
  obtain fb m where "swapcontext Saved m f
      (Fiber_SetThis (Some f) t, fiber_set f (fb\<lparr>m_state := EXEC\<rparr>) g) = Inr (t', g')"
    using assms
    by (cases "t_main t")
      (auto dest!: fiber_bindD simp: Fiber_swapIn_def Fiber_switch_in_def Let_def SYLAR_ASSERT_def
        split: if_splits)
  from st_of_swapcontext [OF this] show ?thesis by (simp add: Fiber_SetThis_def)
qed

lemma st_of_swapOut:
  "Fiber_swapOut_at c f (t, g) = Inr (t', g') \<Longrightarrow> st_of g' = st_of g"
  by (cases "t_main t") (auto dest: st_of_swapcontext simp: Fiber_swapOut_at_def)

lemma st_of_back:
  "Fiber_back_at c f (t, g) = Inr (t', g') \<Longrightarrow> st_of g' = st_of g"
  by (cases "t_threadFiber t") (auto dest: st_of_swapcontext simp: Fiber_back_at_def)

lemma st_of_leave:
  assumes "Fiber_leave l f (t, g) = Inr (t', g')" and "t_fiber t = Some f"
  shows "(\<forall>f'. f' \<noteq> f \<longrightarrow> st_of g' f' = st_of g f') \<and>
    (l \<in> {Leave_bare, Leave_Hold} \<longrightarrow> st_of g' f \<in> {st_of g f, Some HOLD})"
  using assms
  by (auto dest!: fiber_bindD st_of_swapOut st_of_back simp: Fiber_leave_def Fiber_Yield_to_Ready_def
      Fiber_Yield_to_Hold_def Fiber_yield_def Fiber_GetThis_def Fiber_setState_def Fiber_swapOut_def
      Fiber_MainFunc_exit_def Fiber_Caller_MainFunc_exit_def result_simps
      split: leave.splits if_splits)


text \<open>
  The invariant, over the set \<open>I\<close> of idle fibers: no task, callback fiber or running task is one of
  them, each is alive and has not ended, and a worker inside a fiber has \<open>GetThis()\<close> naming it.
\<close>

definition task_free :: "nat set \<Rightarrow> 'cb task \<Rightarrow> bool" where
  "task_free I t \<longleftrightarrow> (case ft_item t of FT_fiber (Some f) \<Rightarrow> f \<notin> I | _ \<Rightarrow> True)"

definition idle_alive :: "nat set \<Rightarrow> 'cb fglobal \<Rightarrow> bool" where
  "idle_alive I g \<longleftrightarrow> (\<forall>i \<in> I. st_of g i \<notin> {None, Some TERM_st})"

definition worker_free :: "nat set \<Rightarrow> 'cb worker \<Rightarrow> bool" where
  "worker_free I w \<longleftrightarrow> w_idle_fiber w \<in> I \<and> task_free I (w_ft w) \<and> w_cb_fiber w \<notin> Some ` I \<and>
     (case w_pc w of
        In_fiber f \<Rightarrow> f \<notin> I \<and> t_fiber (w_tls w) = Some f
      | In_cb f \<Rightarrow> f \<notin> I \<and> t_fiber (w_tls w) = Some f
      | After_fiber f \<Rightarrow> f \<notin> I
      | After_cb f \<Rightarrow> f \<notin> I
      | In_idle \<Rightarrow> t_fiber (w_tls w) = Some (w_idle_fiber w)
      | Exited \<Rightarrow> False
      | _ \<Rightarrow> True)"

definition idle_inv :: "'cb world \<Rightarrow> bool" where
  "idle_inv W \<longleftrightarrow> \<not> m_stopping (w_sched W) \<and> idle_alive (idles W) (w_glob W) \<and>
     (\<forall>t \<in> set (m_fibers (w_sched W)). task_free (idles W) t) \<and>
     (\<forall>tid w. w_thr W tid = Some w \<longrightarrow> worker_free (idles W) w)"

lemma task_free_reset [simp]: "task_free I FT_reset"
  by (simp add: task_free_def FT_reset_def)

lemma idle_alive_upd:
  "idle_alive I g \<Longrightarrow> (\<And>f. f \<in> I \<Longrightarrow> st_of g' f \<noteq> st_of g f \<Longrightarrow> st_of g' f \<notin> {None, Some TERM_st}) \<Longrightarrow>
   idle_alive I g'"
  unfolding idle_alive_def by metis

lemma pick_free:
  assumes "run_pick tid w s g = Inr (w', s')" "w_pc w = At_pick" "worker_free I w"
    "\<forall>t \<in> set (m_fibers s). task_free I t"
  shows "worker_free I w' \<and> w_idle_fiber w' = w_idle_fiber w \<and> m_stopping s' = m_stopping s \<and>
    (\<forall>t \<in> set (m_fibers s'). task_free I t)"
proof -
  obtain p q tk where sc: "scan g tid (m_fibers s) = Inr (p, q, tk)"
    and w': "w' = w\<lparr>w_ft := (case p of Some t \<Rightarrow> t | None \<Rightarrow> FT_reset), w_pc := At_dispatch\<rparr>"
    and s': "m_fibers s' = q" "m_stopping s' = m_stopping s"
    using assms(1) by (auto simp: run_pick_def result_simps Let_def)
  have "set q \<subseteq> set (m_fibers s)" "set_option p \<subseteq> set (m_fibers s)"
    using scan_spec [OF sc] by (auto split: option.splits)
  with assms w' s' show ?thesis
    by (auto simp: worker_free_def split: option.splits)
qed

lemma dispatch_idle_free:
  assumes "dispatch_idle w s g = Inr (w', s', g')" "w_pc w = At_dispatch" "worker_free I w"
    "idle_alive I g"
  shows "worker_free I w' \<and> w_idle_fiber w' = w_idle_fiber w \<and> m_stopping s' = m_stopping s \<and>
    m_fibers s' = m_fibers s \<and> idle_alive I g'"
proof -
  obtain fb where fb: "fheap g (w_idle_fiber w) = Some fb" "m_state fb \<noteq> TERM_st"
    using assms(3,4) by (auto simp: worker_free_def idle_alive_def st_of_def)
  with assms(1) obtain t1 where sw: "Fiber_swapIn (w_idle_fiber w) (w_tls w, g) = Inr (t1, g')"
    and eq: "w' = w\<lparr>w_tls := t1, w_pc := In_idle\<rparr>"
      "s' = s\<lparr>m_idle_thread_count := m_idle_thread_count s + 1\<rparr>"
    by (auto simp: dispatch_idle_def result_simps)
  from st_of_swapIn [OF sw] have "idle_alive I g'"
    by (intro idle_alive_upd [OF assms(4)]) (auto split: if_splits)
  with eq st_of_swapIn [OF sw] assms(3) show ?thesis
    by (simp add: worker_free_def)
qed

lemma idle_alive_fresh: "idle_alive I g \<Longrightarrow> fheap g a = None \<Longrightarrow> a \<notin> I"
  by (auto simp: idle_alive_def st_of_def)

lemma st_of_reset: "Fiber_reset f cb g = Inr g' \<Longrightarrow> st_of g' = (st_of g)(f \<mapsto> INIT)"
  by (auto dest!: fiber_bindD simp: Fiber_reset_def result_simps)

lemma st_of_setState: "Fiber_setState f st g = Inr g' \<Longrightarrow> st_of g' = (st_of g)(f \<mapsto> st)"
  by (auto simp: Fiber_setState_def result_simps)

lemma prepare_cb_free:
  assumes "prepare_cb_fiber a dflt c w g = Inr (b, g1)" "worker_free I w" "fheap g a = None"
    "idle_alive I g"
  shows "b \<notin> I \<and> st_of g1 = (st_of g)(b \<mapsto> INIT)"
  using assms idle_alive_fresh [OF assms(4,3)]
  by (auto dest!: st_of_reset simp: prepare_cb_fiber_def worker_free_def result_simps
      split: option.splits)

lemma dispatch_free:
  assumes "run_dispatch a dflt w s g = Inr (w', s', g')" "w_pc w = At_dispatch" "worker_free I w"
    "idle_alive I g" "fheap g a = None"
  shows "worker_free I w' \<and> w_idle_fiber w' = w_idle_fiber w \<and> m_stopping s' = m_stopping s \<and>
    m_fibers s' = m_fibers s \<and> idle_alive I g'"
proof (cases "ft_item (w_ft w) = FT_fiber None \<or> ft_item (w_ft w) = FT_cb None")
  case True
  then have "dispatch_idle w s g = Inr (w', s', g')" using assms(1) by (auto simp: run_dispatch_def)
  then show ?thesis using dispatch_idle_free assms by blast
next
  case False
  then consider (fiber) f where "ft_item (w_ft w) = FT_fiber (Some f)"
    | (cb) c where "ft_item (w_ft w) = FT_cb (Some c)"
    by (cases "ft_item (w_ft w)") auto
  then show ?thesis
  proof cases
    case fiber
    have f: "f \<notin> I" using assms(3) fiber by (simp add: worker_free_def task_free_def)
    consider (ended) "w' = w\<lparr>w_pc := At_pick\<rparr>" "s' = s" "g' = g"
      | (run) t1 where "Fiber_swapIn f (w_tls w, g) = Inr (t1, g')"
        "w' = w\<lparr>w_tls := t1, w_pc := In_fiber f\<rparr>"
        "s' = s\<lparr>m_active_thread_count := m_active_thread_count s + 1\<rparr>"
      using assms(1) fiber by (auto dest!: fiber_bindD simp: run_dispatch_def result_simps split: if_splits)
    then show ?thesis
    proof cases
      case run
      from st_of_swapIn [OF run(1)] f have "idle_alive I g'"
        by (intro idle_alive_upd [OF assms(4)]) auto
      with st_of_swapIn [OF run(1)] run f assms(3) show ?thesis by (simp add: worker_free_def)
    qed (use assms in \<open>auto simp: worker_free_def\<close>)
  next
    case cb
    obtain b g1 t1 where p: "prepare_cb_fiber a dflt c w g = Inr (b, g1)"
      and sw: "Fiber_swapIn b (w_tls w, g1) = Inr (t1, g')"
      and eq: "w' = w\<lparr>w_tls := t1, w_pc := In_cb b, w_ft := FT_reset, w_cb_fiber := Some b\<rparr>"
        "s' = s\<lparr>m_active_thread_count := m_active_thread_count s + 1\<rparr>"
      using assms(1) cb by (auto simp: run_dispatch_def result_simps)
    note b = prepare_cb_free [OF p assms(3,5,4)]
    from st_of_swapIn [OF sw] b have "idle_alive I g'"
      by (intro idle_alive_upd [OF assms(4)]) auto
    with st_of_swapIn [OF sw] b eq assms(3) show ?thesis by (auto simp: worker_free_def)
  qed
qed


lemma leave_idle_alive:
  assumes lv: "Fiber_leave l f (t, g) = Inr (t', g')" "t_fiber t = Some f"
    and I: "idle_alive I g" "f \<in> I \<longrightarrow> l \<in> {Leave_bare, Leave_Hold}"
  shows "idle_alive I g'"
proof (rule idle_alive_upd [OF I(1)])
  fix i assume i: "i \<in> I" "st_of g' i \<noteq> st_of g i"
  then have "i = f" using st_of_leave [OF lv] by auto
  then show "st_of g' i \<notin> {None, Some TERM_st}"
    using i st_of_leave [OF lv] I(2) by auto
qed

lemma leave_free:
  assumes "run_leave l w g = Inr (w', g')" "worker_free I w" "idle_alive I g"
    "w_pc w = In_idle \<longrightarrow> l \<in> {Leave_bare, Leave_Hold}"
  shows "worker_free I w' \<and> w_idle_fiber w' = w_idle_fiber w \<and> idle_alive I g'"
proof -
  have *: "worker_free I w' \<and> w_idle_fiber w' = w_idle_fiber w \<and> idle_alive I g'"
    if "rbind (Fiber_leave l f (w_tls w, g)) (\<lambda>(t1, g1). Inr (w\<lparr>w_tls := t1, w_pc := p\<rparr>, g1)) =
        Inr (w', g')"
      and "t_fiber (w_tls w) = Some f" and "f \<in> I \<longrightarrow> l \<in> {Leave_bare, Leave_Hold}"
      and "p \<in> {After_fiber f, After_cb f} \<and> f \<notin> I \<or> p = After_idle" for f p
  proof -
    from that(1) obtain t1 where "Fiber_leave l f (w_tls w, g) = Inr (t1, g')"
      and "w' = w\<lparr>w_tls := t1, w_pc := p\<rparr>" by (auto simp: result_simps)
    with leave_idle_alive [OF _ that(2) assms(3) that(3)] that(4) assms(2)
    show ?thesis by (auto simp: worker_free_def)
  qed
  note free = assms(2) [unfolded worker_free_def]
  show ?thesis
  proof (cases "w_pc w")
    case (In_fiber f)
    then show ?thesis
      using assms(1) free by (intro * [of f "After_fiber f"]) (simp_all add: run_leave_def)
  next
    case (In_cb f)
    then show ?thesis
      using assms(1) free by (intro * [of f "After_cb f"]) (simp_all add: run_leave_def)
  next
    case In_idle
    then show ?thesis
      using assms(1,4) free
      by (intro * [of "w_idle_fiber w" After_idle]) (simp_all add: run_leave_def)
  qed (use assms in \<open>simp_all add: run_leave_def\<close>)
qed

lemma after_free:
  assumes "run_after w s g = Inr (w', s', g')" "worker_free I w" "idle_alive I g"
    "\<forall>t \<in> set (m_fibers s). task_free I t"
  shows "worker_free I w' \<and> w_idle_fiber w' = w_idle_fiber w \<and> m_stopping s' = m_stopping s \<and>
    (\<forall>t \<in> set (m_fibers s'). task_free I t) \<and> idle_alive I g'"
  using assms(1)
proof (cases rule: run_after_cases)
  case stay
  then show ?thesis using assms by simp
next
  case (again f)
  from again(4) obtain ft where w': "w' = w\<lparr>w_ft := ft, w_pc := At_pick\<rparr>" ..
  with again show ?thesis using assms(2-4) by (auto simp: worker_free_def task_free_def FT_reset_def)
next
  case (ended f)
  then show ?thesis using assms(2-4) by (simp add: worker_free_def)
next
  case (cb_ended f)
  have "idle_alive I g'"
    using st_of_reset [OF cb_ended(2)] by (intro idle_alive_upd [OF assms(3)]) auto
  with cb_ended show ?thesis using assms(2-4) by (simp add: worker_free_def)
next
  case (held f)
  from held(4) obtain ft cb where w': "w' = w\<lparr>w_ft := ft, w_pc := At_pick, w_cb_fiber := cb\<rparr>" ..
  have "idle_alive I g'"
    using st_of_setState [OF held(2)] by (intro idle_alive_upd [OF assms(3)]) auto
  with held(3,5,6) w' show ?thesis using assms(2-4) by (auto simp: worker_free_def)
next
  case idle
  have "idle_alive I g'"
    using idle(2) assms(3) st_of_setState [of "w_idle_fiber w" HOLD g g']
    by (elim disjE) (auto intro!: idle_alive_upd [OF assms(3)] split: if_splits)
  with idle show ?thesis using assms(2-4) by (simp add: worker_free_def)
qed

lemma idles_upd:
  "w_thr W tid = Some w \<Longrightarrow> w_idle_fiber w' = w_idle_fiber w \<Longrightarrow>
   idles (W\<lparr>w_sched := s, w_glob := g, w_thr := (w_thr W)(tid \<mapsto> w')\<rparr>) = idles W"
proof -
  assume w: "w_thr W tid = Some w" "w_idle_fiber w' = w_idle_fiber w"
  have "w_idle_fiber ` ran ((w_thr W)(tid \<mapsto> w')) = w_idle_fiber ` ran (w_thr W)"
  proof -
    have "ran (w_thr W) = insert w (ran ((w_thr W)(tid := None)))"
      using w(1) by (metis fun_upd_triv fun_upd_upd fun_upd_same ran_map_upd)
    moreover have "ran ((w_thr W)(tid \<mapsto> w')) = insert w' (ran ((w_thr W)(tid := None)))"
      by (metis fun_upd_upd fun_upd_same ran_map_upd)
    ultimately show ?thesis using w(2) by simp
  qed
  then show ?thesis by (simp add: idles_def Setcompr_eq_image)
qed

lemma idle_inv_upd:
  assumes "idle_inv W" "w_thr W tid = Some w" "w_idle_fiber w' = w_idle_fiber w"
    "worker_free (idles W) w'" "\<not> m_stopping s" "\<forall>t \<in> set (m_fibers s). task_free (idles W) t"
    "idle_alive (idles W) g"
  shows "idle_inv (W\<lparr>w_sched := s, w_glob := g, w_thr := (w_thr W)(tid \<mapsto> w')\<rparr>)"
  using assms(1,4-7) unfolding idle_inv_def idles_upd [OF assms(2,3)] by simp

lemma idle_invD:
  assumes "idle_inv W" "w_thr W tid = Some w"
  shows "worker_free (idles W) w" "idle_alive (idles W) (w_glob W)"
    "\<forall>t \<in> set (m_fibers (w_sched W)). task_free (idles W) t" "\<not> m_stopping (w_sched W)"
  using assms unfolding idle_inv_def by blast+

lemma idle_inv_step: "world_step W W' \<Longrightarrow> idle_inv W \<Longrightarrow> idle_inv W'"
proof (induction rule: world_step.induct)
  case (ws_schedule fc W thr)
  then have "task_free (idles W) \<lparr>ft_item = fc, ft_thread = thr\<rparr>"
    by (cases fc) (auto simp: task_free_def split: option.split)
  moreover have "idles (W\<lparr>w_sched := schedule fc thr (w_sched W)\<rparr>) = idles W"
    by (simp add: idles_def)
  ultimately show ?case using ws_schedule(2) by (simp add: idle_inv_def)
next
  case (ws_new_fiber W a cb sz uc dflt st)
  then have "idle_alive (idles W) (w_glob W)" unfolding idle_inv_def by blast
  then have "idle_alive (idles W) (Fiber_new a cb sz uc dflt st (w_glob W))"
    by (rule idle_alive_upd) (auto split: if_splits)
  moreover have "idles (W\<lparr>w_glob := Fiber_new a cb sz uc dflt st (w_glob W)\<rparr>) = idles W"
    by (simp add: idles_def)
  ultimately show ?case using ws_new_fiber(2) by (simp add: idle_inv_def)
next
  case (ws_pick W tid w w' s')
  note inv = idle_invD [OF ws_pick(4,1)]
  from pick_free [OF ws_pick(3,2) inv(1,3)] inv(2,4) show ?case
    using idle_inv_upd [OF ws_pick(4,1), of w' s' "w_glob W"] by simp
next
  case (ws_dispatch W tid w a dflt w' s' g')
  note inv = idle_invD [OF ws_dispatch(5,1)]
  from dispatch_free [OF ws_dispatch(4,2) inv(1,2) ws_dispatch(3)] inv(3,4) show ?case
    using idle_inv_upd [OF ws_dispatch(5,1), of w' s' g'] by simp
next
  case (ws_leave W tid w f l w' g')
  note inv = idle_invD [OF ws_leave(4,1)]
  have "w_pc w = In_idle \<longrightarrow> l \<in> {Leave_bare, Leave_Hold}" using ws_leave(2) by auto
  from leave_free [OF ws_leave(3) inv(1,2) this] inv(3,4) show ?case
    using idle_inv_upd [OF ws_leave(4,1), of w' "w_sched W" g'] by simp
next
  case (ws_idle W tid w l w' g')
  note inv = idle_invD [OF ws_idle(5,1)]
  have "w_pc w = In_idle \<longrightarrow> l \<in> {Leave_bare, Leave_Hold}"
    using ws_idle(3) inv(4) by (auto simp: idle_turn_def stopping_def)
  from leave_free [OF ws_idle(4) inv(1,2) this] inv(3,4) show ?case
    using idle_inv_upd [OF ws_idle(5,1), of w' "w_sched W" g'] by simp
next
  case (ws_after W tid w f w' s' g')
  note inv = idle_invD [OF ws_after(4,1)]
  from after_free [OF ws_after(3) inv(1,2,3)] inv(4) show ?case
    using idle_inv_upd [OF ws_after(4,1), of w' s' g'] by simp
qed

end
