(* ===== verification/Scheduler_System.thy ===== *)
theory Scheduler_System
  imports Scheduler
begin

text \<open>
  The scheduler as a system of workers: an executable form of the step relation of theory
  \<open>Scheduler\<close>, with which concrete runs are evaluated, and the properties of the scheduler.
\<close>

section \<open>Running the system\<close>

text \<open>An executable scheduler of the steps, for concrete runs; \<open>tids\<close> lists the threads.\<close>

datatype 'cb act =
    Act_schedule "'cb fiber_or_cb" int
  | Act_pick int
  | Act_dispatch int nat
  | Act_leave int leave
  | Act_after int

definition at_worker :: "'cb world \<Rightarrow> int \<Rightarrow> pc set \<Rightarrow> ('cb worker \<Rightarrow> 'cb world option) \<Rightarrow> 'cb world option" where
  "at_worker W tid ps k =
     (case w_thr W tid of Some w \<Rightarrow> if w_pc w \<in> ps then k w else None | None \<Rightarrow> None)"

definition ok_step :: "'a result \<Rightarrow> ('a \<Rightarrow> 'cb world) \<Rightarrow> 'cb world option" where
  "ok_step r k = (case r of Inr x \<Rightarrow> Some (k x) | Inl e \<Rightarrow> None)"

definition pc_fiber :: "pc \<Rightarrow> nat" where
  "pc_fiber p = (case p of In_fiber f \<Rightarrow> f | In_cb f \<Rightarrow> f | After_fiber f \<Rightarrow> f | After_cb f \<Rightarrow> f | _ \<Rightarrow> 0)"

fun exec_act :: "int list \<Rightarrow> 'cb act \<Rightarrow> 'cb world \<Rightarrow> 'cb world option" where
  "exec_act tids (Act_schedule fc thr) W =
     (if list_all (\<lambda>tid. case w_thr W tid of None \<Rightarrow> True
                         | Some w \<Rightarrow> (case fc of FT_fiber (Some f) \<Rightarrow> f \<noteq> w_idle_fiber w | _ \<Rightarrow> True)) tids
      then Some (W\<lparr>w_sched := schedule fc thr (w_sched W)\<rparr>) else None)"
| "exec_act tids (Act_pick tid) W =
     at_worker W tid {At_pick} (\<lambda>w. ok_step (run_pick tid w (w_sched W) (w_glob W))
       (\<lambda>(w', s'). W\<lparr>w_sched := s', w_thr := (w_thr W)(tid \<mapsto> w')\<rparr>))"
| "exec_act tids (Act_dispatch tid a) W =
     at_worker W tid {At_dispatch} (\<lambda>w.
       if fheap (w_glob W) a = None then
         ok_step (run_dispatch a 0 w (w_sched W) (w_glob W))
           (\<lambda>(w', s', g'). W\<lparr>w_sched := s', w_glob := g', w_thr := (w_thr W)(tid \<mapsto> w')\<rparr>)
       else None)"
| "exec_act tids (Act_leave tid l) W =
     (case w_thr W tid of None \<Rightarrow> None | Some w \<Rightarrow>
        if w_pc w \<in> {In_fiber (pc_fiber (w_pc w)), In_cb (pc_fiber (w_pc w))} \<or>
           w_pc w = In_idle \<and> l \<in> {Leave_bare, idle_turn (w_sched W)}
        then ok_step (run_leave l w (w_glob W))
               (\<lambda>(w', g'). W\<lparr>w_glob := g', w_thr := (w_thr W)(tid \<mapsto> w')\<rparr>)
        else None)"
| "exec_act tids (Act_after tid) W =
     (case w_thr W tid of None \<Rightarrow> None | Some w \<Rightarrow>
        if w_pc w \<in> {After_fiber (pc_fiber (w_pc w)), After_cb (pc_fiber (w_pc w)), After_idle}
        then ok_step (run_after w (w_sched W) (w_glob W))
               (\<lambda>(w', s', g'). W\<lparr>w_sched := s', w_glob := g', w_thr := (w_thr W)(tid \<mapsto> w')\<rparr>)
        else None)"

fun exec_acts :: "int list \<Rightarrow> 'cb act list \<Rightarrow> 'cb world \<Rightarrow> 'cb world option" where
  "exec_acts tids [] W = Some W"
| "exec_acts tids (a # as) W = (case exec_act tids a W of None \<Rightarrow> None | Some W' \<Rightarrow> exec_acts tids as W')"

lemma exec_act_step:
  assumes "exec_act tids a W = Some W'" and "dom (w_thr W) \<subseteq> set tids"
  shows "world_step W W' \<and> dom (w_thr W') \<subseteq> set tids"
proof (cases a)
  case (Act_schedule fc thr)
  have "fc \<notin> {FT_fiber (Some i) | i. i \<in> idles W}"
  proof
    assume "fc \<in> {FT_fiber (Some i) | i. i \<in> idles W}"
    then obtain tid w where "fc = FT_fiber (Some (w_idle_fiber w))" "w_thr W tid = Some w"
      by (auto simp: idles_def ran_def)
    moreover from this have "tid \<in> set tids" using assms(2) by auto
    ultimately show False
      using assms(1) Act_schedule by (auto simp: list_all_iff split: if_splits) 
  qed
  then show ?thesis
    using assms ws_schedule [of fc W thr] by (auto simp: Act_schedule split: if_splits)
next
  case (Act_pick tid)
  then show ?thesis
    using assms
    by (auto simp: at_worker_def ok_step_def domIff intro: ws_pick split: option.splits if_splits sum.splits)
next
  case (Act_dispatch tid b)
  then show ?thesis
    using assms
    by (auto simp: at_worker_def ok_step_def domIff intro: ws_dispatch split: option.splits if_splits sum.splits)
next
  case (Act_leave tid l)
  then show ?thesis
    using assms
    by (auto simp: ok_step_def domIff intro: ws_leave ws_idle split: option.splits if_splits sum.splits)
next
  case (Act_after tid)
  then show ?thesis
    using assms
    by (auto simp: ok_step_def domIff intro: ws_after split: option.splits if_splits sum.splits)
qed

lemma exec_acts_steps:
  "exec_acts tids as W = Some W' \<Longrightarrow> dom (w_thr W) \<subseteq> set tids \<Longrightarrow> world_step\<^sup>*\<^sup>* W W'"
proof (induction as arbitrary: W)
  case (Cons a as)
  then obtain W1 where W1: "exec_act tids a W = Some W1" "exec_acts tids as W1 = Some W'"
    by (auto split: option.splits)
  from exec_act_step [OF this(1) Cons.prems(2)] Cons.IH [OF W1(2)] show ?case
    by (auto intro: converse_rtranclp_into_rtranclp)
qed simp

definition sched_running :: "'cb sched" where
  "sched_running = \<lparr>m_fibers = [], m_threads = [1, 2], m_thread_ids = [1, 2], m_thread_count = 2,
     m_active_thread_count = 0, m_idle_thread_count = 0, m_stopping = False, m_auto_stop = True,
     m_root_thread_id = -1, m_root_fiber = None, tickles = 0\<rparr>"

text \<open>Two workers at the start of their loops and a new fiber at address 5.\<close>

definition demo_world :: "nat world" where
  "demo_world =
     (let r1 = run_begin 10 11 100 1024 1 tls_init sched_running fglobal_init;
          r2 = run_begin 20 21 100 1024 2 tls_init sched_running (snd r1)
      in \<lparr>w_sched = sched_running, w_glob = Fiber_new 5 (Some 7) 0 False 1024 True (snd r2),
          w_thr = [1 \<mapsto> fst r1, 2 \<mapsto> fst r2]\<rparr>)"

lemma run_begin_simps [simp]:
  "w_pc (fst (run_begin a b idle dflt tid t s g)) = At_pick"
  "w_idle_fiber (fst (run_begin a b idle dflt tid t s g)) = b"
  "w_cb_fiber (fst (run_begin a b idle dflt tid t s g)) = None"
  "ft_item (w_ft (fst (run_begin a b idle dflt tid t s g))) = FT_fiber None"
  by (simp_all add: run_begin_def Let_def split: prod.split)

lemma demo_world_simps:
  "w_sched demo_world = sched_running" "dom (w_thr demo_world) = {1, 2}"
  "w_thr demo_world tid = Some w \<Longrightarrow> w_pc w = At_pick \<and> w_cb_fiber w = None \<and>
     ft_item (w_ft w) = FT_fiber None"
  by (auto simp: demo_world_def Let_def split: if_splits)

lemma demo_world_idles: "idles demo_world = {11, 21}"
proof -
  have "idles demo_world = w_idle_fiber ` ran (w_thr demo_world)" by (auto simp: idles_def)
  then show ?thesis by (simp add: demo_world_def Let_def insert_commute)
qed

definition two_runs :: "nat act list" where
  "two_runs =
     [Act_schedule (FT_fiber (Some 5)) (-1), Act_pick 1, Act_dispatch 1 30, Act_leave 1 Leave_Hold,
      Act_schedule (FT_fiber (Some 5)) (-1), Act_pick 2, Act_dispatch 2 30, Act_after 1,
      Act_schedule (FT_fiber (Some 5)) (-1), Act_pick 1, Act_dispatch 1 30]"

lemma two_runs_pcs:
  "map_option (\<lambda>W. (map_option w_pc (w_thr W 1), map_option w_pc (w_thr W 2)))
     (exec_acts [1, 2] two_runs demo_world) = Some (Some (In_fiber 5), Some (In_fiber 5))"
  by code_simp

definition demo_worker :: "nat worker" where
  "demo_worker = \<lparr>w_tls = demo_tls, w_pc = At_pick, w_ft = FT_reset, w_idle_fiber = 2,
     w_cb_fiber = None, w_hook = True\<rparr>"

lemma idle_inv_steps: "world_step\<^sup>*\<^sup>* W W' \<Longrightarrow> idle_inv W \<Longrightarrow> idle_inv W'"
  by (induction rule: rtranclp_induct) (auto intro: idle_inv_step)

lemma world_step_threads: "world_step W W' \<Longrightarrow> dom (w_thr W') = dom (w_thr W)"
  by (induction rule: world_step.induct) (auto simp: domIff split: if_splits)

lemma world_steps_threads: "world_step\<^sup>*\<^sup>* W W' \<Longrightarrow> dom (w_thr W') = dom (w_thr W)"
  by (induction rule: rtranclp_induct) (simp_all add: world_step_threads)

text \<open>The pool's workers at the head of the loop of \<open>run()\<close>.\<close>

definition workers_ready :: "'cb fglobal \<Rightarrow> (int \<Rightarrow> 'cb worker option) \<Rightarrow> bool" where
  "workers_ready g thr \<longleftrightarrow> finite (dom thr) \<and>
     (\<forall>w \<in> ran thr. w_pc w = At_pick \<and> w_cb_fiber w = None \<and> ft_item (w_ft w) = FT_fiber None \<and>
        st_of g (w_idle_fiber w) \<notin> {None, Some TERM_st})"

lemma workers_ready_idle_inv:
  assumes "workers_ready g thr" and "\<not> m_stopping s" and "m_fibers s = []"
  shows "idle_inv \<lparr>w_sched = s, w_glob = g, w_thr = thr\<rparr>"
  using assms
  by (auto simp: idle_inv_def idles_def idle_alive_def workers_ready_def worker_free_def task_free_def ran_def)

text \<open>A fiber that is neither queued nor in a worker's hands, such as one that is still to be created.\<close>

definition unused_fiber :: "nat \<Rightarrow> 'cb world \<Rightarrow> bool" where
  "unused_fiber d W \<longleftrightarrow> (\<forall>t \<in> set (m_fibers (w_sched W)). ft_item t \<noteq> FT_fiber (Some d)) \<and>
     (\<forall>tid w. w_thr W tid = Some w \<longrightarrow> ft_item (w_ft w) \<noteq> FT_fiber (Some d) \<and> w_cb_fiber w \<noteq> Some d \<and>
        w_pc w \<notin> {In_fiber d, In_cb d, After_fiber d, After_cb d})"

lemma task_free_insert: "task_free I t \<Longrightarrow> ft_item t \<noteq> FT_fiber (Some d) \<Longrightarrow> task_free (insert d I) t"
  by (auto simp: task_free_def split: fiber_or_cb.splits option.splits)

lemma worker_free_insert:
  "worker_free I w \<Longrightarrow> ft_item (w_ft w) \<noteq> FT_fiber (Some d) \<Longrightarrow> w_cb_fiber w \<noteq> Some d \<Longrightarrow>
   w_pc w \<notin> {In_fiber d, In_cb d, After_fiber d, After_cb d} \<Longrightarrow> worker_free (insert d I) w"
  by (auto simp: worker_free_def task_free_insert split: pc.splits)

text \<open>A thread that begins \<open>run()\<close>.\<close>

lemma run_begin_st:
  "f \<noteq> d \<Longrightarrow> st_of g f \<notin> {None, Some TERM_st} \<Longrightarrow>
   st_of (snd (run_begin c d idle dflt tid t s g)) f \<notin> {None, Some TERM_st}"
  "st_of (snd (run_begin c d idle dflt tid t s g)) d = Some INIT"
  by (simp_all add: run_begin_def Fiber_GetThis_def Fiber_main_new_def Fiber_new_def st_of_def Let_def
      split: option.splits prod.splits)

lemma run_begin_idle_inv:
  assumes inv: "idle_inv W" and new: "w_thr W tid = None" "unused_fiber d W"
    and s: "m_stopping s = m_stopping (w_sched W)" "m_fibers s = m_fibers (w_sched W)"
    and g: "\<And>f. st_of (w_glob W) f \<notin> {None, Some TERM_st} \<Longrightarrow> st_of g f \<notin> {None, Some TERM_st}"
    and run: "(w, g') = run_begin c d idle dflt tid t s g"
  shows "idle_inv \<lparr>w_sched = s, w_glob = g', w_thr = (w_thr W)(tid \<mapsto> w)\<rparr>"
proof -
  have w: "w = fst (run_begin c d idle dflt tid t s g)" "g' = snd (run_begin c d idle dflt tid t s g)"
    using run by (metis fst_conv snd_conv)+
  let ?W = "\<lparr>w_sched = s, w_glob = g', w_thr = (w_thr W)(tid \<mapsto> w)\<rparr>"
  have I: "idles ?W = insert d (idles W)"
  proof -
    have "idles V = w_idle_fiber ` ran (w_thr V)" for V :: "'a world" by (auto simp: idles_def)
    then show ?thesis using new(1) by (simp add: w)
  qed
  have "st_of g' i \<notin> {None, Some TERM_st}" if "i \<in> insert d (idles W)" for i
  proof (cases "i = d")
    case False
    then have "st_of (w_glob W) i \<notin> {None, Some TERM_st}"
      using inv that unfolding idle_inv_def idle_alive_def by blast
    from run_begin_st(1) [OF False g [OF this]] show ?thesis unfolding w(2) .
  qed (simp add: w(2) run_begin_st(2))
  then have "idle_alive (insert d (idles W)) g'" by (simp add: idle_alive_def)
  moreover have "\<forall>x \<in> set (m_fibers s). task_free (insert d (idles W)) x"
    using inv new(2) s(2) by (auto simp: idle_inv_def unused_fiber_def intro: task_free_insert)
  moreover have "worker_free (insert d (idles W)) w"
    by (simp add: w worker_free_def task_free_def)
  moreover have "worker_free (insert d (idles W)) v" if "w_thr W u = Some v" for u v
    using inv new(2) that unfolding idle_inv_def unused_fiber_def by (blast intro: worker_free_insert)
  ultimately show ?thesis
    using inv s(1) unfolding idle_inv_def I by (auto split: if_splits)
qed

section \<open>Properties\<close>

text \<open>
  C16 (scheduler_pick_correct). A worker's search of the queue never fails when every queued fiber is a live
  object, and takes the first task the worker may run: one that is not pinned to another thread and
  is not a fiber in \<open>EXEC\<close>. Every other task keeps its place. Another thread is woken exactly when a
  task pinned elsewhere was passed over or tasks remain behind the one taken. With nothing
  to run, the worker goes on to its idle fiber and the queue is unchanged.
\<close>

theorem scheduler_pick_correct:
  assumes "\<forall>t \<in> set (m_fibers s). task_ok g t"
  shows "\<exists>w' s'. run_pick tid w s g = Inr (w', s') \<and> w_pc w' = At_dispatch \<and>
    (if \<exists>t \<in> set (m_fibers s). eligible g tid t then
       \<exists>pre t post. m_fibers s = pre @ t # post \<and> m_fibers s' = pre @ post \<and> w_ft w' = t \<and>
         eligible g tid t \<and> (\<forall>x \<in> set pre. \<not> eligible g tid x) \<and>
         tickles s' = tickles s +
           (if (\<exists>x \<in> set pre. pinned_elsewhere tid x) \<or> post \<noteq> [] then 1 else 0)
     else w_ft w' = FT_reset \<and> m_fibers s' = m_fibers s \<and>
       tickles s' = tickles s + (if \<exists>x \<in> set (m_fibers s). pinned_elsewhere tid x then 1 else 0))"
proof -
  obtain p r tk where sc: "scan g tid (m_fibers s) = Inr (p, r, tk)"
    using scan_total [of "m_fibers s" g tid] assms by (cases "scan g tid (m_fibers s)") auto
  then have run: "run_pick tid w s g =
      Inr (w\<lparr>w_ft := (case p of Some t \<Rightarrow> t | None \<Rightarrow> FT_reset), w_pc := At_dispatch\<rparr>,
           if tk then tickle (s\<lparr>m_fibers := r\<rparr>) else s\<lparr>m_fibers := r\<rparr>)"
    by (simp add: run_pick_def Let_def)
  show ?thesis
  proof (cases p)
    case None
    then show ?thesis using scan_spec [OF sc] run by auto
  next
    case (Some t)
    then obtain pre post where "m_fibers s = pre @ t # post" "r = pre @ post" "eligible g tid t"
      "\<forall>x \<in> set pre. \<not> eligible g tid x"
      "tk = ((\<exists>x \<in> set pre. pinned_elsewhere tid x) \<or> post \<noteq> [])"
      using scan_spec [OF sc] by auto
    note found = this
    let ?s = "if tk then tickle (s\<lparr>m_fibers := r\<rparr>) else s\<lparr>m_fibers := r\<rparr>"
    have "\<exists>pre t' post. m_fibers s = pre @ t' # post \<and> m_fibers ?s = pre @ post \<and> t = t' \<and>
        eligible g tid t' \<and> (\<forall>x \<in> set pre. \<not> eligible g tid x) \<and>
        tickles ?s = tickles s +
          (if (\<exists>x \<in> set pre. pinned_elsewhere tid x) \<or> post \<noteq> [] then 1 else 0)"
      using found by (intro exI [of _ pre] exI [of _ t] exI [of _ post]) simp
    moreover have "\<exists>t \<in> set (m_fibers s). eligible g tid t" using found by auto
    ultimately show ?thesis
      using run Some
      by (intro exI [of _ "w\<lparr>w_ft := t, w_pc := At_dispatch\<rparr>"] exI [of _ ?s]) simp
  qed
qed

theorem scheduler_pick_correct_witness:
  "\<exists>w' s'. run_pick 1 demo_worker (sched_running\<lparr>m_fibers :=
      [\<lparr>ft_item = FT_cb (Some 1), ft_thread = 9\<rparr>, \<lparr>ft_item = FT_fiber (Some 1), ft_thread = -1\<rparr>,
       \<lparr>ft_item = FT_fiber (Some 2), ft_thread = 1\<rparr>]\<rparr>) demo_fibers = Inr (w', s') \<and>
     w_pc w' = At_dispatch \<and> w_ft w' = \<lparr>ft_item = FT_fiber (Some 2), ft_thread = 1\<rparr>"
proof -
  let ?s = "sched_running\<lparr>m_fibers :=
      [\<lparr>ft_item = FT_cb (Some 1), ft_thread = 9\<rparr>, \<lparr>ft_item = FT_fiber (Some 1), ft_thread = -1\<rparr>,
       \<lparr>ft_item = FT_fiber (Some 2), ft_thread = 1\<rparr>]\<rparr>"
  have "\<forall>t \<in> set (m_fibers ?s). task_ok demo_fibers t"
    by (simp add: task_ok_def demo_fibers_def)
  from scheduler_pick_correct [OF this, of 1 demo_worker] obtain w' s' where
    "run_pick 1 demo_worker ?s demo_fibers = Inr (w', s')" "w_pc w' = At_dispatch" by blast
  moreover from this have "w_ft w' = \<lparr>ft_item = FT_fiber (Some 2), ft_thread = 1\<rparr>"
    by (auto simp: run_pick_def demo_fibers_def fiber_get_def Let_def)
  ultimately show ?thesis by blast
qed

text \<open>
  C9 (scheduler_counters). In every interleaving of the workers' steps and of clients queueing tasks,
  \<open>m_active_thread_count\<close> is the number of workers inside a task (from the increment to the decrement
  around the switch) and \<open>m_idle_thread_count\<close> the number inside their idle fibers.
\<close>

theorem scheduler_counters:
  assumes "counters_ok W" and "world_step\<^sup>*\<^sup>* W W'"
  shows "counters_ok W'"
  using assms(2,1) by (induction rule: rtranclp_induct) (auto intro: counters_ok_step)

lemma exec_acts_reach:
  assumes "map_option P (exec_acts tids as W) = Some x" and "dom (w_thr W) \<subseteq> set tids"
  shows "\<exists>W'. world_step\<^sup>*\<^sup>* W W' \<and> P W' = x"
  using assms exec_acts_steps by fastforce

theorem scheduler_counters_witness:
  "\<exists>W' :: nat world. counters_ok W' \<and> map_option w_pc (w_thr W' 1) = Some (In_fiber 5) \<and>
     m_active_thread_count (w_sched W') = 2"
proof -
  have "map_option (\<lambda>W. (map_option w_pc (w_thr W 1), m_active_thread_count (w_sched W)))
      (exec_acts [1, 2] two_runs demo_world) = Some (Some (In_fiber 5), 2)"
    by code_simp
  from exec_acts_reach [OF this] demo_world_simps(2) obtain W' where W': "world_step\<^sup>*\<^sup>* demo_world W'"
    "map_option w_pc (w_thr W' 1) = Some (In_fiber 5)" "m_active_thread_count (w_sched W') = 2"
    by auto
  have "counters_ok demo_world"
  proof -
    have "at_pc active demo_world = {}" "at_pc idling demo_world = {}"
      by (auto simp: at_pc_def active_def idling_def dest!: demo_world_simps(3))
    then show ?thesis
      by (simp add: counters_ok_def demo_world_simps(1,2) sched_running_def)
  qed
  from scheduler_counters [OF this W'(1)] W'(2,3) show ?thesis by (intro exI [of _ W']) simp
qed

text \<open>
  Theorem (fiber_on_two_workers). The main loop sets a suspended fiber to \<open>HOLD\<close> after it switched away from
  it, without knowing whether the fiber has already been resumed elsewhere. A run shows the effect: a
  fiber yields on thread 1 and is queued again, thread 2 resumes it, thread 1 then overwrites its
  \<open>EXEC\<close> by \<open>HOLD\<close>, so that the next time it is queued thread 1 does not skip it, and two
  threads execute the same fiber, on the same stack.
\<close>

theorem fiber_on_two_workers:
  "\<exists>W'. world_step\<^sup>*\<^sup>* demo_world W' \<and>
     map_option w_pc (w_thr W' 1) = Some (In_fiber 5) \<and> map_option w_pc (w_thr W' 2) = Some (In_fiber 5)"
  using exec_acts_reach [OF two_runs_pcs] by (auto simp: demo_world_simps(2))

text \<open>
  Theorem (workers_stay_until_stopping). While \<open>m_stopping\<close> is false no worker leaves \<open>run()\<close>, in any
  interleaving and whatever the tasks do: the idle fibers, the only way out of the loop, never end.
\<close>

theorem workers_stay_until_stopping:
  assumes "idle_inv W" and "world_step\<^sup>*\<^sup>* W W'" and "w_thr W' tid = Some w"
  shows "w_pc w \<noteq> Exited"
  using idle_invD(1) [OF idle_inv_steps [OF assms(2,1)] assms(3)] by (auto simp: worker_free_def)

lemma demo_world_idle_inv: "idle_inv demo_world"
proof -
  have "worker_free {11, 21} w" if "w_thr demo_world tid = Some w" for tid w
  proof -
    have "w_idle_fiber w \<in> idles demo_world" using that by (auto simp: idles_def ran_def)
    with demo_world_simps(3) [OF that] demo_world_idles show ?thesis
      by (simp add: worker_free_def task_free_def)
  qed
  moreover have "idle_alive {11, 21} (w_glob demo_world)"
    by (simp add: idle_alive_def demo_world_def run_begin_def Fiber_GetThis_def Fiber_main_new_def
        tls_init_def sched_running_def fglobal_init_def st_of_def Fiber_new_def fiber_set_def Let_def)
  ultimately show ?thesis
    by (simp add: idle_inv_def demo_world_simps(1) demo_world_idles) (simp add: sched_running_def)
qed

theorem workers_stay_until_stopping_witness:
  "\<exists>W' w. world_step\<^sup>*\<^sup>* demo_world W' \<and> w_thr W' 1 = Some w \<and> w_pc w \<noteq> Exited \<and>
     m_idle_thread_count (w_sched W') = 1"
proof -
  have "map_option (\<lambda>W. (w_thr W 1 = None, m_idle_thread_count (w_sched W)))
      (exec_acts [1, 2] [Act_pick 1, Act_dispatch 1 30, Act_leave 1 Leave_Hold] demo_world) =
      Some (False, 1)"
    by code_simp
  from exec_acts_reach [OF this] obtain W' where W': "world_step\<^sup>*\<^sup>* demo_world W'"
    "w_thr W' 1 \<noteq> None" "m_idle_thread_count (w_sched W') = 1"
    by (auto simp: demo_world_simps(2))
  then obtain w where "w_thr W' 1 = Some w" by auto
  with workers_stay_until_stopping [OF demo_world_idle_inv W'(1)] W' show ?thesis by auto
qed

text \<open>
  Theorem (callback_after_yield_aborts). When a callback calls \<open>Yield_to_Ready\<close>, the main loop puts its fiber
  back into the queue but keeps it in \<open>cb_fiber\<close>. If the next task this worker takes is a callback and the
  fiber has not ended in the meantime, \<open>cb_fiber->reset\<close> fails its assertion and the process aborts.
\<close>

theorem callback_after_yield_aborts:
  assumes "w_pc w = After_cb f" and "w_cb_fiber w = Some f" and "fheap g f = Some fb"
    and "m_state fb = READY" and "run_after w s g = Inr (w', s', g')"
    and "w_cb_fiber w2 = w_cb_fiber w'" and "ft_item (w_ft w2) = FT_cb (Some c)"
    and "st_of g2 f \<in> {Some READY, Some EXEC, Some HOLD}"
  shows "m_fibers s' = m_fibers s @ [\<lparr>ft_item = FT_fiber (Some f), ft_thread = -1\<rparr>] \<and>
    (\<exists>e. run_dispatch a dflt w2 s2 g2 = Inl (Assertion e))"
proof -
  have w': "w' = w\<lparr>w_pc := At_pick\<rparr>"
    and s': "s' = schedule (FT_fiber (Some f)) (-1) (s\<lparr>m_active_thread_count := m_active_thread_count s - 1\<rparr>)"
    using assms(1,3-5) by (simp_all add: run_after_def Let_def)
  obtain fb2 where "fheap g2 f = Some fb2" "m_state fb2 \<in> {READY, EXEC, HOLD}"
    using assms(8) by (auto simp: st_of_def)
  then have "\<exists>e. Fiber_reset f (Some c) g2 = Inl (Assertion e)"
    by (auto simp: Fiber_reset_def SYLAR_ASSERT_def)
  then show ?thesis
    using assms(2,6,7) w' s' by (auto simp: run_dispatch_def prepare_cb_fiber_def)
qed

theorem callback_after_yield_aborts_witness:
  "\<exists>w' s' g'. run_after (demo_worker\<lparr>w_pc := After_cb 2, w_cb_fiber := Some 2\<rparr>) sched_running
       (fiber_set 2 ((the (fheap demo_fibers 2))\<lparr>m_state := READY\<rparr>) demo_fibers) = Inr (w', s', g') \<and>
     (\<exists>e. run_dispatch 50 0 (w'\<lparr>w_ft := \<lparr>ft_item = FT_cb (Some 9), ft_thread = -1\<rparr>\<rparr>) s' g' =
        Inl (Assertion e))"
proof -
  let ?w = "demo_worker\<lparr>w_pc := After_cb 2, w_cb_fiber := Some 2\<rparr>"
  let ?fb = "(the (fheap demo_fibers 2))\<lparr>m_state := READY\<rparr>"
  let ?g = "fiber_set 2 ?fb demo_fibers"
  obtain w' s' where run: "run_after ?w sched_running ?g = Inr (w', s', ?g)"
    by (simp add: run_after_def Let_def)
  have "\<exists>e. run_dispatch 50 0 (w'\<lparr>w_ft := \<lparr>ft_item = FT_cb (Some 9), ft_thread = -1\<rparr>\<rparr>) s' ?g =
      Inl (Assertion e)"
    using callback_after_yield_aborts [of ?w 2 ?g ?fb, OF _ _ _ _ run,
        of "w'\<lparr>w_ft := \<lparr>ft_item = FT_cb (Some 9), ft_thread = -1\<rparr>\<rparr>" 9 ?g 50 0 s']
    by simp
  with run show ?thesis by blast
qed

text \<open>
  Theorem (schedule_range_as_singles). Queueing a range of callbacks under one lock leaves the queue, the
  counters and the number of wake-ups exactly as queueing them one by one would: the tasks are
  appended in order, one wake-up happens iff the queue was empty and the range is not, and the
  sources are left empty.
\<close>

theorem schedule_range_as_singles:
  "schedule_range cs s =
     (map (\<lambda>_. None) cs, fold (\<lambda>c. schedule (FT_cb c) (-1)) cs s) \<and>
   m_fibers (snd (schedule_range cs s)) =
     m_fibers s @ map (\<lambda>c. \<lparr>ft_item = FT_cb c, ft_thread = -1\<rparr>) cs \<and>
   tickles (snd (schedule_range cs s)) =
     tickles s + (if m_fibers s = [] \<and> cs \<noteq> [] then 1 else 0)"
proof -
  have nonempty: "fold (\<lambda>c. schedule (FT_cb c) (-1)) cs s =
      s\<lparr>m_fibers := m_fibers s @ map (\<lambda>c. \<lparr>ft_item = FT_cb c, ft_thread = -1\<rparr>) cs\<rparr>"
    if "m_fibers s \<noteq> []" for cs and s :: "'a sched"
    using that
    by (induction cs arbitrary: s) (simp_all add: schedule_def schedule_no_lock_def)
  show ?thesis
  proof (cases cs)
    case Nil
    then show ?thesis by (simp add: schedule_range_def schedule_range_loop_eq)
  next
    case (Cons c cs')
    show ?thesis
      using nonempty [of "schedule (FT_cb c) (-1) s" cs']
      by (simp add: Cons schedule_range_def schedule_range_loop_eq schedule_def
          schedule_no_lock_def tickle_def)
  qed
qed

text \<open>
  Theorem (null_task_crashes). The guard of \<open>schedule_no_lock\<close> tests which alternative of the variant is held
  and not whether it is empty, so a null \<open>Fiber::ptr\<close> is queued; the first worker that reaches it
  dereferences it.
\<close>

theorem null_task_crashes:
  assumes "m_fibers s = []" and "thr = -1 \<or> thr = tid"
  shows "\<exists>e. run_pick tid w (schedule (FT_fiber None) thr s) g = Inl (Null_deref e)"
  using assms by (auto simp: run_pick_def)

theorem null_task_crashes_witness:
  "\<exists>e. run_pick 3 demo_worker (schedule (FT_fiber None) 3 sched_running) demo_fibers = Inl (Null_deref e)"
  using null_task_crashes [of sched_running 3 3] by (simp add: sched_running_def)

text \<open>
  C19 (worker_exits_when_stopping). Once \<open>stopping()\<close> holds, a worker that is about to search the queue
  leaves \<open>run()\<close>: it finds no task, enters its idle fiber, which ends, and at the next turn the
  loop breaks; the counters are as before.
\<close>

theorem worker_exits_when_stopping:
  assumes "stopping s" and "fibers_ok run M g" and "t_main (w_tls w) = Some m" and "m \<in> run" and "m \<in> M"
    and "fheap g (w_idle_fiber w) = Some fb" and "m_state fb \<in> {INIT, HOLD, READY}"
    and "fb_cb fb \<noteq> None" and "m_entry fb = Entry_MainFunc"
    and "w_idle_fiber w \<notin> run" and "w_idle_fiber w \<notin> M"
  shows "\<exists>w1 s1 w2 s2 g2 w3 g3 w4 s4 g4 w5 s5 w6 g6.
    run_pick tid w s g = Inr (w1, s1) \<and> run_dispatch a dflt w1 s1 g = Inr (w2, s2, g2) \<and>
    run_leave (idle_turn s2) w2 g2 = Inr (w3, g3) \<and> run_after w3 s2 g3 = Inr (w4, s4, g4) \<and>
    run_pick tid w4 s4 g4 = Inr (w5, s5) \<and> run_dispatch a dflt w5 s5 g4 = Inr (w6, s, g6) \<and>
    w_pc w6 = Exited"
proof -
  let ?i = "w_idle_fiber w"
  have empty: "m_fibers s = []" using assms(1) by (simp add: stopping_def)
  define w1 where "w1 = w\<lparr>w_ft := FT_reset, w_pc := At_dispatch\<rparr>"
  have 1: "run_pick tid w s g = Inr (w1, s)" by (simp add: run_pick_def empty w1_def Let_def)
  obtain mb where m: "fheap g m = Some mb" "m_state mb = EXEC"
    using fibers_ok_alive [OF assms(2)] assms(4) by blast
  have "?i \<noteq> m" using assms(4,10) by auto
  have ok: "ctx_ok fb" using fibers_ok_off [OF assms(2,10,6)] .
  let ?t2 = "(w_tls w)\<lparr>t_fiber := Some ?i, cpu := Some ?i\<rparr>"
  let ?g2 = "fiber_set m (mb\<lparr>m_ctx := Saved\<rparr>) (fiber_set ?i (fb\<lparr>m_state := EXEC\<rparr>) g)"
  define s2 where "s2 = s\<lparr>m_idle_thread_count := m_idle_thread_count s + 1\<rparr>"
  define w2 where "w2 = w1\<lparr>w_tls := ?t2, w_pc := In_idle\<rparr>"
  have 2: "run_dispatch a dflt w1 s g = Inr (w2, s2, ?g2)"
    using switch_in_eq [OF assms(6) m(1) \<open>?i \<noteq> m\<close>] ok assms(3,6,7)
    by (auto simp: run_dispatch_def dispatch_idle_def FT_reset_def w1_def w2_def s2_def
        Fiber_swapIn_def ctx_ok_def)
  have turn: "idle_turn s2 = Leave_end Body_returns"
    using assms(1) by (simp add: idle_turn_def stopping_def s2_def)
  define fb3 where "fb3 = leave_fiber (Leave_end Body_returns) (fb\<lparr>m_state := EXEC\<rparr>)"
  define w3 where "w3 = w2\<lparr>w_tls := ?t2\<lparr>t_fiber := Some m, cpu := Some m\<rparr>, w_pc := After_idle\<rparr>"
  have 3: "run_leave (idle_turn s2) w2 ?g2 = Inr (w3, fiber_set ?i fb3 ?g2)"
    unfolding turn
    using leave_eq [of ?g2 ?i "fb\<lparr>m_state := EXEC\<rparr>" m "mb\<lparr>m_ctx := Saved\<rparr>" ?t2
        "Leave_end Body_returns"] \<open>?i \<noteq> m\<close> assms(3,9)
    by (simp add: run_leave_def w2_def w1_def w3_def fb3_def)
  have fb3: "m_state fb3 = TERM_st"
    using assms(8) by (simp add: fb3_def leave_fiber_def body_end_def)
  define w4 where "w4 = w3\<lparr>w_pc := At_pick\<rparr>"
  have 4: "run_after w3 s2 (fiber_set ?i fb3 ?g2) = Inr (w4, s, fiber_set ?i fb3 ?g2)"
    by (simp add: run_after_def w4_def w3_def w2_def w1_def s2_def fb3)
  have 5: "run_pick tid w4 s (fiber_set ?i fb3 ?g2) =
      Inr (w4\<lparr>w_ft := FT_reset, w_pc := At_dispatch\<rparr>, s)"
    by (simp add: run_pick_def empty Let_def)
  have 6: "run_dispatch a dflt (w4\<lparr>w_ft := FT_reset, w_pc := At_dispatch\<rparr>) s (fiber_set ?i fb3 ?g2) =
      Inr (w4\<lparr>w_ft := FT_reset, w_pc := Exited\<rparr>, s, fiber_set ?i fb3 ?g2)"
    by (simp add: run_dispatch_def dispatch_idle_def FT_reset_def w4_def w3_def w2_def w1_def fb3)
  from 1 2 3 4 5 6 show ?thesis
    by (intro exI conjI) (assumption | simp)+
qed

theorem worker_exits_when_stopping_witness:
  "\<exists>w1 s1 w2 s2 g2 w3 g3 w4 s4 g4 w5 s5 w6 g6. let s = sched_running\<lparr>m_stopping := True\<rparr> in
    run_pick 1 demo_worker s demo_fibers = Inr (w1, s1) \<and>
    run_dispatch 50 0 w1 s1 demo_fibers = Inr (w2, s2, g2) \<and>
    run_leave (idle_turn s2) w2 g2 = Inr (w3, g3) \<and> run_after w3 s2 g3 = Inr (w4, s4, g4) \<and>
    run_pick 1 w4 s4 g4 = Inr (w5, s5) \<and> run_dispatch 50 0 w5 s5 g4 = Inr (w6, s, g6) \<and>
    w_pc w6 = Exited"
proof -
  have "stopping (sched_running\<lparr>m_stopping := True\<rparr>)"
    by (simp add: stopping_def sched_running_def)
  then show ?thesis
    unfolding Let_def
    by (rule worker_exits_when_stopping [where m = 1 and fb = "the (fheap demo_fibers 2)",
          OF _ demo_fibers_ok])
      (simp_all add: demo_worker_def demo_tls_def demo_fibers_def)
qed



text \<open>What the steps of a started scheduler leave as it is.\<close>

lemma world_step_root:
  "world_step W W' \<Longrightarrow> m_root_fiber (w_sched W') = m_root_fiber (w_sched W)"
proof (induction rule: world_step.induct)
  case (ws_pick W tid w w' s')
  then show ?case by (auto simp: run_pick_def result_simps tickle_def Let_def split: if_splits)
next
  case (ws_dispatch W tid w a dflt w' s' g')
  then show ?case by (auto simp: run_dispatch_def result_simps Let_def dispatch_idle_def split: if_splits fiber_or_cb.splits option.splits)
next
  case (ws_after W tid w f w' s' g')
  then show ?case
    by (auto simp: run_after_def result_simps Let_def schedule_def schedule_no_lock_def tickle_def split: if_splits pc.splits)
qed (simp_all add: schedule_def schedule_no_lock_def tickle_def Let_def)

lemma world_steps_root:
  "world_step\<^sup>*\<^sup>* W W' \<Longrightarrow> m_root_fiber (w_sched W') = m_root_fiber (w_sched W)"
  by (induction rule: rtranclp_induct) (simp_all add: world_step_root)




end
