(* ===== verification/IO_Manager.thy ===== *)
theory IO_Manager
  imports Timer Scheduler_System
begin

text \<open>
  The event loop of src/sylar/iomanager.h and src/sylar/iomanager.cc: a scheduler that also waits for
  file descriptors (epoll) and timers.

  \<open>m_fd_contexts\<close> is a vector of pointers that only grows; a context is named by its index. An
  event set is a 32-bit word over the bits of \<open>enum Event\<close>. The schedulers of the process are the
  function \<open>io_scheds\<close>; an event is queued on the one recorded with it. epoll is the operating
  system's: \<open>ctl\<close> stands for \<open>epoll_ctl(m_epfd, ...)\<close> on a kernel state \<open>'k\<close>, and what it returns
  (zero or an error) decides the branch. \<open>epoll_data\<close> tells the tickle pipe's entry from a
  context's.
\<close>

section \<open>State\<close>

abbreviation EV_NONE :: u32 where "EV_NONE \<equiv> 0"
abbreviation EV_READ :: u32 where "EV_READ \<equiv> 1"
abbreviation EV_WRITE :: u32 where "EV_WRITE \<equiv> 4"

abbreviation EPOLLIN :: u32 where "EPOLLIN \<equiv> 1"
abbreviation EPOLLOUT :: u32 where "EPOLLOUT \<equiv> 4"
abbreviation EPOLLERR :: u32 where "EPOLLERR \<equiv> 8"
abbreviation EPOLLHUP :: u32 where "EPOLLHUP \<equiv> 16"
abbreviation EPOLLET :: u32 where "EPOLLET \<equiv> 0x80000000"

record 'cb event_context =
  ec_scheduler :: "nat option"
  ec_fiber :: "nat option"
  ec_cb :: "'cb option"

record 'cb fd_context =
  fc_read :: "'cb event_context"
  fc_write :: "'cb event_context"
  fc_fd :: int
  m_events :: u32

record 'cb iomanager =
  m_pending_event_count :: u64
  m_fd_contexts :: "'cb fd_context list"
  io_scheds :: "nat \<Rightarrow> 'cb sched"
  io_self :: nat
  tickle_pipe :: nat

datatype epoll_op = EPOLL_CTL_ADD | EPOLL_CTL_MOD | EPOLL_CTL_DEL

type_synonym 'k epoll_ctl = "epoll_op \<Rightarrow> int \<Rightarrow> u32 \<Rightarrow> 'k \<Rightarrow> int \<times> 'k"

section \<open>Contexts\<close>

definition event_context_empty :: "'cb event_context" where
  "event_context_empty = \<lparr>ec_scheduler = None, ec_fiber = None, ec_cb = None\<rparr>"

definition FdContext_new :: "int \<Rightarrow> 'cb fd_context" where
  "FdContext_new fd = \<lparr>fc_read = event_context_empty, fc_write = event_context_empty, fc_fd = fd,
     m_events = EV_NONE\<rparr>"

definition getContext :: "u32 \<Rightarrow> 'cb fd_context \<Rightarrow> 'cb event_context result" where
  "getContext ev c =
     (if ev = EV_READ then Inr (fc_read c) else if ev = EV_WRITE then Inr (fc_write c)
      else Inl (Assertion ''GetContext error!''))"

text \<open>Writing through the reference that \<open>getContext\<close> returned.\<close>

definition setContext :: "u32 \<Rightarrow> 'cb event_context \<Rightarrow> 'cb fd_context \<Rightarrow> 'cb fd_context" where
  "setContext ev e c = (if ev = EV_READ then c\<lparr>fc_read := e\<rparr> else c\<lparr>fc_write := e\<rparr>)"

definition resetContext :: "'cb event_context \<Rightarrow> 'cb event_context" where
  "resetContext e = e\<lparr>ec_scheduler := None, ec_fiber := None, ec_cb := None\<rparr>"

text \<open>
  \<open>FdContext::triggerEvent\<close>: the waiting callback or fiber moves from the context into the queue of
  its scheduler. The pointer passed to \<open>schedule\<close> is emptied by the swapping constructor.
\<close>

definition triggerEvent ::
    "u32 \<Rightarrow> 'cb fd_context \<Rightarrow> (nat \<Rightarrow> 'cb sched) \<Rightarrow> ('cb fd_context \<times> (nat \<Rightarrow> 'cb sched)) result" where
  "triggerEvent ev c ss =
     rbind (SYLAR_ASSERT (m_events c AND ev \<noteq> 0) ''m_events & event'') (\<lambda>_.
       let c1 = c\<lparr>m_events := m_events c AND NOT ev\<rparr>
       in rbind (getContext ev c1) (\<lambda>e.
          case ec_scheduler e of
            None \<Rightarrow> Inl (Null_deref ''event_ctx.scheduler'')
          | Some sid \<Rightarrow>
              (let (ft, e1) =
                 (case ec_cb e of
                    Some _ \<Rightarrow> let (ft, cb') = FT_swap_cb (ec_cb e) (-1) in (ft, e\<lparr>ec_cb := cb'\<rparr>)
                  | None \<Rightarrow> let (ft, f') = FT_swap_fiber (ec_fiber e) (-1) in (ft, e\<lparr>ec_fiber := f'\<rparr>))
               in Inr (setContext ev (e1\<lparr>ec_scheduler := None\<rparr>) c1,
                       ss(sid := schedule (ft_item ft) (ft_thread ft) (ss sid))))))"

text \<open>\<open>context_resize\<close>: the vector at its new size, every null pointer replaced by a new context.\<close>

definition context_resize :: "nat \<Rightarrow> 'cb fd_context list \<Rightarrow> 'cb fd_context list" where
  "context_resize n cs = take n cs @ map (\<lambda>i. FdContext_new (int i)) [length cs ..< n]"

text \<open>A file descriptor compared with a \<open>size_t\<close>: the \<open>int\<close> is converted, a negative one is huge.\<close>

definition fd_index :: "int \<Rightarrow> nat" where
  "fd_index fd = nat (fd mod 2 ^ 64)"

text \<open>The growing loop of \<open>add_event\<close>; \<open>None\<close> is a loop that never ends.\<close>

partial_function (option) context_grow ::
    "int \<Rightarrow> 'cb fd_context list \<Rightarrow> 'cb fd_context list option" where
  [code]: "context_grow fd cs =
     (if length cs \<le> fd_index fd
      then context_grow fd (context_resize (length cs + length cs div 2) cs)
      else Some cs)"

section \<open>Registering and removing events\<close>

text \<open>
  \<open>add_event\<close> once the context is found. \<open>cur\<close> is \<open>Scheduler::GetThis()\<close>; with no callback the
  running fiber of the thread is recorded (\<open>a\<close> is the address of a main fiber made on demand).
\<close>

definition add_event_locked ::
    "'k epoll_ctl \<Rightarrow> nat \<Rightarrow> nat option \<Rightarrow> int \<Rightarrow> u32 \<Rightarrow> 'cb option
       \<Rightarrow> 'cb iomanager \<times> 'k \<times> 'cb fenv \<Rightarrow> (int \<times> 'cb iomanager \<times> 'k \<times> 'cb fenv) result" where
  "add_event_locked ctl a cur fd ev cb = (\<lambda>(m, k, e).
     let i = fd_index fd; c = m_fd_contexts m ! i
     in rbind (SYLAR_ASSERT (m_events c AND ev = 0) ''!(fd_ctx->m_events & event)'') (\<lambda>_.
        let op = (if m_events c \<noteq> 0 then EPOLL_CTL_MOD else EPOLL_CTL_ADD);
            (rt, k1) = ctl op fd (EPOLLET OR m_events c OR ev) k
        in if rt \<noteq> 0 then Inr (-1, m, k1, e)
           else
             let c1 = c\<lparr>m_events := m_events c OR ev\<rparr>
             in rbind (getContext ev c1) (\<lambda>ec.
                rbind (SYLAR_ASSERT (ec_scheduler ec = None \<and> ec_fiber ec = None \<and> ec_cb ec = None)
                         ''!event_ctx.scheduler && !event_ctx.fiber && !event_ctx.cb'') (\<lambda>_.
                rbind (case cb of
                         Some _ \<Rightarrow> Inr (ec\<lparr>ec_scheduler := cur, ec_cb := cb\<rparr>, e)
                       | None \<Rightarrow>
                           (let (f, e1) = Fiber_GetThis a e
                            in rbind (fiber_get (snd e1) f) (\<lambda>fb.
                               rbind (SYLAR_ASSERT (m_state fb = EXEC) ''EXEC'') (\<lambda>_.
                                 Inr (ec\<lparr>ec_scheduler := cur, ec_fiber := Some f\<rparr>, e1)))))
                  (\<lambda>(ec1, e1).
                  Inr (0, m\<lparr>m_pending_event_count := m_pending_event_count m + 1,
                            m_fd_contexts := (m_fd_contexts m)[i := setContext ev ec1 c1]\<rparr>,
                       k1, e1))))))"

definition add_event ::
    "'k epoll_ctl \<Rightarrow> nat \<Rightarrow> nat option \<Rightarrow> int \<Rightarrow> u32 \<Rightarrow> 'cb option
       \<Rightarrow> 'cb iomanager \<times> 'k \<times> 'cb fenv \<Rightarrow> (int \<times> 'cb iomanager \<times> 'k \<times> 'cb fenv) result option" where
  "add_event ctl a cur fd ev cb = (\<lambda>(m, k, e).
     map_option (\<lambda>cs. add_event_locked ctl a cur fd ev cb (m\<lparr>m_fd_contexts := cs\<rparr>, k, e))
       (context_grow fd (m_fd_contexts m)))"

text \<open>
  \<open>del_event\<close> and \<open>cancel_event\<close>, each in two halves: the check of \<open>m_events\<close> with the computation of
  the events that stay, and the rest. Both declare \<open>FdContext::MutexType lock2(fd_ctx->m_mutex)\<close>, a
  copy of the mutex and not a guard on it, so nothing keeps another thread out between the halves.
\<close>

definition event_check :: "int \<Rightarrow> u32 \<Rightarrow> 'cb iomanager \<Rightarrow> u32 option" where
  "event_check fd ev m =
     (if length (m_fd_contexts m) \<le> fd_index fd then None
      else let c = m_fd_contexts m ! fd_index fd
           in if m_events c AND ev = 0 then None else Some (m_events c AND NOT ev))"

definition left_op :: "u32 \<Rightarrow> epoll_op" where
  "left_op left = (if left \<noteq> 0 then EPOLL_CTL_MOD else EPOLL_CTL_DEL)"

definition del_event_commit ::
    "'k epoll_ctl \<Rightarrow> int \<Rightarrow> u32 \<Rightarrow> u32 \<Rightarrow> 'cb iomanager \<times> 'k \<Rightarrow> (bool \<times> 'cb iomanager \<times> 'k) result" where
  "del_event_commit ctl fd ev new_event = (\<lambda>(m, k).
     let (rt, k1) = ctl (left_op new_event) fd (new_event OR EPOLLET) k
     in if rt \<noteq> 0 then Inr (False, m, k1)
        else
          let i = fd_index fd; c1 = (m_fd_contexts m ! i)\<lparr>m_events := new_event\<rparr>
          in rbind (getContext ev c1) (\<lambda>ec.
               Inr (True, m\<lparr>m_pending_event_count := m_pending_event_count m - 1,
                            m_fd_contexts := (m_fd_contexts m)[i := setContext ev (resetContext ec) c1]\<rparr>,
                    k1)))"

definition del_event ::
    "'k epoll_ctl \<Rightarrow> int \<Rightarrow> u32 \<Rightarrow> 'cb iomanager \<times> 'k \<Rightarrow> (bool \<times> 'cb iomanager \<times> 'k) result" where
  "del_event ctl fd ev = (\<lambda>(m, k).
     case event_check fd ev m of
       None \<Rightarrow> Inr (False, m, k)
     | Some new_event \<Rightarrow> del_event_commit ctl fd ev new_event (m, k))"

text \<open>\<open>triggerEvent\<close> on context \<open>i\<close> followed by \<open>--m_pending_event_count\<close>.\<close>

definition trigger_at :: "nat \<Rightarrow> u32 \<Rightarrow> 'cb iomanager \<Rightarrow> 'cb iomanager result" where
  "trigger_at i ev m =
     rbind (triggerEvent ev (m_fd_contexts m ! i) (io_scheds m)) (\<lambda>(c, ss).
       Inr (m\<lparr>m_fd_contexts := (m_fd_contexts m)[i := c], io_scheds := ss,
              m_pending_event_count := m_pending_event_count m - 1\<rparr>))"

definition cancel_event ::
    "'k epoll_ctl \<Rightarrow> int \<Rightarrow> u32 \<Rightarrow> 'cb iomanager \<times> 'k \<Rightarrow> (bool \<times> 'cb iomanager \<times> 'k) result" where
  "cancel_event ctl fd ev = (\<lambda>(m, k).
     case event_check fd ev m of
       None \<Rightarrow> Inr (False, m, k)
     | Some new_event \<Rightarrow>
         let (rt, k1) = ctl (left_op new_event) fd (new_event OR EPOLLET) k
         in if rt \<noteq> 0 then Inr (False, m, k1)
            else rbind (trigger_at (fd_index fd) ev m) (\<lambda>m1. Inr (True, m1, k1)))"

definition trigger_if :: "bool \<Rightarrow> nat \<Rightarrow> u32 \<Rightarrow> 'cb iomanager \<Rightarrow> 'cb iomanager result" where
  "trigger_if b i ev m = (if b then trigger_at i ev m else Inr m)"

definition cancel_all ::
    "'k epoll_ctl \<Rightarrow> int \<Rightarrow> 'cb iomanager \<times> 'k \<Rightarrow> (bool \<times> 'cb iomanager \<times> 'k) result" where
  "cancel_all ctl fd = (\<lambda>(m, k).
     let i = fd_index fd
     in if length (m_fd_contexts m) \<le> i \<or> m_events (m_fd_contexts m ! i) = 0
        then Inr (False, m, k)
        else
          let (rt, k1) = ctl EPOLL_CTL_DEL fd 0 k
          in if rt \<noteq> 0 then Inr (False, m, k1)
             else
               rbind (trigger_if (m_events (m_fd_contexts m ! i) AND EV_READ \<noteq> 0) i EV_READ m) (\<lambda>m1.
               rbind (trigger_if (m_events (m_fd_contexts m1 ! i) AND EV_WRITE \<noteq> 0) i EV_WRITE m1) (\<lambda>m2.
               rbind (SYLAR_ASSERT (m_events (m_fd_contexts m2 ! i) = 0) ''fd_ctx->m_events == 0'') (\<lambda>_.
                 Inr (True, m2, k1)))))"

section \<open>The scheduler's virtual functions\<close>

definition IO_tickle :: "'cb iomanager \<Rightarrow> 'cb iomanager" where
  "IO_tickle m =
     (if hasIdleThread (io_scheds m (io_self m)) then m\<lparr>tickle_pipe := tickle_pipe m + 1\<rparr> else m)"

definition on_timer_insert_at_front :: "'cb iomanager \<Rightarrow> 'cb iomanager" where
  "on_timer_insert_at_front m = IO_tickle m"

definition IO_stopping_timeout :: "u64 \<Rightarrow> 'cb timer_manager \<Rightarrow> 'cb iomanager \<Rightarrow> bool \<times> u64" where
  "IO_stopping_timeout now tm m =
     (let timeout = get_next_timeout now tm
      in (timeout = NOT 0 \<and> m_pending_event_count m = 0 \<and> stopping (io_scheds m (io_self m)), timeout))"

definition IO_stopping :: "u64 \<Rightarrow> 'cb timer_manager \<Rightarrow> 'cb iomanager \<Rightarrow> bool" where
  "IO_stopping now tm m = fst (IO_stopping_timeout now tm m)"

section \<open>The idle fiber\<close>

datatype epoll_data = Data_tickle | Data_ctx nat

record epoll_event =
  ee_events :: u32
  ee_data :: epoll_data

text \<open>What \<open>epoll_wait\<close> can answer: interrupted, another error, or the ready entries.\<close>

datatype wait_result = Wait_EINTR | Wait_error | Wait_ready "epoll_event list"

definition idle_timeout :: "u64 \<Rightarrow> u64" where
  "idle_timeout next_timeout =
     (if next_timeout = NOT 0 then 5000 else if next_timeout < 5000 then next_timeout else 5000)"

text \<open>The wait loop over the answers of successive \<open>epoll_wait\<close> calls.\<close>

fun epoll_wait_loop :: "wait_result list \<Rightarrow> epoll_event list option" where
  "epoll_wait_loop [] = None"
| "epoll_wait_loop (Wait_EINTR # ws) = epoll_wait_loop ws"
| "epoll_wait_loop (Wait_error # ws) = Some []"
| "epoll_wait_loop (Wait_ready evs # ws) = Some evs"

definition real_events :: "u32 \<Rightarrow> u32 \<Rightarrow> u32" where
  "real_events evs registered =
     (let evs1 = (if evs AND (EPOLLERR OR EPOLLHUP) \<noteq> 0
                  then evs OR ((EPOLLIN OR EPOLLOUT) AND registered) else evs)
      in (if evs1 AND EPOLLIN \<noteq> 0 then EV_READ else 0) OR
         (if evs1 AND EPOLLOUT \<noteq> 0 then EV_WRITE else 0))"

definition handle_event ::
    "'k epoll_ctl \<Rightarrow> epoll_event \<Rightarrow> 'cb iomanager \<times> 'k \<Rightarrow> ('cb iomanager \<times> 'k) result" where
  "handle_event ctl ev = (\<lambda>(m, k).
     case ee_data ev of
       Data_tickle \<Rightarrow> Inr (m\<lparr>tickle_pipe := 0\<rparr>, k)
     | Data_ctx i \<Rightarrow>
         let c = m_fd_contexts m ! i;
             real = real_events (ee_events ev) (m_events c)
         in if m_events c AND real = 0 then Inr (m, k)
            else
              let left = m_events c AND NOT real;
                  (rt2, k1) = ctl (left_op left) (fc_fd c) (EPOLLET OR left) k
              in if rt2 \<noteq> 0 then Inr (m, k1)
                 else
                   rbind (trigger_if (real AND EV_READ \<noteq> 0) i EV_READ m) (\<lambda>m1.
                   rbind (trigger_if (real AND EV_WRITE \<noteq> 0) i EV_WRITE m1) (\<lambda>m2.
                     Inr (m2, k1))))"

fun handle_events ::
    "'k epoll_ctl \<Rightarrow> epoll_event list \<Rightarrow> 'cb iomanager \<times> 'k \<Rightarrow> ('cb iomanager \<times> 'k) result" where
  "handle_events ctl [] mk = Inr mk"
| "handle_events ctl (ev # evs) mk = rbind (handle_event ctl ev mk) (handle_events ctl evs)"

text \<open>
  One turn of \<open>IOManager::idle()\<close>: leave the loop when \<open>stopping\<close> holds; else wait, queue the callbacks
  of the expired timers, handle the ready descriptors and swap out. \<open>now1\<close> and \<open>now2\<close> are the two
  clock readings, \<open>probe\<close> the address of the search key of \<open>list_expired_cbs\<close>, \<open>ws\<close> the answers of
  \<open>epoll_wait\<close>. The turn also returns the time-out it waits with.
\<close>

datatype idle_result = Idle_exit | Idle_waits u64 | Idle_swapOut u64

definition IO_idle_turn ::
    "'k epoll_ctl \<Rightarrow> u64 \<Rightarrow> u64 \<Rightarrow> nat \<Rightarrow> wait_result list
       \<Rightarrow> 'cb timer_manager \<times> 'cb iomanager \<times> 'k
       \<Rightarrow> (idle_result \<times> 'cb timer_manager \<times> 'cb iomanager \<times> 'k) result" where
  "IO_idle_turn ctl now1 now2 probe ws = (\<lambda>(tm, m, k).
     let (stop, next) = IO_stopping_timeout now1 tm m
     in if stop then Inr (Idle_exit, tm, m, k)
        else
          case epoll_wait_loop ws of
            None \<Rightarrow> Inr (Idle_waits (idle_timeout next), tm, m, k)
          | Some evs \<Rightarrow>
              rbind (list_expired_cbs now2 probe tm) (\<lambda>es.
                let m1 = (if es_cbs es \<noteq> []
                          then m\<lparr>io_scheds := (io_scheds m)(io_self m :=
                                   snd (schedule_range (es_cbs es) (io_scheds m (io_self m))))\<rparr>
                          else m)
                in rbind (handle_events ctl evs (m1, k)) (\<lambda>(m2, k2).
                     Inr (Idle_swapOut (idle_timeout next), es_tm es, m2, k2))))"

section \<open>Construction\<close>

text \<open>
  \<open>IOManager::IOManager\<close> after the base class: \<open>epfd\<close>, \<open>prt\<close>, \<open>frt\<close>, \<open>crt\<close> are the results of
  \<open>epoll_create\<close>, \<open>pipe\<close>, \<open>fcntl\<close> and the \<open>epoll_ctl\<close> that adds the pipe; \<open>ids\<close> the ids of the
  threads that \<open>start()\<close> creates.
\<close>

definition IOManager_new ::
    "int \<Rightarrow> int \<Rightarrow> int \<Rightarrow> int \<Rightarrow> int list \<Rightarrow> nat \<Rightarrow> (nat \<Rightarrow> 'cb sched) \<Rightarrow> 'cb iomanager result" where
  "IOManager_new epfd prt frt crt ids self ss =
     rbind (SYLAR_ASSERT (epfd > 0) ''m_epfd > 0'') (\<lambda>_.
     rbind (SYLAR_ASSERT (prt = 0) ''rt == 0'') (\<lambda>_.
     rbind (SYLAR_ASSERT (frt \<noteq> -1) ''rt != -1'') (\<lambda>_.
     rbind (SYLAR_ASSERT (crt = 0) ''rt == 0'') (\<lambda>_.
     rbind (sched_start ids (ss self)) (\<lambda>s.
       Inr \<lparr>m_pending_event_count = 0, m_fd_contexts = context_resize 32 [],
            io_scheds = ss(self := s), io_self = self, tickle_pipe = 0\<rparr>)))))"

section \<open>Contexts and the number of registered events\<close>

text \<open>
  A slot with a registered event holds a scheduler and exactly one of a fiber and a callback; a slot
  without one is empty.
\<close>

definition waiting :: "'cb event_context \<Rightarrow> bool" where
  "waiting e \<longleftrightarrow> ec_scheduler e \<noteq> None \<and> (ec_fiber e = None \<longleftrightarrow> ec_cb e \<noteq> None)"

definition slot_ok :: "bool \<Rightarrow> 'cb event_context \<Rightarrow> bool" where
  "slot_ok b e \<longleftrightarrow> (if b then waiting e else e = event_context_empty)"

definition fd_ctx_ok :: "'cb fd_context \<Rightarrow> bool" where
  "fd_ctx_ok c \<longleftrightarrow> m_events c \<in> {0, 1, 4, 5} \<and>
     slot_ok (m_events c AND EV_READ \<noteq> 0) (fc_read c) \<and>
     slot_ok (m_events c AND EV_WRITE \<noteq> 0) (fc_write c)"

definition n_events :: "'cb fd_context \<Rightarrow> nat" where
  "n_events c = (if m_events c AND EV_READ \<noteq> 0 then 1 else 0) +
     (if m_events c AND EV_WRITE \<noteq> 0 then 1 else 0)"

definition io_inv :: "'cb iomanager \<Rightarrow> bool" where
  "io_inv m \<longleftrightarrow> 2 \<le> length (m_fd_contexts m) \<and>
     (\<forall>i < length (m_fd_contexts m).
        fd_ctx_ok (m_fd_contexts m ! i) \<and> fc_fd (m_fd_contexts m ! i) = int i) \<and>
     m_pending_event_count m = of_nat (\<Sum>c \<leftarrow> m_fd_contexts m. n_events c)"

text \<open>The abstract view: the events registered for a descriptor.\<close>

definition registered :: "'cb iomanager \<Rightarrow> int \<Rightarrow> u32" where
  "registered m fd =
     (if 0 \<le> fd \<and> nat fd < length (m_fd_contexts m) then m_events (m_fd_contexts m ! nat fd) else 0)"

definition slot :: "u32 \<Rightarrow> 'cb fd_context \<Rightarrow> 'cb event_context" where
  "slot ev c = (if ev = EV_READ then fc_read c else fc_write c)"

definition slot_task :: "'cb event_context \<Rightarrow> 'cb fiber_or_cb" where
  "slot_task e = (case ec_cb e of Some c \<Rightarrow> FT_cb (Some c) | None \<Rightarrow> FT_fiber (ec_fiber e))"

definition triggered :: "u32 \<Rightarrow> 'cb fd_context \<Rightarrow> 'cb fd_context" where
  "triggered ev c = setContext ev event_context_empty (c\<lparr>m_events := m_events c AND NOT ev\<rparr>)"

definition queued :: "'cb event_context \<Rightarrow> (nat \<Rightarrow> 'cb sched) \<Rightarrow> nat \<Rightarrow> 'cb sched" where
  "queued e ss = (let sid = the (ec_scheduler e) in ss(sid := schedule (slot_task e) (-1) (ss sid)))"

definition fired :: "nat \<Rightarrow> u32 \<Rightarrow> 'cb iomanager \<Rightarrow> 'cb iomanager" where
  "fired i ev m =
     m\<lparr>m_fd_contexts := (m_fd_contexts m)[i := triggered ev (m_fd_contexts m ! i)],
       io_scheds := queued (slot ev (m_fd_contexts m ! i)) (io_scheds m),
       m_pending_event_count := m_pending_event_count m - 1\<rparr>"

lemma fd_index_nonneg: "0 \<le> fd \<Longrightarrow> fd < 2 ^ 64 \<Longrightarrow> fd_index fd = nat fd"
  by (simp add: fd_index_def)

lemma fd_ctx_ok_new [simp]: "fd_ctx_ok (FdContext_new fd)"
  by (simp add: fd_ctx_ok_def FdContext_new_def slot_ok_def)

lemma setContext_simps [simp]:
  "m_events (setContext ev e c) = m_events c" "fc_fd (setContext ev e c) = fc_fd c"
  by (simp_all add: setContext_def)

lemma triggered_simps [simp]:
  "m_events (triggered ev c) = m_events c AND NOT ev" "fc_fd (triggered ev c) = fc_fd c"
  by (simp_all add: triggered_def)

lemma event_context_empty_eq:
  "ec_scheduler e = None \<Longrightarrow> ec_fiber e = None \<Longrightarrow> ec_cb e = None \<Longrightarrow> e = event_context_empty"
  by (cases e) (simp add: event_context_empty_def)

lemma triggerEvent_eq:
  assumes "fd_ctx_ok c" and "ev \<in> {EV_READ, EV_WRITE}" and "m_events c AND ev \<noteq> 0"
  shows "triggerEvent ev c ss = Inr (triggered ev c, queued (slot ev c) ss)"
proof -
  have w: "waiting (slot ev c)" "getContext ev (c\<lparr>m_events := x\<rparr>) = Inr (slot ev c)" for x
    using assms by (auto simp: fd_ctx_ok_def slot_ok_def slot_def getContext_def)
  then obtain sid where "ec_scheduler (slot ev c) = Some sid" by (auto simp: waiting_def)
  moreover have "(slot ev c)\<lparr>ec_cb := None, ec_scheduler := None\<rparr> = event_context_empty"
    if "ec_cb (slot ev c) \<noteq> None"
    using that w(1) by (intro event_context_empty_eq) (auto simp: waiting_def)
  moreover have "(slot ev c)\<lparr>ec_fiber := None, ec_scheduler := None\<rparr> = event_context_empty"
    if "ec_cb (slot ev c) = None"
    using that by (intro event_context_empty_eq) auto
  ultimately show ?thesis
    using assms(3) w(2)
    by (auto simp: triggerEvent_def triggered_def queued_def slot_task_def FT_swap_cb_def
        FT_swap_fiber_def Let_def split: option.split)
qed

lemma triggered_ok:
  assumes "fd_ctx_ok c" and "ev \<in> {EV_READ, EV_WRITE}" and "m_events c AND ev \<noteq> 0"
  shows "fd_ctx_ok (triggered ev c)" and "n_events c = Suc (n_events (triggered ev c))"
  using assms
  by (auto simp: fd_ctx_ok_def n_events_def triggered_def setContext_def slot_ok_def)

lemma sum_n_events_update:
  "i < length cs \<Longrightarrow>
   (of_nat (\<Sum>x \<leftarrow> cs[i := c]. n_events x) :: u64) =
     of_nat (\<Sum>x \<leftarrow> cs. n_events x) - of_nat (n_events (cs ! i)) + of_nat (n_events c)"
  by (induction cs arbitrary: i) (auto simp: less_Suc_eq_0_disj)

lemma io_inv_ctx:
  "io_inv m \<Longrightarrow> i < length (m_fd_contexts m) \<Longrightarrow>
   fd_ctx_ok (m_fd_contexts m ! i) \<and> fc_fd (m_fd_contexts m ! i) = int i"
  by (simp add: io_inv_def)

lemma io_inv_update:
  assumes "io_inv m" and "i < length (m_fd_contexts m)" and "fd_ctx_ok c" and "fc_fd c = int i"
    and "m_fd_contexts m' = (m_fd_contexts m)[i := c]"
    and "m_pending_event_count m' =
      m_pending_event_count m - of_nat (n_events (m_fd_contexts m ! i)) + of_nat (n_events c)"
  shows "io_inv m'"
  using assms sum_n_events_update [OF assms(2), of c]
  by (auto simp: io_inv_def nth_list_update)

lemma trigger_at_eq:
  assumes "io_inv m" and "i < length (m_fd_contexts m)" and "ev \<in> {EV_READ, EV_WRITE}"
    and "m_events (m_fd_contexts m ! i) AND ev \<noteq> 0"
  shows "trigger_at i ev m = Inr (fired i ev m)" and "io_inv (fired i ev m)"
proof -
  note c = io_inv_ctx [OF assms(1,2)]
  show "trigger_at i ev m = Inr (fired i ev m)"
    using triggerEvent_eq [OF _ assms(3,4)] c by (simp add: trigger_at_def fired_def)
  show "io_inv (fired i ev m)"
    using triggered_ok [OF _ assms(3,4)] c
    by (intro io_inv_update [OF assms(1,2), of "triggered ev (m_fd_contexts m ! i)"])
      (simp_all add: fired_def)
qed

section \<open>Growing the table\<close>

lemma context_resize_grow:
  assumes "length cs \<le> n"
  shows "length (context_resize n cs) = n"
    and "i < n \<Longrightarrow> context_resize n cs ! i = (if i < length cs then cs ! i else FdContext_new (int i))"
  using assms by (auto simp: context_resize_def nth_append)

lemma context_grow_total:
  assumes "2 \<le> length cs"
  shows "\<exists>n. length cs \<le> n \<and> fd_index fd < n \<and> context_grow fd cs = Some (context_resize n cs)"
  using assms
proof (induction "Suc (fd_index fd) - length cs" arbitrary: cs rule: less_induct)
  case less
  show ?case
  proof (cases "length cs \<le> fd_index fd")
    case False
    then show ?thesis
      by (intro exI [of _ "length cs"]) (simp add: context_grow.simps context_resize_def)
  next
    case True
    let ?n = "length cs + length cs div 2"
    let ?cs = "context_resize ?n cs"
    have len: "length ?cs = ?n" "length cs < ?n"
      using less.prems by (simp_all add: context_resize_grow)
    then have "Suc (fd_index fd) - length ?cs < Suc (fd_index fd) - length cs"
      using True by linarith
    from less.hyps [OF this] less.prems len obtain n where n: "?n \<le> n" "fd_index fd < n"
      "context_grow fd ?cs = Some (context_resize n ?cs)" by auto
    have "context_resize n ?cs = context_resize n cs"
      using n(1) len by (intro nth_equalityI) (auto simp: context_resize_grow)
    then show ?thesis
      using n len True context_grow.simps [of fd cs] by (intro exI [of _ n]) simp
  qed
qed

lemma sum_n_events_resize:
  "length cs \<le> n \<Longrightarrow> (\<Sum>c \<leftarrow> context_resize n cs. n_events c) = (\<Sum>c \<leftarrow> cs. n_events c)"
  by (simp add: context_resize_def n_events_def FdContext_new_def comp_def)

lemma io_inv_resize:
  "io_inv m \<Longrightarrow> length (m_fd_contexts m) \<le> n \<Longrightarrow>
   io_inv (m\<lparr>m_fd_contexts := context_resize n (m_fd_contexts m)\<rparr>)"
  by (auto simp: io_inv_def sum_n_events_resize context_resize_grow) (simp_all add: FdContext_new_def)

lemma registered_resize:
  "length (m_fd_contexts m) \<le> n \<Longrightarrow>
   registered (m\<lparr>m_fd_contexts := context_resize n (m_fd_contexts m)\<rparr>) = registered m"
  by (auto simp: registered_def context_resize_grow FdContext_new_def)

section \<open>Triggering\<close>

definition fire_all :: "nat \<Rightarrow> u32 \<Rightarrow> 'cb iomanager \<Rightarrow> 'cb iomanager" where
  "fire_all i evs m =
     (let m1 = (if evs AND EV_READ \<noteq> 0 then fired i EV_READ m else m)
      in if evs AND EV_WRITE \<noteq> 0 then fired i EV_WRITE m1 else m1)"

lemma fired_simps [simp]:
  "length (m_fd_contexts (fired i ev m)) = length (m_fd_contexts m)"
  "i < length (m_fd_contexts m) \<Longrightarrow>
   m_fd_contexts (fired i ev m) ! i = triggered ev (m_fd_contexts m ! i)"
  "io_self (fired i ev m) = io_self m"
  by (simp_all add: fired_def)

lemma registered_update:
  "m_fd_contexts m' = (m_fd_contexts m)[i := c] \<Longrightarrow> i < length (m_fd_contexts m) \<Longrightarrow>
   registered m' = (registered m)(int i := m_events c)"
  by (auto simp: registered_def fun_eq_iff nth_list_update)

lemma registered_fired:
  "i < length (m_fd_contexts m) \<Longrightarrow>
   registered (fired i ev m) = (registered m)(int i := m_events (m_fd_contexts m ! i) AND NOT ev)"
  by (subst registered_update [of _ m i "triggered ev (m_fd_contexts m ! i)"])
    (simp_all add: fired_def)

lemma io_inv_events:
  "io_inv m \<Longrightarrow> i < length (m_fd_contexts m) \<Longrightarrow> m_events (m_fd_contexts m ! i) \<in> {0, 1, 4, 5}"
  by (simp add: io_inv_def fd_ctx_ok_def)

lemma fire_all_eq:
  assumes inv: "io_inv m" and i: "i < length (m_fd_contexts m)"
    and evs: "evs \<in> {0, 1, 4, 5}" "evs AND NOT (m_events (m_fd_contexts m ! i)) = 0"
  shows "rbind (trigger_if (evs AND EV_READ \<noteq> 0) i EV_READ m)
      (\<lambda>m1. rbind (trigger_if (evs AND EV_WRITE \<noteq> 0) i EV_WRITE m1) F) = F (fire_all i evs m)"
    and "io_inv (fire_all i evs m)"
    and "registered (fire_all i evs m) =
      (registered m)(int i := m_events (m_fd_contexts m ! i) AND NOT evs)"
proof -
  let ?m1 = "if evs AND EV_READ \<noteq> 0 then fired i EV_READ m else m"
  have on: "m_events (m_fd_contexts m ! i) AND ev \<noteq> 0"
    if "evs AND ev \<noteq> 0" "ev \<in> {EV_READ, EV_WRITE}" for ev
    using that evs io_inv_events [OF inv i] by auto
  have m1: "trigger_if (evs AND EV_READ \<noteq> 0) i EV_READ m = Inr ?m1" "io_inv ?m1"
    using trigger_at_eq [OF inv i] on inv by (simp_all add: trigger_if_def)
  have i1: "i < length (m_fd_contexts ?m1)" using i by simp
  have on1: "m_events (m_fd_contexts ?m1 ! i) AND EV_WRITE \<noteq> 0" if "evs AND EV_WRITE \<noteq> 0"
    using on [OF that] io_inv_events [OF inv i] i by auto
  have m2: "trigger_if (evs AND EV_WRITE \<noteq> 0) i EV_WRITE ?m1 = Inr (fire_all i evs m)"
      "io_inv (fire_all i evs m)"
    using trigger_at_eq [OF m1(2) i1, of EV_WRITE] on1 m1(2)
    by (simp_all add: trigger_if_def fire_all_def Let_def)
  show "rbind (trigger_if (evs AND EV_READ \<noteq> 0) i EV_READ m)
      (\<lambda>m1. rbind (trigger_if (evs AND EV_WRITE \<noteq> 0) i EV_WRITE m1) F) = F (fire_all i evs m)"
    using m1(1) m2(1) by simp
  show "io_inv (fire_all i evs m)" by (fact m2(2))
  show "registered (fire_all i evs m) =
      (registered m)(int i := m_events (m_fd_contexts m ! i) AND NOT evs)"
  proof (cases "evs = 0")
    case True
    then show ?thesis using i by (auto simp: fire_all_def registered_def)
  next
    case False
    then have "evs = 1 \<or> evs = 4 \<or> evs = 5" using evs(1) by auto
    then show ?thesis
      using i io_inv_events [OF inv i] by (auto simp: fire_all_def registered_fired)
  qed
qed

section \<open>The kernel's interest list\<close>

text \<open>
  What epoll_ctl(2) documents: a call that fails changes nothing; \<open>ADD\<close> succeeds only for a descriptor
  that is not in the list and the others only for one that is; a success stores or removes the entry.
\<close>

definition epoll_ctl_spec :: "'k epoll_ctl \<Rightarrow> ('k \<Rightarrow> int \<Rightarrow> u32 option) \<Rightarrow> bool" where
  "epoll_ctl_spec ctl interest \<longleftrightarrow> (\<forall>op fd evs k rt k'. ctl op fd evs k = (rt, k') \<longrightarrow>
     (rt \<noteq> 0 \<longrightarrow> interest k' = interest k) \<and>
     (rt = 0 \<longrightarrow> (interest k fd = None \<longleftrightarrow> op = EPOLL_CTL_ADD) \<and>
        interest k' = (interest k)(fd := (if op = EPOLL_CTL_DEL then None else Some evs))))"

definition kernel_sync :: "int \<Rightarrow> (int \<Rightarrow> u32 option) \<Rightarrow> 'cb iomanager \<Rightarrow> bool" where
  "kernel_sync tfd il m \<longleftrightarrow> (\<forall>fd. 0 \<le> fd \<and> fd \<noteq> tfd \<longrightarrow>
     il fd = (if registered m fd = 0 then None else Some (EPOLLET OR registered m fd)))"

lemma kernel_sync_upd:
  assumes "epoll_ctl_spec ctl interest" and "ctl op fd evs k = (0, k')"
    and "kernel_sync tfd (interest k) m" and "registered m' = (registered m)(fd := new)"
    and "if new = 0 then op = EPOLL_CTL_DEL else op \<noteq> EPOLL_CTL_DEL \<and> evs = EPOLLET OR new"
  shows "kernel_sync tfd (interest k') m'"
proof -
  have "interest k' = (interest k)(fd := (if op = EPOLL_CTL_DEL then None else Some evs))"
    using assms(1,2) unfolding epoll_ctl_spec_def by blast
  then show ?thesis
    using assms(3-5) by (auto simp: kernel_sync_def split: if_splits)
qed

lemma kernel_sync_fail:
  assumes "epoll_ctl_spec ctl interest" and "ctl op fd evs k = (rt, k')" and "rt \<noteq> 0"
  shows "interest k' = interest k"
  using assms unfolding epoll_ctl_spec_def by blast

section \<open>The contract of removing an event\<close>

definition fd_ok :: "int \<Rightarrow> bool" where
  "fd_ok fd \<longleftrightarrow> 0 \<le> fd \<and> fd < 2 ^ 31"

lemma fd_ok_index: "fd_ok fd \<Longrightarrow> fd_index fd = nat fd"
  by (simp add: fd_ok_def fd_index_def)

locale event_removal =
  fixes remove :: "'k epoll_ctl \<Rightarrow> int \<Rightarrow> u32 \<Rightarrow> 'cb iomanager \<times> 'k
      \<Rightarrow> (bool \<times> 'cb iomanager \<times> 'k) result"
  assumes absent: "fd_ok fd \<Longrightarrow> registered m fd AND ev = 0 \<Longrightarrow> remove ctl fd ev (m, k) = Inr (False, m, k)"
    and refused: "fd_ok fd \<Longrightarrow> registered m fd AND ev \<noteq> 0 \<Longrightarrow>
      ctl (left_op (registered m fd AND NOT ev)) fd ((registered m fd AND NOT ev) OR EPOLLET) k = (rt, k1) \<Longrightarrow>
      rt \<noteq> 0 \<Longrightarrow> remove ctl fd ev (m, k) = Inr (False, m, k1)"
    and removed: "io_inv m \<Longrightarrow> fd_ok fd \<Longrightarrow> ev \<in> {EV_READ, EV_WRITE} \<Longrightarrow> registered m fd AND ev \<noteq> 0 \<Longrightarrow>
      ctl (left_op (registered m fd AND NOT ev)) fd ((registered m fd AND NOT ev) OR EPOLLET) k = (0, k1) \<Longrightarrow>
      \<exists>m'. remove ctl fd ev (m, k) = Inr (True, m', k1) \<and> io_inv m' \<and>
        registered m' = (registered m)(fd := registered m fd AND NOT ev)"
begin

lemma total:
  assumes "io_inv m" and "fd_ok fd" and "ev \<in> {EV_READ, EV_WRITE}"
  obtains b m' k' where "remove ctl fd ev (m, k) = Inr (b, m', k')" "io_inv m'"
    "registered m' = (if b then (registered m)(fd := registered m fd AND NOT ev) else registered m)"
    "b \<longrightarrow> registered m fd AND ev \<noteq> 0"
proof -
  obtain rt k1 where c: "ctl (left_op (registered m fd AND NOT ev)) fd
      ((registered m fd AND NOT ev) OR EPOLLET) k = (rt, k1)" by fastforce
  show ?thesis
  proof (cases "registered m fd AND ev = 0 \<or> rt \<noteq> 0")
    case True
    then obtain k' where "remove ctl fd ev (m, k) = Inr (False, m, k')"
      using absent [OF assms(2), of m ev ctl k] refused [of fd m ev ctl k rt k1] assms(2) c by auto
    with that assms(1) show ?thesis by fastforce
  next
    case False
    with removed [OF assms, of ctl k k1] c that show ?thesis by fastforce
  qed
qed

lemma sync:
  assumes spec: "epoll_ctl_spec ctl interest" and sync: "kernel_sync tfd (interest k) m"
    and m: "io_inv m" "fd_ok fd" "ev \<in> {EV_READ, EV_WRITE}"
    and r: "remove ctl fd ev (m, k) = Inr (b, m', k')"
  shows "kernel_sync tfd (interest k') m'"
proof (cases "registered m fd AND ev = 0")
  case True
  then show ?thesis using absent [OF m(2) True] r sync by simp
next
  case False
  let ?left = "registered m fd AND NOT ev"
  obtain rt k1 where c: "ctl (left_op ?left) fd (?left OR EPOLLET) k = (rt, k1)" by fastforce
  show ?thesis
  proof (cases "rt = 0")
    case True
    with removed [OF m False, of ctl k k1] c r have "k' = k1" "registered m' = (registered m)(fd := ?left)" by auto
    with kernel_sync_upd [OF spec _ sync, of "left_op ?left" fd "?left OR EPOLLET" k1 m' ?left] c True
    show ?thesis by (simp add: left_op_def or.commute)
  next
    case rt: False
    then show ?thesis
      using refused [of fd m ev ctl k rt k1, OF m(2) False c] kernel_sync_fail [OF spec c] r sync by simp
  qed
qed

lemma removed_once:
  assumes "io_inv m" and "fd_ok fd" and "ev \<in> {EV_READ, EV_WRITE}"
    and "remove ctl fd ev (m, k) = Inr (True, m', k')"
  shows "remove ctl' fd ev (m', k2) = Inr (False, m', k2)"
proof -
  have "registered m' fd = registered m fd AND NOT ev"
    using total [OF assms(1-3), of ctl k] assms(4) by (metis Inr_inject Pair_inject fun_upd_same)
  then have "registered m' fd AND ev = 0" by (simp add: and.assoc)
  then show ?thesis by (rule absent [OF assms(2)])
qed

end

lemma event_check_eq:
  "fd_ok fd \<Longrightarrow> event_check fd ev m =
     (if registered m fd AND ev = 0 then None else Some (registered m fd AND NOT ev))"
  by (auto simp: event_check_def registered_def fd_ok_index fd_ok_def Let_def)

lemma registered_index:
  assumes "fd_ok fd" and "registered m fd AND ev \<noteq> 0"
  shows "nat fd < length (m_fd_contexts m)"
    and "m_events (m_fd_contexts m ! nat fd) = registered m fd"
    and "int (nat fd) = fd"
  using assms by (auto simp: registered_def fd_ok_def split: if_splits)

lemma del_ctx_ok:
  assumes "fd_ctx_ok c" and "ev \<in> {EV_READ, EV_WRITE}" and "m_events c AND ev \<noteq> 0"
  shows "getContext ev (c\<lparr>m_events := x\<rparr>) = Inr (slot ev c)"
    and "setContext ev (resetContext (slot ev c)) (c\<lparr>m_events := m_events c AND NOT ev\<rparr>) = triggered ev c"
  using assms
  by (auto simp: getContext_def slot_def triggered_def resetContext_def event_context_empty_def
      setContext_def intro!: fd_context.equality)

interpretation deleting: event_removal del_event
proof unfold_locales
  fix m :: "'b iomanager" and fd ev and ctl :: "'a epoll_ctl" and k rt k1
  assume fd: "fd_ok fd"
  let ?left = "registered m fd AND NOT ev"
  show "del_event ctl fd ev (m, k) = Inr (False, m, k)" if "registered m fd AND ev = 0"
    using that by (simp add: del_event_def event_check_eq [OF fd])
  show "del_event ctl fd ev (m, k) = Inr (False, m, k1)"
    if "registered m fd AND ev \<noteq> 0" "ctl (left_op ?left) fd (?left OR EPOLLET) k = (rt, k1)" "rt \<noteq> 0"
    using that by (simp add: del_event_def event_check_eq [OF fd] del_event_commit_def)
  assume inv: "io_inv m" and ev: "ev \<in> {EV_READ, EV_WRITE}" and on: "registered m fd AND ev \<noteq> 0"
    and c: "ctl (left_op ?left) fd (?left OR EPOLLET) k = (0, k1)"
  note ix = registered_index [OF fd on]
  let ?c = "m_fd_contexts m ! nat fd"
  let ?m = "m\<lparr>m_pending_event_count := m_pending_event_count m - 1,
      m_fd_contexts := (m_fd_contexts m)[nat fd := triggered ev ?c]\<rparr>"
  have ok: "fd_ctx_ok ?c" "fc_fd ?c = fd" using io_inv_ctx [OF inv ix(1)] ix(3) by auto
  have on': "m_events ?c AND ev \<noteq> 0" using on ix(2) by simp
  have "del_event ctl fd ev (m, k) = Inr (True, ?m, k1)"
    using on c del_ctx_ok [OF ok(1) ev on'] ix(2)
    by (simp add: del_event_def event_check_eq [OF fd] del_event_commit_def fd_ok_index [OF fd] Let_def)
  moreover have "io_inv ?m"
    using triggered_ok [OF ok(1) ev on'] ok ix(3)
    by (intro io_inv_update [OF inv ix(1), of "triggered ev ?c"]) simp_all
  moreover have "registered ?m = (registered m)(fd := ?left)"
    using registered_update [of ?m m "nat fd" "triggered ev ?c"] ix by simp
  ultimately show "\<exists>m'. del_event ctl fd ev (m, k) = Inr (True, m', k1) \<and> io_inv m' \<and>
      registered m' = (registered m)(fd := ?left)" by blast
qed

interpretation cancelling: event_removal cancel_event
proof unfold_locales
  fix m :: "'b iomanager" and fd ev and ctl :: "'a epoll_ctl" and k rt k1
  assume fd: "fd_ok fd"
  let ?left = "registered m fd AND NOT ev"
  show "cancel_event ctl fd ev (m, k) = Inr (False, m, k)" if "registered m fd AND ev = 0"
    using that by (simp add: cancel_event_def event_check_eq [OF fd])
  show "cancel_event ctl fd ev (m, k) = Inr (False, m, k1)"
    if "registered m fd AND ev \<noteq> 0" "ctl (left_op ?left) fd (?left OR EPOLLET) k = (rt, k1)" "rt \<noteq> 0"
    using that by (simp add: cancel_event_def event_check_eq [OF fd])
  assume inv: "io_inv m" and ev: "ev \<in> {EV_READ, EV_WRITE}" and on: "registered m fd AND ev \<noteq> 0"
    and c: "ctl (left_op ?left) fd (?left OR EPOLLET) k = (0, k1)"
  note ix = registered_index [OF fd on]
  have "m_events (m_fd_contexts m ! nat fd) AND ev \<noteq> 0" using on ix(2) by simp
  from trigger_at_eq [OF inv ix(1) ev this] on c
  have "cancel_event ctl fd ev (m, k) = Inr (True, fired (nat fd) ev m, k1)"
      and "io_inv (fired (nat fd) ev m)"
    by (simp_all add: cancel_event_def event_check_eq [OF fd] fd_ok_index [OF fd])
  moreover have "registered (fired (nat fd) ev m) = (registered m)(fd := ?left)"
    using registered_fired [OF ix(1)] ix by simp
  ultimately show "\<exists>m'. cancel_event ctl fd ev (m, k) = Inr (True, m', k1) \<and> io_inv m' \<and>
      registered m' = (registered m)(fd := ?left)" by blast
qed

end
