(* ===== verification/IO_Events.thy ===== *)
theory IO_Events
  imports IO_Manager
begin

text \<open>
  What the operations of theory \<open>IO_Manager\<close> do to the registered events, the waiting tasks and the
  kernel's interest list; the event loop's idle turn; and the invariant of the reachable states.
\<close>

section \<open>Lemmas on adding, removing and cancelling\<close>

text \<open>The slot \<open>add_event\<close> fills: its callback, or the fiber that runs on the thread.\<close>

definition new_slot :: "nat \<Rightarrow> 'cb option \<Rightarrow> 'cb fenv \<Rightarrow> 'cb event_context" where
  "new_slot sid cb e =
     \<lparr>ec_scheduler = Some sid, ec_fiber = (if cb = None then t_fiber (fst e) else None), ec_cb = cb\<rparr>"

definition fiber_running :: "'cb fenv \<Rightarrow> bool" where
  "fiber_running e \<longleftrightarrow> (\<exists>f fb. t_fiber (fst e) = Some f \<and> fheap (snd e) f = Some fb \<and> m_state fb = EXEC)"

definition event_added :: "int \<Rightarrow> u32 \<Rightarrow> 'cb event_context \<Rightarrow> 'cb iomanager \<Rightarrow> 'cb iomanager" where
  "event_added fd ev ec m =
     m\<lparr>m_pending_event_count := m_pending_event_count m + 1,
       m_fd_contexts := (m_fd_contexts m)[nat fd := setContext ev ec
         ((m_fd_contexts m ! nat fd)\<lparr>m_events := m_events (m_fd_contexts m ! nat fd) OR ev\<rparr>)]\<rparr>"

lemma registered_at:
  "fd_ok fd \<Longrightarrow> nat fd < length (m_fd_contexts m) \<Longrightarrow>
   registered m fd = m_events (m_fd_contexts m ! nat fd)"
  by (simp add: registered_def fd_ok_def)

lemma add_event_locked_eq:
  assumes "io_inv m" and fd: "fd_ok fd" and i: "nat fd < length (m_fd_contexts m)"
    and ev: "ev \<in> {EV_READ, EV_WRITE}" and run: "cb = None \<longrightarrow> fiber_running e"
    and off: "registered m fd AND ev = 0"
    and ctl: "ctl (if registered m fd \<noteq> 0 then EPOLL_CTL_MOD else EPOLL_CTL_ADD) fd
      (EPOLLET OR registered m fd OR ev) k = (rt, k1)"
  shows "add_event_locked ctl a (Some sid) fd ev cb (m, k, e) =
    (if rt = 0 then Inr (0, event_added fd ev (new_slot sid cb e) m, k1, e) else Inr (-1, m, k1, e))"
proof -
  let ?c = "m_fd_contexts m ! nat fd"
  note reg = registered_at [OF fd i]
  have "slot ev ?c = event_context_empty" "getContext ev (?c\<lparr>m_events := x\<rparr>) = Inr (slot ev ?c)" for x
    using io_inv_ctx [OF assms(1) i] off reg ev
    by (auto simp: fd_ctx_ok_def slot_ok_def slot_def getContext_def)
  then show ?thesis
    using off ctl run reg
    by (cases cb; cases e)
      (auto simp: add_event_locked_def Let_def fd_ok_index [OF fd] Fiber_GetThis_def event_added_def
        new_slot_def fiber_running_def event_context_empty_def)
qed

lemma event_added_inv:
  assumes inv: "io_inv m" and fd: "fd_ok fd" and i: "nat fd < length (m_fd_contexts m)"
    and ev: "ev \<in> {EV_READ, EV_WRITE}" and off: "registered m fd AND ev = 0" and ec: "waiting ec"
  shows "io_inv (event_added fd ev ec m)"
    and "registered (event_added fd ev ec m) = (registered m)(fd := registered m fd OR ev)"
    and "slot ev (m_fd_contexts (event_added fd ev ec m) ! nat fd) = ec"
proof -
  let ?c = "m_fd_contexts m ! nat fd"
  let ?c' = "setContext ev ec (?c\<lparr>m_events := m_events ?c OR ev\<rparr>)"
  note reg = registered_at [OF fd i]
  have c': "fd_ctx_ok ?c'" "n_events ?c' = Suc (n_events ?c)" "slot ev ?c' = ec"
    using io_inv_ctx [OF inv i] off ev ec reg
    by (auto simp: fd_ctx_ok_def slot_ok_def setContext_def n_events_def slot_def)
  show "io_inv (event_added fd ev ec m)"
    using io_inv_ctx [OF inv i] c'(2)
    by (intro io_inv_update [OF inv i c'(1)]) (simp_all add: event_added_def)
  show "registered (event_added fd ev ec m) = (registered m)(fd := registered m fd OR ev)"
    using registered_update [of "event_added fd ev ec m" m "nat fd" ?c'] i fd reg
    by (simp add: event_added_def fd_ok_def)
  show "slot ev (m_fd_contexts (event_added fd ev ec m) ! nat fd) = ec"
    using c'(3) i by (simp add: event_added_def)
qed

lemma add_event_grown:
  assumes "io_inv m" and fd: "fd_ok fd"
  obtains m1 where "add_event ctl a cur fd ev cb (m, k, e) =
      Some (add_event_locked ctl a cur fd ev cb (m1, k, e))"
    and "io_inv m1" "registered m1 = registered m" "nat fd < length (m_fd_contexts m1)"
    and "io_scheds m1 = io_scheds m"
proof -
  obtain n where n: "length (m_fd_contexts m) \<le> n" "nat fd < n"
      "context_grow fd (m_fd_contexts m) = Some (context_resize n (m_fd_contexts m))"
    using context_grow_total [of "m_fd_contexts m" fd] fd_ok_index [OF fd] assms(1)
    by (auto simp: io_inv_def)
  show ?thesis
    by (rule that [of "m\<lparr>m_fd_contexts := context_resize n (m_fd_contexts m)\<rparr>"])
      (use n io_inv_resize [OF assms(1) n(1)] registered_resize [OF n(1)] in
        \<open>simp_all add: add_event_def context_resize_grow\<close>)
qed

lemma del_event_scheds: "del_event ctl fd ev (m, k) = Inr (b, m', k') \<Longrightarrow> io_scheds m' = io_scheds m"
  by (auto simp: del_event_def del_event_commit_def getContext_def Let_def
      split: option.splits prod.splits if_splits)

lemma cancel_event_scheds:
  assumes "io_inv m" and fd: "fd_ok fd" and ev: "ev \<in> {EV_READ, EV_WRITE}"
    and c: "cancel_event ctl fd ev (m, k) = Inr (b, m', k')"
  shows "io_scheds m' = (if b then queued (slot ev (m_fd_contexts m ! nat fd)) (io_scheds m)
    else io_scheds m)"
proof (cases "registered m fd AND ev = 0")
  case True
  then show ?thesis using c by (simp add: cancel_event_def event_check_eq [OF fd])
next
  case on: False
  note ix = registered_index [OF fd on]
  have "m_events (m_fd_contexts m ! nat fd) AND ev \<noteq> 0" using on ix(2) by simp
  from trigger_at_eq(1) [OF assms(1) ix(1) ev this] on c show ?thesis
    by (auto simp: cancel_event_def event_check_eq [OF fd] fd_ok_index [OF fd] fired_def
        split: prod.splits if_splits)
qed

section \<open>Adding and removing an event\<close>

text \<open>
  C18 (add_event_outcome). For a descriptor number, \<open>add_event\<close> always returns: the table grows until it has
  a context for the descriptor. It aborts when the event is registered already. Otherwise it asks the kernel
  with the union of the events, and answers 0 or -1 by the kernel's answer; on -1 nothing is registered,
  on 0 exactly this event is, and the context remembers the scheduler of the thread and the callback, or
  the running fiber when none is given. The assertion that the slot is empty never fails.
\<close>

theorem add_event_outcome:
  assumes "io_inv m" and "fd_ok fd" and "ev \<in> {EV_READ, EV_WRITE}"
    and "cb = None \<longrightarrow> fiber_running e"
    and "ctl (if registered m fd \<noteq> 0 then EPOLL_CTL_MOD else EPOLL_CTL_ADD) fd
      (EPOLLET OR registered m fd OR ev) k = (rt, k1)"
  shows "\<exists>r. add_event ctl a (Some sid) fd ev cb (m, k, e) = Some r \<and>
    (if registered m fd AND ev \<noteq> 0 then \<exists>w. r = Inl (Assertion w)
     else \<exists>m'. r = Inr (if rt = 0 then 0 else -1, m', k1, e) \<and> io_inv m' \<and>
       io_scheds m' = io_scheds m \<and>
       registered m' = (if rt = 0 then (registered m)(fd := registered m fd OR ev) else registered m) \<and>
       (rt = 0 \<longrightarrow> slot ev (m_fd_contexts m' ! nat fd) = new_slot sid cb e))"
proof -
  obtain m1 where m1: "add_event ctl a (Some sid) fd ev cb (m, k, e) =
      Some (add_event_locked ctl a (Some sid) fd ev cb (m1, k, e))"
    "io_inv m1" "registered m1 = registered m" "nat fd < length (m_fd_contexts m1)"
    "io_scheds m1 = io_scheds m"
    by (rule add_event_grown [OF assms(1,2)], rule that)
  show ?thesis
  proof (cases "registered m fd AND ev = 0")
    case False
    then show ?thesis
      using m1 registered_at [OF assms(2) m1(4)]
      by (simp add: add_event_locked_def Let_def fd_ok_index [OF assms(2)])
  next
    case True
    have "waiting (new_slot sid cb e)"
      using assms(4) by (auto simp: waiting_def new_slot_def fiber_running_def)
    from event_added_inv [OF m1(2) assms(2) m1(4) assms(3) _ this]
      add_event_locked_eq [OF m1(2) assms(2) m1(4) assms(3,4), of ctl k rt k1 a sid] assms(5) True m1
    show ?thesis by (simp add: event_added_def)
  qed
qed

text \<open>
  C21 (remove_event_outcome). \<open>del_event\<close> and \<open>cancel_event\<close> keep the invariant, answer true only if the event
  was registered, and then remove it and no other; when they answer false nothing is unregistered. An
  event can be removed only once. \<open>cancel_event\<close> queues the waiting task on its scheduler exactly
  when it answers true, and \<open>del_event\<close> queues nothing.
\<close>

theorem remove_event_outcome:
  assumes "io_inv m" and "fd_ok fd" and "ev \<in> {EV_READ, EV_WRITE}"
  shows "(\<exists>b m' k'. del_event ctl fd ev (m, k) = Inr (b, m', k') \<and> io_inv m' \<and>
      registered m' = (if b then (registered m)(fd := registered m fd AND NOT ev) else registered m) \<and>
      (b \<longrightarrow> registered m fd AND ev \<noteq> 0) \<and> io_scheds m' = io_scheds m \<and>
      (b \<longrightarrow> del_event ctl fd ev (m', k') = Inr (False, m', k'))) \<and>
    (\<exists>b m' k'. cancel_event ctl fd ev (m, k) = Inr (b, m', k') \<and> io_inv m' \<and>
      registered m' = (if b then (registered m)(fd := registered m fd AND NOT ev) else registered m) \<and>
      (b \<longrightarrow> registered m fd AND ev \<noteq> 0) \<and>
      io_scheds m' = (if b then queued (slot ev (m_fd_contexts m ! nat fd)) (io_scheds m)
        else io_scheds m) \<and>
      (b \<longrightarrow> cancel_event ctl fd ev (m', k') = Inr (False, m', k')))"
proof (rule conjI)
  obtain b m' k' where d: "del_event ctl fd ev (m, k) = Inr (b, m', k')" "io_inv m'"
    "registered m' = (if b then (registered m)(fd := registered m fd AND NOT ev) else registered m)"
    "b \<longrightarrow> registered m fd AND ev \<noteq> 0"
    by (rule deleting.total [OF assms], rule that)
  with del_event_scheds [OF d(1)] deleting.removed_once [OF assms, of ctl k m' k' ctl k']
  show "\<exists>b m' k'. del_event ctl fd ev (m, k) = Inr (b, m', k') \<and> io_inv m' \<and>
      registered m' = (if b then (registered m)(fd := registered m fd AND NOT ev) else registered m) \<and>
      (b \<longrightarrow> registered m fd AND ev \<noteq> 0) \<and> io_scheds m' = io_scheds m \<and>
      (b \<longrightarrow> del_event ctl fd ev (m', k') = Inr (False, m', k'))"
    by (intro exI [of _ b] exI [of _ m'] exI [of _ k']) (cases b; simp)
next
  obtain b m' k' where d: "cancel_event ctl fd ev (m, k) = Inr (b, m', k')" "io_inv m'"
    "registered m' = (if b then (registered m)(fd := registered m fd AND NOT ev) else registered m)"
    "b \<longrightarrow> registered m fd AND ev \<noteq> 0"
    by (rule cancelling.total [OF assms], rule that)
  with cancel_event_scheds [OF assms d(1)] cancelling.removed_once [OF assms, of ctl k m' k' ctl k']
  show "\<exists>b m' k'. cancel_event ctl fd ev (m, k) = Inr (b, m', k') \<and> io_inv m' \<and>
      registered m' = (if b then (registered m)(fd := registered m fd AND NOT ev) else registered m) \<and>
      (b \<longrightarrow> registered m fd AND ev \<noteq> 0) \<and>
      io_scheds m' = (if b then queued (slot ev (m_fd_contexts m ! nat fd)) (io_scheds m)
        else io_scheds m) \<and>
      (b \<longrightarrow> cancel_event ctl fd ev (m', k') = Inr (False, m', k'))"
    by (intro exI [of _ b] exI [of _ m'] exI [of _ k']) (cases b; simp)
qed

section \<open>Reported events and cancelling all\<close>

lemma real_events_range: "real_events evs reg \<in> {0, 1, 4, 5}"
  by (simp add: real_events_def Let_def)

lemma and_one_bit: "(x :: u32) AND 1 = (if bit x 0 then 1 else 0)"
  by (rule bit_word_eqI) (auto simp: bit_simps intro: gr0I)

lemma and_four_bit: "(x :: u32) AND 4 = (if bit x 2 then 4 else 0)"
proof (rule bit_word_eqI)
  fix n have "bit (4 :: u32) n \<longleftrightarrow> n = 2" if "n < LENGTH(32)"
    using bit_exp_iff [of 2 n, where ?'a = u32] that by simp
  moreover assume "n < LENGTH(32)"
  ultimately show "bit (x AND 4) n = bit (if bit x 2 then 4 else 0 :: u32) n"
    by (auto simp: bit_simps)
qed

lemma and_five: "(x :: u32) AND 5 = (x AND 1) OR (x AND 4)"
proof -
  have "(5 :: u32) = 1 OR 4" by simp
  then show ?thesis by (simp only: bit.conj_disj_distrib)
qed

lemma real_events_eq:
  assumes "reg \<in> {0, 1, 4, 5}" and "evs AND (EPOLLIN OR EPOLLOUT) AND NOT reg = 0"
  shows "real_events evs reg =
    (if evs AND (EPOLLERR OR EPOLLHUP) \<noteq> 0 then reg else evs AND (EPOLLIN OR EPOLLOUT))"
  using assms bit_or_iff [of evs "(5 AND reg)" 0] bit_or_iff [of evs "(5 AND reg)" 2]
  by (auto simp: real_events_def Let_def and_five bit.conj_disj_distrib2 and_one_bit and_four_bit split: if_splits)


text \<open>The schedulers after the tasks of the events \<open>evs\<close> of a context were queued, the reader first.\<close>

definition woken :: "u32 \<Rightarrow> 'cb fd_context \<Rightarrow> (nat \<Rightarrow> 'cb sched) \<Rightarrow> nat \<Rightarrow> 'cb sched" where
  "woken evs c ss =
     (let ss1 = (if evs AND EV_READ \<noteq> 0 then queued (fc_read c) ss else ss)
      in if evs AND EV_WRITE \<noteq> 0 then queued (fc_write c) ss1 else ss1)"

lemma fire_all_scheds:
  "i < length (m_fd_contexts m) \<Longrightarrow>
   io_scheds (fire_all i evs m) = woken evs (m_fd_contexts m ! i) (io_scheds m)"
  by (simp add: fire_all_def woken_def fired_def slot_def triggered_def setContext_def Let_def)

lemma cancel_all_eq:
  assumes inv: "io_inv m" and fd: "fd_ok fd"
  shows "cancel_all ctl fd (m, k) =
    (if registered m fd = 0 then Inr (False, m, k)
     else let (rt, k1) = ctl EPOLL_CTL_DEL fd 0 k
          in if rt \<noteq> 0 then Inr (False, m, k1)
             else Inr (True, fire_all (nat fd) (registered m fd) m, k1))"
proof (cases "registered m fd = 0")
  case True
  then show ?thesis
    using fd by (auto simp: cancel_all_def fd_ok_index [OF fd] registered_def fd_ok_def Let_def)
next
  case False
  then have i: "nat fd < length (m_fd_contexts m)" "m_events (m_fd_contexts m ! nat fd) = registered m fd"
    by (auto simp: registered_def split: if_splits)
  note tr = trigger_at_eq [OF inv i(1)]
  have tr2: "trigger_at (nat fd) EV_WRITE (fired (nat fd) EV_READ m) =
      Inr (fired (nat fd) EV_WRITE (fired (nat fd) EV_READ m))" if "registered m fd = 5"
    using trigger_at_eq(1) [OF tr(2) [of EV_READ], of "nat fd" EV_WRITE] that i by simp
  obtain rt k1 where c: "ctl EPOLL_CTL_DEL fd 0 k = (rt, k1)" by fastforce
  have "registered m fd = 1 \<or> registered m fd = 4 \<or> registered m fd = 5"
    using False io_inv_events [OF inv i(1)] i(2) by auto
  then show ?thesis
    using c i tr(1) [of EV_READ] tr(1) [of EV_WRITE] tr2
    by (elim disjE)
      (simp_all add: cancel_all_def fd_ok_index [OF fd] Let_def trigger_if_def fire_all_def)
qed

lemma handle_event_eq:
  assumes inv: "io_inv m" and i: "i < length (m_fd_contexts m)"
    and ev: "ee_data ev = Data_ctx i"
    and real: "real = real_events (ee_events ev) (m_events (m_fd_contexts m ! i))"
      "real AND NOT (m_events (m_fd_contexts m ! i)) = 0"
    and left: "left = m_events (m_fd_contexts m ! i) AND NOT real"
  shows "handle_event ctl ev (m, k) =
    (if real = 0 then Inr (m, k)
     else let (rt, k1) = ctl (left_op left) (int i) (EPOLLET OR left) k
          in Inr (if rt = 0 then fire_all i real m else m, k1))"
proof -
  have range: "real \<in> {0, 1, 4, 5}" using real(1) real_events_range by simp
  have "m_events (m_fd_contexts m ! i) AND real = real"
    using range real(2) io_inv_events [OF inv i] by auto
  then show ?thesis
    using fire_all_eq(1) [OF inv i range real(2)] io_inv_ctx [OF inv i] ev left
    by (auto simp: handle_event_def Let_def real(1) [symmetric] split: prod.split)
qed

lemma add_event_sync:
  assumes spec: "epoll_ctl_spec ctl interest" and sync: "kernel_sync tfd (interest k) m"
    and inv: "io_inv m" and fd: "fd_ok fd" and ev: "ev \<in> {EV_READ, EV_WRITE}" and run: "cb = None \<longrightarrow> fiber_running e"
    and add: "add_event ctl a (Some sid) fd ev cb (m, k, e) = Some (Inr (r, m', k', e'))"
  shows "kernel_sync tfd (interest k') m'"
proof -
  obtain m1 where m1: "add_event ctl a (Some sid) fd ev cb (m, k, e) =
      Some (add_event_locked ctl a (Some sid) fd ev cb (m1, k, e))"
    "io_inv m1" "registered m1 = registered m" "nat fd < length (m_fd_contexts m1)"
    "io_scheds m1 = io_scheds m"
    by (rule add_event_grown [OF inv fd], rule that)
  have sync1: "kernel_sync tfd (interest k) m1" using sync m1(3) by (simp add: kernel_sync_def)
  have off: "registered m1 fd AND ev = 0"
    using add m1(1) registered_at [OF fd m1(4)]
    by (auto simp: add_event_locked_def Let_def fd_ok_index [OF fd] result_simps)
  let ?op = "if registered m1 fd \<noteq> 0 then EPOLL_CTL_MOD else EPOLL_CTL_ADD"
  obtain rt k1 where c: "ctl ?op fd (EPOLLET OR registered m1 fd OR ev) k = (rt, k1)" by fastforce
  have w: "waiting (new_slot sid cb e)"
    using run by (auto simp: waiting_def new_slot_def fiber_running_def)
  note r = add [unfolded m1(1) add_event_locked_eq [where ctl = ctl, OF m1(2) fd m1(4) ev run off c]]
  have nz: "registered m1 fd OR ev \<noteq> 0" using ev by (auto simp: or_eq_0_iff)
  show ?thesis
  proof (cases "rt = 0")
    case True
    then have "k' = k1" "m' = event_added fd ev (new_slot sid cb e) m1" using r by auto
    with kernel_sync_upd [OF spec c [unfolded True] sync1 event_added_inv(2) [OF m1(2) fd m1(4) ev off w]]
      nz show ?thesis by (simp add: or.assoc)
  next
    case False
    then show ?thesis using r kernel_sync_fail [OF spec c] sync1 by simp
  qed
qed

lemma cancel_all_sync:
  assumes spec: "epoll_ctl_spec ctl interest" and sync: "kernel_sync tfd (interest k) m"
    and inv: "io_inv m" and fd: "fd_ok fd" and r: "cancel_all ctl fd (m, k) = Inr (b, m', k')"
  shows "kernel_sync tfd (interest k') m'"
proof (cases "registered m fd = 0")
  case True
  then show ?thesis using r cancel_all_eq [OF inv fd, of ctl k] sync by simp
next
  case False
  then have i: "nat fd < length (m_fd_contexts m)" "m_events (m_fd_contexts m ! nat fd) = registered m fd"
      "int (nat fd) = fd"
    by (auto simp: registered_def split: if_splits)
  have "registered m fd \<in> {0, 1, 4, 5}" using io_inv_events [OF inv i(1)] i(2) by simp
  note fire = fire_all_eq(3) [OF inv i(1) this, unfolded i, simplified]
  obtain rt k1 where c: "ctl EPOLL_CTL_DEL fd 0 k = (rt, k1)" by fastforce
  show ?thesis
    using r cancel_all_eq [OF inv fd, of ctl k] False c kernel_sync_fail [OF spec c] sync
      kernel_sync_upd [OF spec _ sync, of EPOLL_CTL_DEL fd 0 k1 m' 0] fire
    by (cases "rt = 0") auto
qed

text \<open>
  Theorem (cancel_all_outcome). \<open>cancel_all\<close> answers false and changes nothing when no event is registered or the
  kernel refuses; otherwise it unregisters both events, queues the task of each registered one on
  its scheduler, the reader first, and its final assertion holds.
\<close>

theorem cancel_all_outcome:
  assumes "io_inv m" and "fd_ok fd" and "ctl EPOLL_CTL_DEL fd 0 k = (rt, k1)"
  shows "(registered m fd = 0 \<longrightarrow> cancel_all ctl fd (m, k) = Inr (False, m, k)) \<and>
    (registered m fd \<noteq> 0 \<and> rt \<noteq> 0 \<longrightarrow> cancel_all ctl fd (m, k) = Inr (False, m, k1)) \<and>
    (registered m fd \<noteq> 0 \<and> rt = 0 \<longrightarrow>
      (\<exists>m'. cancel_all ctl fd (m, k) = Inr (True, m', k1) \<and> io_inv m' \<and>
        registered m' = (registered m)(fd := 0) \<and>
        io_scheds m' = woken (registered m fd) (m_fd_contexts m ! nat fd) (io_scheds m)))"
proof -
  have "io_inv m' \<and> registered m' = (registered m)(fd := 0) \<and>
      io_scheds m' = woken (registered m fd) (m_fd_contexts m ! nat fd) (io_scheds m)"
    if on: "registered m fd \<noteq> 0" and m': "m' = fire_all (nat fd) (registered m fd) m" for m'
  proof -
    have i: "nat fd < length (m_fd_contexts m)" "m_events (m_fd_contexts m ! nat fd) = registered m fd"
        "int (nat fd) = fd"
      using on by (auto simp: registered_def split: if_splits)
    have "registered m fd \<in> {0, 1, 4, 5}" using io_inv_events [OF assms(1) i(1)] i(2) by simp
    from fire_all_eq(2,3) [OF assms(1) i(1) this] i fire_all_scheds [OF i(1)] show ?thesis
      by (simp add: m')
  qed
  note fire = this [OF _ refl]
  show ?thesis
    using cancel_all_eq [OF assms(1,2), of ctl k] assms(3) fire
    by (cases "registered m fd = 0"; cases "rt = 0") simp_all
qed

text \<open>
  C17 (handle_event_outcome). When \<open>epoll_wait\<close> reports events that are still registered (or an error or hang-up,
  which stands for every registered event), \<open>idle()\<close> asks the kernel to keep the remaining ones and, if
  the kernel agrees, unregisters exactly the reported events and queues exactly their tasks, the
  reader first; otherwise nothing changes.
\<close>

theorem handle_event_outcome:
  assumes "io_inv m" and "i < length (m_fd_contexts m)" and "ee_data ev = Data_ctx i"
    and "ee_events ev AND (EPOLLIN OR EPOLLOUT) AND NOT (m_events (m_fd_contexts m ! i)) = 0"
    and "real = (if ee_events ev AND (EPOLLERR OR EPOLLHUP) \<noteq> 0 then m_events (m_fd_contexts m ! i)
      else ee_events ev AND (EPOLLIN OR EPOLLOUT))"
    and "left = m_events (m_fd_contexts m ! i) AND NOT real"
    and "ctl (left_op left) (int i) (EPOLLET OR left) k = (rt, k1)"
  shows "if real = 0 then handle_event ctl ev (m, k) = Inr (m, k)
    else if rt \<noteq> 0 then handle_event ctl ev (m, k) = Inr (m, k1)
    else \<exists>m'. handle_event ctl ev (m, k) = Inr (m', k1) \<and> io_inv m' \<and>
      registered m' = (registered m)(int i := left) \<and>
      io_scheds m' = woken real (m_fd_contexts m ! i) (io_scheds m)"
proof -
  have real: "real = real_events (ee_events ev) (m_events (m_fd_contexts m ! i))"
    using real_events_eq [OF io_inv_events [OF assms(1,2)] assms(4)] assms(5) by simp
  have range: "real \<in> {0, 1, 4, 5}" using real real_events_range by simp
  have sub: "real AND NOT (m_events (m_fd_contexts m ! i)) = 0" using assms(4,5) by (simp add: and.assoc)
  show ?thesis
    using handle_event_eq [OF assms(1,2,3) real sub assms(6), of ctl k] assms(6,7)
      fire_all_eq(2,3) [OF assms(1,2) range sub] fire_all_scheds [OF assms(2), of real]
    by simp
qed

text \<open>
  Theorem (stale_event_aborts). \<open>idle()\<close> does not intersect the reported events with the registered ones. If another
  thread has removed one of two reported events between \<open>epoll_wait\<close> and the handling, \<open>triggerEvent\<close>
  is called for an event that is not registered and its assertion aborts the process.
\<close>

theorem stale_event_aborts:
  assumes "io_inv m" and "i < length (m_fd_contexts m)" and "ee_data ev = Data_ctx i"
    and "real = real_events (ee_events ev) (m_events (m_fd_contexts m ! i))"
    and "m_events (m_fd_contexts m ! i) AND real \<noteq> 0"
    and "real AND NOT (m_events (m_fd_contexts m ! i)) \<noteq> 0"
    and "ctl (left_op (m_events (m_fd_contexts m ! i) AND NOT real)) (int i)
      (EPOLLET OR (m_events (m_fd_contexts m ! i) AND NOT real)) k = (0, k1)"
  shows "\<exists>w. handle_event ctl ev (m, k) = Inl (Assertion w)"
proof -
  let ?c = "m_fd_contexts m ! i"
  have fd: "fc_fd ?c = int i" using io_inv_ctx [OF assms(1,2)] by simp
  have abort: "\<exists>w. trigger_at i e m' = Inl (Assertion w)"
    if "m_events (m_fd_contexts m' ! i) AND e = 0" for e and m' :: "'a iomanager"
    using that by (simp add: trigger_at_def triggerEvent_def)
  have cases: "real = 5 \<and> (m_events ?c = 1 \<or> m_events ?c = 4)"
    using assms(4-6) real_events_range [of "ee_events ev" "m_events ?c"] io_inv_events [OF assms(1,2)]
    by auto
  then have "m_events ?c AND NOT real = 0" by auto
  then have "handle_event ctl ev (m, k) =
      rbind (trigger_at i EV_READ m) (\<lambda>m1. rbind (trigger_at i EV_WRITE m1) (\<lambda>m2. Inr (m2, k1)))"
    using cases assms(3,7) fd
    by (auto simp: handle_event_def Let_def assms(4) [symmetric] trigger_if_def)
  moreover have "\<exists>w. rbind (trigger_at i EV_READ m) (\<lambda>m1. rbind (trigger_at i EV_WRITE m1)
      (\<lambda>m2. Inr (m2, k1))) = Inl (Assertion w)"
  proof (cases "m_events ?c = 1")
    case True
    with trigger_at_eq(1) [OF assms(1,2), of EV_READ] abort [of "fired i EV_READ m" EV_WRITE] assms(2)
    show ?thesis by auto
  next
    case False
    with cases abort [of m EV_READ] show ?thesis by auto
  qed
  ultimately show ?thesis by simp
qed

text \<open>
  Theorem (interest_list_matches). If the kernel does what epoll_ctl(2) documents, its interest list and the
  registered events stay in step: every operation leaves a descriptor (other than the tickle pipe's)
  in the list exactly when it has registered events, with exactly those and edge-triggered.
\<close>

theorem interest_list_matches:
  assumes "epoll_ctl_spec ctl interest" and "kernel_sync tfd (interest k) m" and "io_inv m"
    and "fd_ok fd" and "ev \<in> {EV_READ, EV_WRITE}"
  shows "(\<forall>r m' k' e'. (cb = None \<longrightarrow> fiber_running e) \<and>
      add_event ctl a (Some sid) fd ev cb (m, k, e) = Some (Inr (r, m', k', e')) \<longrightarrow>
      kernel_sync tfd (interest k') m') \<and>
    (\<forall>b m' k'. del_event ctl fd ev (m, k) = Inr (b, m', k') \<longrightarrow> kernel_sync tfd (interest k') m') \<and>
    (\<forall>b m' k'. cancel_event ctl fd ev (m, k) = Inr (b, m', k') \<longrightarrow> kernel_sync tfd (interest k') m') \<and>
    (\<forall>b m' k'. cancel_all ctl fd (m, k) = Inr (b, m', k') \<longrightarrow> kernel_sync tfd (interest k') m')"
proof (intro conjI allI impI)
  fix r m' k' e'
  assume "(cb = None \<longrightarrow> fiber_running e) \<and>
      add_event ctl a (Some sid) fd ev cb (m, k, e) = Some (Inr (r, m', k', e'))"
  then show "kernel_sync tfd (interest k') m'"
    using add_event_sync [OF assms, of cb e a sid r m' k' e'] by blast
next
  fix b m' k' assume "del_event ctl fd ev (m, k) = Inr (b, m', k')"
  then show "kernel_sync tfd (interest k') m'"
    by (rule deleting.sync [OF assms])
next
  fix b m' k' assume "cancel_event ctl fd ev (m, k) = Inr (b, m', k')"
  then show "kernel_sync tfd (interest k') m'"
    by (rule cancelling.sync [OF assms])
next
  fix b m' k' assume "cancel_all ctl fd (m, k) = Inr (b, m', k')"
  then show "kernel_sync tfd (interest k') m'"
    by (rule cancel_all_sync [OF assms(1-4)])
qed

section \<open>Reachable states\<close>

text \<open>
  One call of a client or one reported event, as a whole. Clients of \<open>add_event\<close> run on a thread of a scheduler (\<open>Some sid\<close>: the sources store
  \<open>Scheduler::GetThis()\<close> unchecked, and \<open>unscheduled_event_crashes\<close> shows what a null pointer leads to);
  the scheduler's own steps change only \<open>io_scheds\<close> and the pipe.
\<close>

inductive io_step :: "'k epoll_ctl \<Rightarrow> 'cb iomanager \<times> 'k \<Rightarrow> 'cb iomanager \<times> 'k \<Rightarrow> bool"
  for ctl where
  io_add: "fd_ok fd \<Longrightarrow> ev \<in> {EV_READ, EV_WRITE} \<Longrightarrow> cb = None \<longrightarrow> fiber_running e \<Longrightarrow>
    add_event ctl a (Some sid) fd ev cb (m, k, e) = Some (Inr (r, m', k', e')) \<Longrightarrow>
    io_step ctl (m, k) (m', k')"
| io_del: "fd_ok fd \<Longrightarrow> ev \<in> {EV_READ, EV_WRITE} \<Longrightarrow> del_event ctl fd ev (m, k) = Inr (b, m', k') \<Longrightarrow>
    io_step ctl (m, k) (m', k')"
| io_cancel: "fd_ok fd \<Longrightarrow> ev \<in> {EV_READ, EV_WRITE} \<Longrightarrow> cancel_event ctl fd ev (m, k) = Inr (b, m', k') \<Longrightarrow>
    io_step ctl (m, k) (m', k')"
| io_cancel_all: "fd_ok fd \<Longrightarrow> cancel_all ctl fd (m, k) = Inr (b, m', k') \<Longrightarrow> io_step ctl (m, k) (m', k')"
| io_event: "case ee_data ev of Data_tickle \<Rightarrow> True | Data_ctx i \<Rightarrow> i < length (m_fd_contexts m) \<Longrightarrow>
    handle_event ctl ev (m, k) = Inr (m', k') \<Longrightarrow> io_step ctl (m, k) (m', k')"
| io_sched: "io_step ctl (m, k) (m\<lparr>io_scheds := ss, tickle_pipe := n\<rparr>, k)"

lemma io_inv_cong:
  "m_fd_contexts m' = m_fd_contexts m \<Longrightarrow> m_pending_event_count m' = m_pending_event_count m \<Longrightarrow>
   io_inv m' = io_inv m"
  by (simp add: io_inv_def)

lemma length_fire_all [simp]: "length (m_fd_contexts (fire_all i evs m)) = length (m_fd_contexts m)"
  by (simp add: fire_all_def)

lemma trigger_if_Inr:
  assumes inv: "io_inv m" and i: "i < length (m_fd_contexts m)" and ev: "ev \<in> {EV_READ, EV_WRITE}"
    and r: "trigger_if b i ev m = Inr m'"
  shows "io_inv m' \<and> length (m_fd_contexts m') = length (m_fd_contexts m)"
proof (cases b)
  case True
  then have "m_events (m_fd_contexts m ! i) AND ev \<noteq> 0"
    using r by (auto simp: trigger_if_def trigger_at_def triggerEvent_def result_simps)
  from trigger_at_eq [OF inv i ev this] True r show ?thesis by (auto simp: trigger_if_def)
qed (use assms in \<open>simp add: trigger_if_def\<close>)

lemma handle_event_inv:
  assumes inv: "io_inv m"
    and i: "case ee_data ev of Data_tickle \<Rightarrow> True | Data_ctx i \<Rightarrow> i < length (m_fd_contexts m)"
    and r: "handle_event ctl ev (m, k) = Inr (m', k')"
  shows "io_inv m' \<and> length (m_fd_contexts m') = length (m_fd_contexts m)"
proof (cases "ee_data ev")
  case Data_tickle
  then have "m' = m\<lparr>tickle_pipe := 0\<rparr>" using r by (simp add: handle_event_def)
  then show ?thesis using inv by (simp add: io_inv_def)
next
  case (Data_ctx j)
  then have j: "j < length (m_fd_contexts m)" using i by simp
  let ?real = "real_events (ee_events ev) (m_events (m_fd_contexts m ! j))"
  consider "m' = m"
    | m1 where "trigger_if (?real AND EV_READ \<noteq> 0) j EV_READ m = Inr m1"
      "trigger_if (?real AND EV_WRITE \<noteq> 0) j EV_WRITE m1 = Inr m'"
    using r Data_ctx
    by (auto simp: handle_event_def Let_def result_simps split: prod.splits if_splits)
  then show ?thesis
  proof cases
    case 2
    with trigger_if_Inr [OF inv j _ 2(1)] trigger_if_Inr [OF _ _ _ 2(2)] j show ?thesis by simp
  qed (use inv in simp)
qed

lemma add_event_inv:
  assumes inv: "io_inv m" and fd: "fd_ok fd" and ev: "ev \<in> {EV_READ, EV_WRITE}"
    and run: "cb = None \<longrightarrow> fiber_running e"
    and add: "add_event ctl a (Some sid) fd ev cb (m, k, e) = Some (Inr (r, m', k', e'))"
  shows "io_inv m'"
proof -
  obtain m1 where m1: "add_event ctl a (Some sid) fd ev cb (m, k, e) =
      Some (add_event_locked ctl a (Some sid) fd ev cb (m1, k, e))"
    "io_inv m1" "registered m1 = registered m" "nat fd < length (m_fd_contexts m1)"
    "io_scheds m1 = io_scheds m"
    by (rule add_event_grown [OF inv fd], rule that)
  have off: "registered m1 fd AND ev = 0"
    using add m1(1) registered_at [OF fd m1(4)]
    by (auto simp: add_event_locked_def Let_def fd_ok_index [OF fd] result_simps)
  obtain rt k1 where c: "ctl (if registered m1 fd \<noteq> 0 then EPOLL_CTL_MOD else EPOLL_CTL_ADD) fd
      (EPOLLET OR registered m1 fd OR ev) k = (rt, k1)" by fastforce
  have w: "waiting (new_slot sid cb e)"
    using run by (auto simp: waiting_def new_slot_def fiber_running_def)
  show ?thesis
    using add [unfolded m1(1) add_event_locked_eq [where ctl = ctl, OF m1(2) fd m1(4) ev run off c]]
      event_added_inv(1) [OF m1(2) fd m1(4) ev off w] m1(2)
    by (auto split: if_splits)
qed

lemma cancel_all_inv:
  assumes inv: "io_inv m" and fd: "fd_ok fd" and r: "cancel_all ctl fd (m, k) = Inr (b, m', k')"
  shows "io_inv m'"
proof (cases "registered m fd = 0")
  case True
  then show ?thesis using r cancel_all_eq [OF inv fd, of ctl k] inv by simp
next
  case False
  then have i: "nat fd < length (m_fd_contexts m)" "m_events (m_fd_contexts m ! nat fd) = registered m fd"
    by (auto simp: registered_def split: if_splits)
  have "registered m fd \<in> {0, 1, 4, 5}" using io_inv_events [OF inv i(1)] i(2) by simp
  from fire_all_eq(2) [OF inv i(1) this] i(2) show ?thesis
    using r cancel_all_eq [OF inv fd, of ctl k] False inv by (auto split: prod.splits if_splits)
qed

lemma io_step_inv:
  assumes "io_step ctl mk mk'" and "io_inv (fst mk)"
  shows "io_inv (fst mk')"
  using assms
proof (induction rule: io_step.induct)
  case (io_add fd ev cb e a sid m k r m' k' e')
  then show ?case using add_event_inv [OF _ io_add(1-4)] by simp
next
  case (io_del fd ev m k b m' k')
  then obtain b2 m2 k2 where "del_event ctl fd ev (m, k) = Inr (b2, m2, k2)" "io_inv m2"
    by (auto elim: deleting.total [of m fd ev ctl k])
  then show ?case using io_del(3) by simp
next
  case (io_cancel fd ev m k b m' k')
  then obtain b2 m2 k2 where "cancel_event ctl fd ev (m, k) = Inr (b2, m2, k2)" "io_inv m2"
    by (auto elim: cancelling.total [of m fd ev ctl k])
  then show ?case using io_cancel(3) by simp
next
  case (io_cancel_all fd m k b m' k')
  then show ?case using cancel_all_inv [OF _ io_cancel_all(1,2)] by simp
next
  case (io_event ev m k m' k')
  then show ?case using handle_event_inv [OF _ io_event(1,2)] by simp
next
  case (io_sched m k ss n)
  then show ?case by (simp add: io_inv_def)
qed

lemma FdContext_new_simps [simp]:
  "fc_fd (FdContext_new fd) = fd" "m_events (FdContext_new fd) = 0"
  by (simp_all add: FdContext_new_def)

lemma IOManager_new_inv:
  assumes "IOManager_new epfd prt frt crt ids self ss = Inr m"
  shows "io_inv m \<and> registered m = (\<lambda>fd. 0)"
proof -
  have m: "m_fd_contexts m = context_resize 32 []" "m_pending_event_count m = 0"
    using assms by (auto simp: IOManager_new_def result_simps)
  have sum: "(\<Sum>c \<leftarrow> m_fd_contexts m. n_events c) = 0"
    unfolding m(1) by (subst sum_n_events_resize) simp_all
  have len: "length (m_fd_contexts m) = 32"
    and ctx: "\<And>i. i < 32 \<Longrightarrow> m_fd_contexts m ! i = FdContext_new (int i)"
    using m(1) context_resize_grow [of "[] :: 'a fd_context list" 32] by simp_all
  show ?thesis
    by (simp add: io_inv_def registered_def sum len ctx m(2) fun_eq_iff)
qed

lemma resetContext_eq: "resetContext e = event_context_empty"
  by (cases e) (simp add: resetContext_def event_context_empty_def)

text \<open>
  C10 (io_events_invariant). From its construction on, through any calls of \<open>add_event\<close>, \<open>del_event\<close>,
  \<open>cancel_event\<close>, \<open>cancel_all\<close> and any handled events that are made one after the other, each \<open>add_event\<close> on a thread that has a scheduler,
  \<open>m_pending_event_count\<close> is the number of registered events; a
  context has the number of its descriptor; and a slot holds a scheduler and exactly one task (a fiber
  or a callback) if its event is registered and nothing at all if it is not. Both conditions are needed: overlapping removals break the
  count (\<open>del_event_race\<close>), and an event added on a thread without scheduler is registered with none (\<open>unscheduled_event_crashes\<close>).
\<close>

theorem io_events_invariant:
  assumes "IOManager_new epfd prt frt crt ids self ss = Inr m" and "(io_step ctl)\<^sup>*\<^sup>* (m, k) (m', k')"
  shows "io_inv m'"
proof -
  have "io_inv (fst mk')" if "(io_step ctl)\<^sup>*\<^sup>* (m, k) mk'" for mk'
    using that
    by (induction rule: rtranclp_induct) (use IOManager_new_inv [OF assms(1)] io_step_inv in auto)
  from this [OF assms(2)] show ?thesis by simp
qed

text \<open>
  Theorem (del_event_race). \<open>del_event\<close> copies the mutex of the context instead of locking it, so two calls can both
  find the event registered before either removes it. When the descriptor's other event stays
  registered the kernel accepts both updates, both calls answer true, and \<open>m_pending_event_count\<close>
  drops by two for one event: it no longer counts the registered events.
\<close>

theorem del_event_race:
  assumes "io_inv m" and "fd_ok fd" and "registered m fd = EV_READ OR EV_WRITE"
    and "ctl EPOLL_CTL_MOD fd (EV_WRITE OR EPOLLET) k = (0, k1)"
    and "ctl EPOLL_CTL_MOD fd (EV_WRITE OR EPOLLET) k1 = (0, k2)"
  shows "\<exists>new m1 m2. event_check fd EV_READ m = Some new \<and>
    del_event_commit ctl fd EV_READ new (m, k) = Inr (True, m1, k1) \<and>
    del_event_commit ctl fd EV_READ new (m1, k1) = Inr (True, m2, k2) \<and>
    m_pending_event_count m2 = m_pending_event_count m - 2 \<and>
    registered m2 = registered m1 \<and> \<not> io_inv m2"
proof -
  have on: "registered m fd AND EV_READ \<noteq> 0" using assms(3) by simp
  note ix = registered_index [OF assms(2) on]
  let ?c = "m_fd_contexts m ! nat fd"
  let ?c1 = "triggered EV_READ ?c"
  have ok: "fd_ctx_ok ?c" "m_events ?c AND EV_READ \<noteq> 0" using io_inv_ctx [OF assms(1) ix(1)] on ix(2) by simp_all
  define m1 where "m1 = m\<lparr>m_pending_event_count := m_pending_event_count m - 1,
      m_fd_contexts := (m_fd_contexts m)[nat fd := ?c1]\<rparr>"
  define m2 where "m2 = m1\<lparr>m_pending_event_count := m_pending_event_count m1 - 1\<rparr>"
  have check: "event_check fd EV_READ m = Some EV_WRITE"
    using event_check_eq [OF assms(2), of EV_READ m] on assms(3) by simp
  have c1: "?c1 = ?c\<lparr>m_events := EV_WRITE, fc_read := event_context_empty\<rparr>"
    using ix(2) assms(3) by (simp add: triggered_def setContext_def)
  have "del_event_commit ctl fd EV_READ EV_WRITE (m, k) = Inr (True, m1, k1)"
    using assms(4) c1
    by (simp add: del_event_commit_def left_op_def fd_ok_index [OF assms(2)] getContext_def m1_def
        setContext_def resetContext_eq Let_def)
  moreover have "del_event_commit ctl fd EV_READ EV_WRITE (m1, k1) = Inr (True, m2, k2)"
    using assms(5) c1 ix(1)
    by (simp add: del_event_commit_def left_op_def fd_ok_index [OF assms(2)] getContext_def m1_def
        m2_def setContext_def resetContext_eq Let_def)
  moreover have "io_inv m1"
    using triggered_ok [OF ok(1) _ ok(2)] ok io_inv_ctx [OF assms(1) ix(1)]
    by (intro io_inv_update [OF assms(1) ix(1), of ?c1]) (simp_all add: m1_def)
  then have "\<not> io_inv m2" by (simp add: io_inv_def m2_def)
  moreover have "m_pending_event_count m2 = m_pending_event_count m - 2" "registered m2 = registered m1"
    by (simp_all add: m1_def m2_def registered_def fun_eq_iff)
  ultimately show ?thesis using check by blast
qed

text \<open>
  Theorem (unscheduled_event_crashes). \<open>add_event\<close> accepts calls from a thread without a scheduler and records the null
  pointer \<open>Scheduler::GetThis()\<close> returns there; when the event occurs, \<open>triggerEvent\<close> dereferences it.
\<close>

theorem unscheduled_event_crashes:
  assumes "io_inv m" and "fd_ok fd" and "ev \<in> {EV_READ, EV_WRITE}" and "registered m fd AND ev = 0"
    and "ctl (if registered m fd \<noteq> 0 then EPOLL_CTL_MOD else EPOLL_CTL_ADD) fd
      (EPOLLET OR registered m fd OR ev) k = (0, k1)"
    and "ctl (left_op (registered m fd)) fd (registered m fd OR EPOLLET) k1 = (0, k2)"
  shows "\<exists>m1 w. add_event ctl a None fd ev (Some c) (m, k, e) = Some (Inr (0, m1, k1, e)) \<and>
    cancel_event ctl fd ev (m1, k1) = Inl (Null_deref w)"
proof -
  obtain m0 where m0: "add_event ctl a None fd ev (Some c) (m, k, e) =
      Some (add_event_locked ctl a None fd ev (Some c) (m0, k, e))"
    "io_inv m0" "registered m0 = registered m" "nat fd < length (m_fd_contexts m0)"
    "io_scheds m0 = io_scheds m"
    by (rule add_event_grown [OF assms(1,2)], rule that)
  let ?c = "m_fd_contexts m0 ! nat fd"
  have reg: "m_events ?c = registered m fd" using registered_at [OF assms(2) m0(4)] m0(3) by simp
  have empty: "slot ev ?c = event_context_empty" "getContext ev (?c\<lparr>m_events := x\<rparr>) = Inr (slot ev ?c)" for x
    using io_inv_ctx [OF m0(2,4)] assms(3,4) reg
    by (auto simp: fd_ctx_ok_def slot_ok_def slot_def getContext_def)
  define m1 where "m1 = event_added fd ev \<lparr>ec_scheduler = None, ec_fiber = None, ec_cb = Some c\<rparr> m0"
  have add: "add_event_locked ctl a None fd ev (Some c) (m0, k, e) = Inr (0, m1, k1, e)"
    using assms(4,5) empty reg
    by (simp add: add_event_locked_def fd_ok_index [OF assms(2)] Let_def event_context_empty_def
        m1_def event_added_def)
  have ev: "(m_events ?c OR ev) AND ev = ev"
    by (simp add: bit.conj_disj_distrib2)
  have left: "(m_events ?c OR ev) AND NOT ev = registered m fd"
    using io_inv_events [OF m0(2,4)] assms(3,4) reg by auto
  have m1c: "m_fd_contexts m1 ! nat fd = setContext ev \<lparr>ec_scheduler = None, ec_fiber = None, ec_cb = Some c\<rparr>
      (?c\<lparr>m_events := m_events ?c OR ev\<rparr>)" "nat fd < length (m_fd_contexts m1)"
    using m0(4) by (simp_all add: m1_def event_added_def)
  have "event_check fd ev m1 = Some (registered m fd)"
    using m1c ev assms(3) left by (auto simp: event_check_def fd_ok_index [OF assms(2)] Let_def)
  moreover have "\<exists>w. trigger_at (nat fd) ev m1 = Inl (Null_deref w)"
    using m1c ev assms(3)
    by (auto simp: trigger_at_def triggerEvent_def getContext_def setContext_def Let_def)
  ultimately have "\<exists>w. cancel_event ctl fd ev (m1, k1) = Inl (Null_deref w)"
    using assms(6) by (auto simp: cancel_event_def fd_ok_index [OF assms(2)])
  then show ?thesis using m0(1) add by auto
qed

section \<open>Waiting, timers and stopping\<close>

lemma of_nat_u64_eq_0: "n < 2 ^ 64 \<Longrightarrow> (of_nat n :: u64) = 0 \<longleftrightarrow> n = 0"
  by (auto simp: word_of_nat_eq_0_iff dest: dvd_imp_le)

lemma pending_zero_iff:
  assumes "io_inv m" and "length (m_fd_contexts m) < 2 ^ 62"
  shows "m_pending_event_count m = 0 \<longleftrightarrow> (\<forall>fd. registered m fd = 0)"
proof -
  let ?n = "\<Sum>c \<leftarrow> m_fd_contexts m. n_events c"
  have "?n \<le> (\<Sum>c \<leftarrow> m_fd_contexts m. 2)"
    by (intro sum_list_mono) (simp add: n_events_def)
  then have "?n < 2 ^ 64" using assms(2) by (simp add: sum_list_triv)
  then have "m_pending_event_count m = 0 \<longleftrightarrow> ?n = 0"
    using assms(1) of_nat_u64_eq_0 [of ?n] unfolding io_inv_def by metis
  also have "\<dots> \<longleftrightarrow> (\<forall>c \<in> set (m_fd_contexts m). m_events c = 0)"
  proof -
    have "n_events c = 0 \<longleftrightarrow> m_events c = 0" if "c \<in> set (m_fd_contexts m)" for c
    proof -
      from that obtain i where "i < length (m_fd_contexts m)" "c = m_fd_contexts m ! i"
        by (auto simp: in_set_conv_nth)
      then have "m_events c \<in> {0, 1, 4, 5}" using io_inv_events [OF assms(1)] by simp
      then show ?thesis by (auto simp: n_events_def)
    qed
    then show ?thesis by (simp add: sum_list_eq_0_iff)
  qed
  also have "\<dots> \<longleftrightarrow> (\<forall>fd. registered m fd = 0)"
  proof
    assume all: "\<forall>fd. registered m fd = 0"
    show "\<forall>c \<in> set (m_fd_contexts m). m_events c = 0"
    proof
      fix c assume "c \<in> set (m_fd_contexts m)"
      then obtain i where "i < length (m_fd_contexts m)" "c = m_fd_contexts m ! i"
        by (auto simp: in_set_conv_nth)
      then show "m_events c = 0" using all [rule_format, of "int i"] by (simp add: registered_def)
    qed
  qed (simp add: registered_def)
  finally show ?thesis .
qed


text \<open>
  Theorem (io_stopping_correct). The event loop reports that it may stop exactly when no timer is armed, no event is
  registered for any descriptor, and the scheduler underneath is stopped, has an empty queue and no
  worker inside a task.
\<close>

theorem io_stopping_correct:
  assumes "tm_wf tm" and "now \<noteq> 0" and "io_inv m" and "length (m_fd_contexts m) < 2 ^ 62"
  shows "IO_stopping now tm m \<longleftrightarrow>
    deadlines tm = Map.empty \<and> (\<forall>fd. registered m fd = 0) \<and> stopping (io_scheds m (io_self m))"
  using timers.timeout_max_iff [OF assms(1,2)] timers.timeout_none [OF assms(1), of now]
    pending_zero_iff [OF assms(3,4)]
  by (auto simp: IO_stopping_def IO_stopping_timeout_def Let_def)

section \<open>Witnesses\<close>

text \<open>A kernel as a map from descriptors to events, and a manager with both events of descriptor 1.\<close>

definition demo_ctl :: "(int \<Rightarrow> u32 option) epoll_ctl" where
  "demo_ctl op fd evs k =
     (if (k fd = None) = (op = EPOLL_CTL_ADD)
      then (0, k(fd := (if op = EPOLL_CTL_DEL then None else Some evs))) else (-1, k))"

definition demo_slot :: "nat \<Rightarrow> nat event_context" where
  "demo_slot c = \<lparr>ec_scheduler = Some 0, ec_fiber = None, ec_cb = Some c\<rparr>"

definition demo_io :: "nat iomanager" where
  "demo_io = \<lparr>m_pending_event_count = 2,
     m_fd_contexts = [FdContext_new 0,
       \<lparr>fc_read = demo_slot 7, fc_write = demo_slot 8, fc_fd = 1, m_events = 5\<rparr>, FdContext_new 2],
     io_scheds = (\<lambda>_. sched_running), io_self = 0, tickle_pipe = 0\<rparr>"

definition demo_kernel :: "int \<Rightarrow> u32 option" where
  "demo_kernel = [1 \<mapsto> EPOLLET OR 5]"

definition demo_interest :: "(int \<Rightarrow> u32 option) \<Rightarrow> int \<Rightarrow> u32 option" where
  "demo_interest k fd = k fd"

lemma demo_ctl_spec: "epoll_ctl_spec demo_ctl demo_interest"
proof -
  have "demo_interest k = k" for k by (simp add: demo_interest_def fun_eq_iff)
  then show ?thesis by (auto simp: epoll_ctl_spec_def demo_ctl_def split: if_splits)
qed

lemma demo_io_inv: "io_inv demo_io"
proof -
  have "fd_ctx_ok (m_fd_contexts demo_io ! i) \<and> fc_fd (m_fd_contexts demo_io ! i) = int i"
    if "i < length (m_fd_contexts demo_io)" for i
  proof -
    from that have "i = 0 \<or> i = 1 \<or> i = 2" by (auto simp: demo_io_def)
    then show ?thesis
      by (elim disjE) (simp_all add: demo_io_def fd_ctx_ok_def slot_ok_def waiting_def demo_slot_def
          FdContext_new_def)
  qed
  then show ?thesis
    unfolding io_inv_def by (simp add: demo_io_def n_events_def FdContext_new_def)
qed

lemma demo_io_registered: "registered demo_io = (\<lambda>fd. 0)(1 := 5)"
proof
  fix fd :: int
  have "fd < 0 \<or> fd = 0 \<or> fd = 1 \<or> fd = 2 \<or> 3 \<le> nat fd" by linarith
  then show "registered demo_io fd = ((\<lambda>fd. 0)(1 := 5)) fd"
    by (auto simp: registered_def demo_io_def)
qed

lemma demo_kernel_sync: "kernel_sync 99 (demo_interest demo_kernel) demo_io"
  by (simp add: kernel_sync_def demo_io_registered demo_kernel_def demo_interest_def)

lemma fd_ok_1: "fd_ok 1" "fd_ok 2"
  by (simp_all add: fd_ok_def)

theorem add_event_outcome_witness:
  "\<exists>m' k'. add_event demo_ctl 50 (Some 0) 2 EV_READ (Some 9) (demo_io, demo_kernel, (demo_tls, demo_fibers)) =
      Some (Inr (0, m', k', (demo_tls, demo_fibers))) \<and> registered m' 2 = EV_READ \<and> io_inv m'"
proof -
  have "demo_ctl (if registered demo_io 2 \<noteq> 0 then EPOLL_CTL_MOD else EPOLL_CTL_ADD) 2
      (EPOLLET OR registered demo_io 2 OR EV_READ) demo_kernel = (0, demo_kernel(2 \<mapsto> EPOLLET OR EV_READ))"
    by (simp add: demo_io_registered demo_ctl_def demo_kernel_def)
  from add_event_outcome [where ctl = demo_ctl, OF demo_io_inv fd_ok_1(2) _ _ this,
      of "Some 9" "(demo_tls, demo_fibers)" 50 0]
  show ?thesis by (auto simp: demo_io_registered)
qed

theorem remove_event_outcome_witness:
  "\<exists>b m' k'. cancel_event demo_ctl 1 EV_READ (demo_io, demo_kernel) = Inr (b, m', k') \<and> io_inv m' \<and> b \<and>
     registered m' 1 = EV_WRITE"
proof -
  have "\<exists>m' k'. cancel_event demo_ctl 1 EV_READ (demo_io, demo_kernel) = Inr (True, m', k')"
    by (simp add: cancel_event_def event_check_eq [OF fd_ok_1(1)] demo_io_registered demo_ctl_def
        demo_kernel_def left_op_def fd_ok_index [OF fd_ok_1(1)] trigger_at_eq(1) [OF demo_io_inv]
        demo_io_def [THEN arg_cong [where f = m_fd_contexts]])
  with conjunct2 [OF remove_event_outcome [OF demo_io_inv fd_ok_1(1), of EV_READ demo_ctl demo_kernel]]
  show ?thesis by (auto simp: demo_io_registered)
qed

theorem cancel_all_outcome_witness:
  "\<exists>m' k'. cancel_all demo_ctl 1 (demo_io, demo_kernel) = Inr (True, m', k') \<and> io_inv m' \<and>
     registered m' = (\<lambda>_. 0) \<and>
     io_scheds m' = woken 5 (m_fd_contexts demo_io ! 1) (io_scheds demo_io)"
proof -
  have "demo_ctl EPOLL_CTL_DEL 1 0 demo_kernel = (0, demo_kernel(1 := None))"
    by (simp add: demo_ctl_def demo_kernel_def)
  from cancel_all_outcome [where ctl = demo_ctl, OF demo_io_inv fd_ok_1(1) this] show ?thesis
    by (auto simp: demo_io_registered)
qed

theorem handle_event_outcome_witness:
  "\<exists>m' k'. handle_event demo_ctl \<lparr>ee_events = EPOLLHUP, ee_data = Data_ctx 1\<rparr> (demo_io, demo_kernel) =
     Inr (m', k') \<and> io_inv m' \<and> registered m' 1 = 0 \<and>
     io_scheds m' = woken 5 (m_fd_contexts demo_io ! 1) (io_scheds demo_io)"
proof -
  let ?ev = "\<lparr>ee_events = EPOLLHUP, ee_data = Data_ctx 1\<rparr>"
  have "m_events (m_fd_contexts demo_io ! 1) = 5" "1 < length (m_fd_contexts demo_io)"
    by (simp_all add: demo_io_def)
  note ctx = this
  have "if (5 :: u32) = 0 then handle_event demo_ctl ?ev (demo_io, demo_kernel) = Inr (demo_io, demo_kernel)
    else if (0 :: int) \<noteq> 0
      then handle_event demo_ctl ?ev (demo_io, demo_kernel) = Inr (demo_io, demo_kernel(1 := None))
    else \<exists>m'. handle_event demo_ctl ?ev (demo_io, demo_kernel) = Inr (m', demo_kernel(1 := None)) \<and> io_inv m' \<and>
      registered m' = (registered demo_io)(int 1 := 0) \<and>
      io_scheds m' = woken 5 (m_fd_contexts demo_io ! 1) (io_scheds demo_io)"
    by (rule handle_event_outcome [where ctl = demo_ctl, OF demo_io_inv ctx(2)])
      (simp_all only: ctx, simp_all add: demo_ctl_def demo_kernel_def left_op_def)
  then show ?thesis by auto
qed

definition demo_io_read :: "nat iomanager" where
  "demo_io_read = fired 1 EV_WRITE demo_io"

lemma demo_io_read_inv: "io_inv demo_io_read" "m_events (m_fd_contexts demo_io_read ! 1) = 1"
    "1 < length (m_fd_contexts demo_io_read)"
  using trigger_at_eq(2) [OF demo_io_inv, of 1 EV_WRITE]
  by (simp_all add: demo_io_read_def) (simp_all add: demo_io_def)

theorem stale_event_aborts_witness:
  "\<exists>w. handle_event demo_ctl \<lparr>ee_events = EPOLLIN OR EPOLLOUT, ee_data = Data_ctx 1\<rparr>
     (demo_io_read, demo_kernel) = Inl (Assertion w)"
  by (rule stale_event_aborts [where ctl = demo_ctl and real = 5 and ?k1.0 = "demo_kernel(1 := None)",
        OF demo_io_read_inv(1,3)])
    (simp_all only: demo_io_read_inv(2),
      simp_all add: real_events_def demo_ctl_def demo_kernel_def left_op_def)

theorem interest_list_matches_witness:
  "kernel_sync 99 (demo_interest demo_kernel) demo_io \<and>
   (\<exists>m' k'. cancel_all demo_ctl 1 (demo_io, demo_kernel) = Inr (True, m', k') \<and>
      kernel_sync 99 (demo_interest k') m')"
proof -
  obtain m' k' where r: "cancel_all demo_ctl 1 (demo_io, demo_kernel) = Inr (True, m', k')"
    by (simp add: cancel_all_eq [OF demo_io_inv fd_ok_1(1)] demo_io_registered demo_ctl_def demo_kernel_def)
  have "kernel_sync 99 (demo_interest k') m'"
    using interest_list_matches [where interest = demo_interest and ctl = demo_ctl and k = demo_kernel
        and ev = EV_READ, OF demo_ctl_spec demo_kernel_sync demo_io_inv fd_ok_1(1)] r by blast
  with r demo_kernel_sync show ?thesis by blast
qed


definition demo_run_result :: "(u32 \<times> u64 \<times> nat \<times> u32 \<times> u64 \<times> nat task list) option" where
  "demo_run_result =
     (case IOManager_new 3 0 0 0 [] 0 (\<lambda>_. sched_running :: nat sched) of
        Inl _ \<Rightarrow> None
      | Inr m \<Rightarrow>
          (case add_event demo_ctl 50 (Some 0) 3 EV_READ (Some 9) (m, Map.empty, (demo_tls, demo_fibers)) of
             Some (Inr (rt, m1, k1, e)) \<Rightarrow>
               (case handle_event demo_ctl \<lparr>ee_events = EPOLLIN, ee_data = Data_ctx 3\<rparr> (m1, k1) of
                  Inr (m2, k2) \<Rightarrow> Some (registered m1 3, m_pending_event_count m1, length (m_fd_contexts m1), registered m2 3,
                    m_pending_event_count m2, m_fibers (io_scheds m2 0))
                | Inl _ \<Rightarrow> None)
           | _ \<Rightarrow> None))"

lemma demo_run_result: "demo_run_result = Some (1, 1, 32, 0, 0, [\<lparr>ft_item = FT_cb (Some 9), ft_thread = -1\<rparr>])"
  by code_simp

theorem io_events_invariant_witness:
  "\<exists>m m1 k1 m2 k2. IOManager_new 3 0 0 0 [] 0 (\<lambda>_. sched_running :: nat sched) = Inr m \<and>
     (io_step demo_ctl)\<^sup>*\<^sup>* (m, Map.empty) (m1, k1) \<and> io_step demo_ctl (m1, k1) (m2, k2) \<and> io_inv m2 \<and>
     m_pending_event_count m1 = 1 \<and> m_pending_event_count m2 = 0 \<and> registered m1 3 = EV_READ"
proof -
  obtain m rt m1 k1 e m2 k2 where m: "IOManager_new 3 0 0 0 [] 0 (\<lambda>_. sched_running :: nat sched) = Inr m"
    and add: "add_event demo_ctl 50 (Some 0) 3 EV_READ (Some 9) (m, Map.empty, (demo_tls, demo_fibers)) = Some (Inr (rt, m1, k1, e))"
    and h: "handle_event demo_ctl \<lparr>ee_events = EPOLLIN, ee_data = Data_ctx 3\<rparr> (m1, k1) = Inr (m2, k2)"
    and r: "registered m1 3 = 1" "m_pending_event_count m1 = 1" "length (m_fd_contexts m1) = 32" "m_pending_event_count m2 = 0"
    using demo_run_result unfolding demo_run_result_def by (auto split: sum.splits option.splits)
  have s1: "io_step demo_ctl (m, Map.empty) (m1, k1)"
    by (rule io_add [OF _ _ _ add]) (simp_all add: fd_ok_def)
  have s2: "io_step demo_ctl (m1, k1) (m2, k2)"
    by (rule io_event [OF _ h]) (use r in simp_all)
  from io_events_invariant [OF m rtranclp.rtrancl_into_rtrancl [OF r_into_rtranclp [where r = "io_step demo_ctl", OF s1] s2]] m s1 s2 r show ?thesis
    by (intro exI [of _ m] exI [of _ m1] exI [of _ k1] exI [of _ m2] exI [of _ k2]) auto
qed

theorem del_event_race_witness:
  "\<exists>m1 m2 k1 k2. del_event_commit demo_ctl 1 EV_READ EV_WRITE (demo_io, demo_kernel) = Inr (True, m1, k1) \<and>
     del_event_commit demo_ctl 1 EV_READ EV_WRITE (m1, k1) = Inr (True, m2, k2) \<and>
     m_pending_event_count m2 = 0 \<and> \<not> io_inv m2"
proof -
  let ?k = "demo_kernel(1 \<mapsto> EV_WRITE OR EPOLLET)"
  have k: "demo_ctl EPOLL_CTL_MOD 1 (EV_WRITE OR EPOLLET) demo_kernel = (0, ?k)"
    "demo_ctl EPOLL_CTL_MOD 1 (EV_WRITE OR EPOLLET) ?k = (0, ?k)"
    by (simp_all add: demo_ctl_def demo_kernel_def)
  have "registered demo_io 1 = EV_READ OR EV_WRITE" by (simp add: demo_io_registered)
  from del_event_race [where ctl = demo_ctl, OF demo_io_inv fd_ok_1(1) this k]
    event_check_eq [OF fd_ok_1(1), of EV_READ demo_io] demo_io_registered
  show ?thesis by (auto simp: demo_io_def [THEN arg_cong [where f = m_pending_event_count]])
qed

theorem unscheduled_event_crashes_witness:
  "\<exists>m1 k1 w. add_event demo_ctl 50 None 2 EV_READ (Some 9) (demo_io, demo_kernel, (demo_tls, demo_fibers)) =
      Some (Inr (0, m1, k1, (demo_tls, demo_fibers))) \<and>
    cancel_event demo_ctl 2 EV_READ (m1, k1) = Inl (Null_deref w)"
proof -
  let ?k = "demo_kernel(2 \<mapsto> EPOLLET OR EV_READ)"
  have k: "demo_ctl (if registered demo_io 2 \<noteq> 0 then EPOLL_CTL_MOD else EPOLL_CTL_ADD) 2
      (EPOLLET OR registered demo_io 2 OR EV_READ) demo_kernel = (0, ?k)"
    "demo_ctl (left_op (registered demo_io 2)) 2 (registered demo_io 2 OR EPOLLET) ?k = (0, demo_kernel)"
    by (simp_all add: demo_io_registered demo_ctl_def demo_kernel_def left_op_def fun_eq_iff)
  show ?thesis
    using unscheduled_event_crashes [where ctl = demo_ctl and ev = EV_READ, OF demo_io_inv fd_ok_1(2) _ _ k]
    by (fastforce simp: demo_io_registered)
qed

theorem io_stopping_correct_witness:
  "\<not> IO_stopping 60 demo_timers demo_io \<and> io_inv demo_io \<and> registered demo_io 1 \<noteq> 0"
  using io_stopping_correct [OF demo_timers_wf _ demo_io_inv, of 60] demo_io_inv
  by (auto simp: demo_io_registered demo_io_def [THEN arg_cong [where f = m_fd_contexts]])

end
