(* ===== verification/Fd_Manager.thy ===== *)
theory Fd_Manager
  imports IO_Events
begin

text \<open>
  The table of descriptor contexts of src/sylar/fd_manager.h and src/sylar/fd_manager.cc. Contexts are
  shared objects (\<open>FdCtx::ptr\<close>): \<open>fd_heap\<close> holds them by address and \<open>m_datas\<close> is the vector of
  pointers. \<open>getFdCtx\<close> takes the lock twice; its halves are separate definitions.
\<close>

record fd_ctx =
  m_isInit :: bool
  m_isSocket :: bool
  m_sys_nonblock :: bool
  m_user_nonblock :: bool
  m_isClosed :: bool
  m_fd :: int
  m_recv_timeout :: u64
  m_send_timeout :: u64

record fd_manager =
  fd_heap :: "nat \<Rightarrow> fd_ctx option"
  m_datas :: "nat option list"

abbreviation O_NONBLOCK :: u32 where "O_NONBLOCK \<equiv> 2048"
abbreviation SO_RCVTIMEO :: int where "SO_RCVTIMEO \<equiv> 20"
abbreviation SO_SNDTIMEO :: int where "SO_SNDTIMEO \<equiv> 21"

definition FdCtx_new :: "int \<Rightarrow> fd_ctx" where
  "FdCtx_new fd = \<lparr>m_isInit = False, m_isSocket = False, m_sys_nonblock = False,
     m_user_nonblock = False, m_isClosed = False, m_fd = fd, m_recv_timeout = - 1, m_send_timeout = - 1\<rparr>"

text \<open>
  \<open>FdCtx::init\<close>. \<open>stat\<close> is the answer of \<open>fstat\<close> (\<open>None\<close> is -1; else whether it is a socket) and \<open>flags\<close>
  the answer of \<open>fcntl_f(m_fd, F_GETFL, 0)\<close>. The last component is the argument of \<open>F_SETFL\<close>, if called.
\<close>

definition FdCtx_init :: "bool option \<Rightarrow> u32 \<Rightarrow> fd_ctx \<Rightarrow> bool \<times> fd_ctx \<times> u32 option" where
  "FdCtx_init stat flags c =
     (if m_isInit c then (True, c, None)
      else
        let c1 = c\<lparr>m_recv_timeout := - 1, m_send_timeout := - 1\<rparr>;
            c2 = (case stat of
                    None \<Rightarrow> c1\<lparr>m_isInit := False, m_isSocket := False\<rparr>
                  | Some sock \<Rightarrow> c1\<lparr>m_isInit := True, m_isSocket := sock\<rparr>);
            (c3, setfl) = (if m_isSocket c2
                           then (c2\<lparr>m_sys_nonblock := True\<rparr>,
                                 if flags AND O_NONBLOCK = 0 then Some (flags OR O_NONBLOCK) else None)
                           else (c2, None));
            c4 = c3\<lparr>m_user_nonblock := False, m_isClosed := False\<rparr>
        in (m_isInit c4, c4, setfl))"

text \<open>\<open>FdCtx::close\<close> flows off the end of a function that returns a value.\<close>

definition FdCtx_close :: "fd_ctx \<Rightarrow> bool result" where
  "FdCtx_close c = Inl (Undefined ''FdCtx::close() returns no value'')"

definition FdCtx_set_timeout :: "int \<Rightarrow> u64 \<Rightarrow> fd_ctx \<Rightarrow> fd_ctx" where
  "FdCtx_set_timeout type timeout c =
     (if type = SO_RCVTIMEO then c\<lparr>m_recv_timeout := timeout\<rparr> else c\<lparr>m_send_timeout := timeout\<rparr>)"

definition FdCtx_get_timeout :: "int \<Rightarrow> fd_ctx \<Rightarrow> u64" where
  "FdCtx_get_timeout type c = (if type = SO_RCVTIMEO then m_recv_timeout c else m_send_timeout c)"

section \<open>The table\<close>

text \<open>The first half of \<open>getFdCtx\<close>, under the read lock: \<open>Some p\<close> is returned, \<open>None\<close> goes on.\<close>

definition getFdCtx_find :: "int \<Rightarrow> bool \<Rightarrow> fd_manager \<Rightarrow> nat option option" where
  "getFdCtx_find fd auto_create t =
     (if length (m_datas t) \<le> fd_index fd then (if \<not> auto_create then Some None else None)
      else if m_datas t ! fd_index fd \<noteq> None \<or> \<not> auto_create then Some (m_datas t ! fd_index fd)
      else None)"

text \<open>
  The second half, under the write lock, with the new context at address \<open>a\<close>. \<open>resize(fd + 1)\<close> converts
  its argument to \<open>size_t\<close>: below -1 it throws, and at -1 the table is cut to nothing before
  \<open>m_datas[fd]\<close> is written out of range.
\<close>

definition getFdCtx_create :: "nat \<Rightarrow> int \<Rightarrow> fd_manager \<Rightarrow> (nat option \<times> fd_manager) result" where
  "getFdCtx_create a fd t =
     (let h = (fd_heap t)(a \<mapsto> FdCtx_new fd)
      in if length (m_datas t) \<le> fd_index fd then
           (if fd < -1 then Inl (Throws ''std::length_error'')
            else if fd = -1 then Inl (Undefined ''m_datas[-1]'')
            else
              let ds = m_datas t @ replicate (nat fd + 1 - length (m_datas t)) None
              in Inr (Some a, t\<lparr>fd_heap := h, m_datas := ds[nat fd := Some a]\<rparr>))
         else Inr (Some a, t\<lparr>fd_heap := h, m_datas := (m_datas t)[fd_index fd := Some a]\<rparr>))"

definition getFdCtx :: "nat \<Rightarrow> int \<Rightarrow> bool \<Rightarrow> fd_manager \<Rightarrow> (nat option \<times> fd_manager) result" where
  "getFdCtx a fd auto_create t =
     (case getFdCtx_find fd auto_create t of
        Some p \<Rightarrow> Inr (p, t)
      | None \<Rightarrow> getFdCtx_create a fd t)"

definition delFdCtx :: "int \<Rightarrow> fd_manager \<Rightarrow> fd_manager" where
  "delFdCtx fd t =
     (if length (m_datas t) \<le> fd_index fd then t else t\<lparr>m_datas := (m_datas t)[fd_index fd := None]\<rparr>)"

section \<open>The table as a map\<close>

definition fd_entry :: "fd_manager \<Rightarrow> int \<Rightarrow> nat option" where
  "fd_entry t fd =
     (if 0 \<le> fd \<and> nat fd < length (m_datas t) then m_datas t ! nat fd else None)"

text \<open>What the hooks rely on: lookup, creation on demand and deletion behave as on a map.\<close>

locale descriptor_table =
  fixes entry :: "'t \<Rightarrow> int \<Rightarrow> nat option"
    and look :: "int \<Rightarrow> 't \<Rightarrow> nat option"
    and create :: "nat \<Rightarrow> int \<Rightarrow> 't \<Rightarrow> nat \<times> 't"
    and drop_fd :: "int \<Rightarrow> 't \<Rightarrow> 't"
  assumes look_entry: "fd_ok fd \<Longrightarrow> look fd t = entry t fd"
    and create_entry: "fd_ok fd \<Longrightarrow> create a fd t = (b, t') \<Longrightarrow>
      entry t' = (entry t)(fd \<mapsto> b) \<and> b = (case entry t fd of Some p \<Rightarrow> p | None \<Rightarrow> a)"
    and drop_entry: "fd_ok fd \<Longrightarrow> entry (drop_fd fd t) = (entry t)(fd := None)"
begin

lemma create_look:
  assumes "fd_ok fd" and "fd_ok fd'" and "create a fd t = (b, t')"
  shows "look fd' t' = (if fd' = fd then Some b else look fd' t)"
  using assms create_entry [OF assms(1,3)] by (simp add: look_entry)

lemma create_again: "fd_ok fd \<Longrightarrow> create a fd t = (b, t') \<Longrightarrow> fst (create a2 fd t') = b"
  using create_entry [of fd a t b t'] create_entry [of fd a2 t'] by (cases "create a2 fd t'") auto

lemma drop_look: "fd_ok fd \<Longrightarrow> fd_ok fd' \<Longrightarrow> look fd' (drop_fd fd t) = (if fd' = fd then None else look fd' t)"
  by (simp add: look_entry drop_entry)

lemma drop_create: "fd_ok fd \<Longrightarrow> fst (create a fd (drop_fd fd t)) = a"
  using create_entry [of fd a "drop_fd fd t"] drop_entry [of fd t]
  by (cases "create a fd (drop_fd fd t)") auto

end

lemma getFdCtx_look: "fd_ok fd \<Longrightarrow> getFdCtx a fd False t = Inr (fd_entry t fd, t)"
  by (simp add: getFdCtx_def getFdCtx_find_def fd_ok_index fd_entry_def) (simp add: fd_ok_def)

lemma getFdCtx_auto:
  assumes fd: "fd_ok fd"
  shows "\<exists>t'. getFdCtx a fd True t = Inr (Some (case fd_entry t fd of Some p \<Rightarrow> p | None \<Rightarrow> a), t') \<and>
    fd_entry t' = (fd_entry t)(fd \<mapsto> (case fd_entry t fd of Some p \<Rightarrow> p | None \<Rightarrow> a)) \<and>
    fd_heap t' = (if fd_entry t fd = None then (fd_heap t)(a \<mapsto> FdCtx_new fd) else fd_heap t)"
proof -
  have nonneg: "0 \<le> fd" "\<not> fd < -1" "fd \<noteq> -1" using fd by (auto simp: fd_ok_def)
  note ix = fd_ok_index [OF fd]
  show ?thesis
  proof (cases "fd_entry t fd")
    case (Some p)
    then show ?thesis
      using nonneg ix
      by (auto simp: getFdCtx_def getFdCtx_find_def fd_entry_def fun_eq_iff split: if_splits)
  next
    case None
    then have find: "getFdCtx_find fd True t = None"
      using nonneg ix by (auto simp: getFdCtx_find_def fd_entry_def split: if_splits)
    show ?thesis
    proof (cases "length (m_datas t) \<le> nat fd")
      case True
      then show ?thesis
        using None find nonneg ix
        by (auto simp: getFdCtx_def getFdCtx_create_def Let_def fd_entry_def fun_eq_iff nth_append
            nth_list_update intro!: nth_replicate diff_less_mono)
    next
      case False
      then show ?thesis
        using None find nonneg ix
        by (auto simp: getFdCtx_def getFdCtx_create_def Let_def fd_entry_def fun_eq_iff nth_list_update)
    qed
  qed
qed

lemma delFdCtx_entry: "fd_ok fd \<Longrightarrow> fd_entry (delFdCtx fd t) = (fd_entry t)(fd := None)"
  by (auto simp: delFdCtx_def fd_ok_index fd_entry_def fun_eq_iff nth_list_update fd_ok_def)

definition fd_created :: "nat \<Rightarrow> int \<Rightarrow> fd_manager \<Rightarrow> nat \<times> fd_manager" where
  "fd_created a fd t = (case getFdCtx a fd True t of Inr (Some b, t') \<Rightarrow> (b, t') | _ \<Rightarrow> (a, t))"

interpretation fds: descriptor_table fd_entry "\<lambda>fd t. case getFdCtx 0 fd False t of Inr (p, _) \<Rightarrow> p | _ \<Rightarrow> None"
  fd_created delFdCtx
proof unfold_locales
  fix fd t a b and t' :: fd_manager
  assume fd: "fd_ok fd"
  show "(case getFdCtx 0 fd False t of Inr (p, _) \<Rightarrow> p | _ \<Rightarrow> None) = fd_entry t fd"
    by (simp add: getFdCtx_look [OF fd])
  show "fd_entry t' = (fd_entry t)(fd \<mapsto> b) \<and> b = (case fd_entry t fd of Some p \<Rightarrow> p | None \<Rightarrow> a)"
    if "fd_created a fd t = (b, t')"
    using getFdCtx_auto [OF fd, of a t] that by (auto simp: fd_created_def)
  show "fd_entry (delFdCtx fd t) = (fd_entry t)(fd := None)"
    by (rule delFdCtx_entry [OF fd])
qed

section \<open>Two threads creating a context\<close>

lemma getFdCtx_create_entry:
  assumes "fd_ok fd"
  shows "\<exists>t'. getFdCtx_create a fd t = Inr (Some a, t') \<and> fd_entry t' = (fd_entry t)(fd \<mapsto> a) \<and>
    fd_heap t' = (fd_heap t)(a \<mapsto> FdCtx_new fd)"
proof -
  have nonneg: "0 \<le> fd" "\<not> fd < -1" "fd \<noteq> -1" using assms by (auto simp: fd_ok_def)
  note ix = fd_ok_index [OF assms]
  show ?thesis
    using nonneg ix
    by (auto simp: getFdCtx_create_def fd_entry_def fun_eq_iff nth_list_update nth_append Let_def)
      (intro nth_replicate diff_less_mono, simp_all)
qed

text \<open>
  Theorem (fd_context_lost). Two threads that ask for the context of the same new descriptor can both find none under the
  read lock; each then creates one under the write lock without looking again. The first gets a context that the
  table no longer has: what it sets there (a time-out, non-blocking mode) is not seen by any later call.
\<close>

theorem fd_context_lost:
  assumes "fd_ok fd" and "fd_entry t fd = None" and "a \<noteq> b"
  shows "getFdCtx_find fd True t = None \<and>
    (\<exists>t1 t2. getFdCtx_create a fd t = Inr (Some a, t1) \<and> getFdCtx_create b fd t1 = Inr (Some b, t2) \<and>
       getFdCtx 0 fd False (t2\<lparr>fd_heap := (fd_heap t2)(a \<mapsto> FdCtx_set_timeout ty ms (FdCtx_new fd))\<rparr>) =
         Inr (Some b, t2\<lparr>fd_heap := (fd_heap t2)(a \<mapsto> FdCtx_set_timeout ty ms (FdCtx_new fd))\<rparr>) \<and>
       fd_heap t2 b = Some (FdCtx_new fd))"
proof -
  obtain t1 where t1: "getFdCtx_create a fd t = Inr (Some a, t1)" using getFdCtx_create_entry [OF assms(1)] by blast
  obtain t2 where t2: "getFdCtx_create b fd t1 = Inr (Some b, t2)" "fd_entry t2 fd = Some b"
    "fd_heap t2 b = Some (FdCtx_new fd)" using getFdCtx_create_entry [OF assms(1), of b t1] by auto
  have "fd_entry (t2\<lparr>fd_heap := x\<rparr>) fd = Some b" for x using t2(2) by (auto simp: fd_entry_def split: if_splits)
  moreover have "getFdCtx_find fd True t = None"
    using assms(1,2) fd_ok_index [OF assms(1)]
    by (auto simp: getFdCtx_find_def fd_entry_def fd_ok_def split: if_splits)
  ultimately show ?thesis using t1 t2 getFdCtx_look [OF assms(1)] by auto
qed

theorem fd_context_lost_witness:
  "\<exists>t1 t2. getFdCtx_create 1 4 \<lparr>fd_heap = Map.empty, m_datas = []\<rparr> = Inr (Some 1, t1) \<and>
     getFdCtx_create 2 4 t1 = Inr (Some 2, t2) \<and> fd_heap t2 2 = Some (FdCtx_new 4)"
  using fd_context_lost [of 4 "\<lparr>fd_heap = Map.empty, m_datas = []\<rparr>" 1 2]
  by (fastforce simp: fd_ok_def fd_entry_def)

end
