(* ===== verification/Hook.thy ===== *)
theory Hook
  imports Fd_Manager
begin

text \<open>
  The hooked system calls of src/sylar/hook.cc. A raw call (\<open>read_f\<close>, \<open>connect_f\<close>, ...) is the
  operating system's: its successive answers, and the ways a suspended fiber is resumed, are the inputs of
  the model, and the calls the hook makes are its outputs. Where a hook only touches the descriptor
  table, the timers, the events and the fibers of this development, it is composed of their
  operations.
\<close>

abbreviation EINTR :: int where "EINTR \<equiv> 4"
abbreviation EBADF :: int where "EBADF \<equiv> 9"
abbreviation EAGAIN :: int where "EAGAIN \<equiv> 11"
abbreviation ETIMEDOUT :: int where "ETIMEDOUT \<equiv> 110"
abbreviation EINPROGRESS :: int where "EINPROGRESS \<equiv> 115"

section \<open>I/O calls\<close>

text \<open>
  Inputs: a raw call answers \<open>n\<close> with \<open>errno\<close>; \<open>add_event\<close> answers \<open>rt\<close> (and leaves an \<open>errno\<close>); the fiber is resumed and
  finds \<open>tinfo->cancelled\<close>. Outputs: the raw call, the conditional timer, the event, the timer's
  cancellation and the suspension. \<open>Io_open\<close> is a call that has not returned yet. The calling thread
  belongs to an \<open>IOManager\<close> (on any other, \<open>IOManager::GetThis()\<close> is null).
\<close>

datatype io_input = In_raw int int | In_add int int | In_resumed int

datatype io_act = Do_raw | Do_timer u64 | Do_add_event u32 | Do_cancel_timer | Do_yield

datatype io_end = Io_returns int int | Io_open

definition prefix_acts :: "io_act list \<Rightarrow> io_act list \<times> io_end \<Rightarrow> io_act list \<times> io_end" where
  "prefix_acts as r = (as @ fst r, snd r)"

definition timer_acts :: "u64 \<Rightarrow> io_act list" where
  "timer_acts timeout = (if timeout \<noteq> - 1 then [Do_timer timeout] else [])"

definition cancel_acts :: "u64 \<Rightarrow> io_act list" where
  "cancel_acts timeout = (if timeout \<noteq> - 1 then [Do_cancel_timer] else [])"

text \<open>The loop of \<open>do_io\<close> for a blocking socket; \<open>timeout\<close> is \<open>ctx->get_timeout(timeout_so)\<close>.\<close>

fun do_io_loop :: "u64 \<Rightarrow> io_input list \<Rightarrow> io_act list \<times> io_end" where
  "do_io_loop timeout (In_raw n err # ins) =
     prefix_acts [Do_raw]
       (if n = -1 \<and> err = EINTR then do_io_loop timeout ins
        else if n = -1 \<and> err = EAGAIN then
          prefix_acts (timer_acts timeout @ [Do_add_event EV_READ])
            (case ins of
               In_add rt err1 # ins1 \<Rightarrow>
                 if rt \<noteq> 0 then (cancel_acts timeout, Io_returns (-1) err1)
                 else prefix_acts [Do_yield]
                   (case ins1 of
                      In_resumed cancelled # ins2 \<Rightarrow>
                        prefix_acts (cancel_acts timeout)
                          (if cancelled \<noteq> 0 then ([], Io_returns (-1) cancelled)
                           else do_io_loop timeout ins2)
                    | _ \<Rightarrow> ([], Io_open))
             | _ \<Rightarrow> ([], Io_open))
        else ([], Io_returns n err))"
| "do_io_loop timeout _ = ([], Io_open)"

text \<open>A raw call whose answer is the hook's.\<close>

definition pass_through :: "io_input list \<Rightarrow> io_act list \<times> io_end" where
  "pass_through ins =
     ([Do_raw], case ins of In_raw n err # _ \<Rightarrow> Io_returns n err | _ \<Rightarrow> Io_open)"

text \<open>
  \<open>do_io\<close>. With hooks off the raw function is called and its result dropped; control then falls into
  the rest. \<open>event\<close> is not used: the source passes the constant 1. (\<open>getFdCtx\<close> does not change the table.)
\<close>

definition do_io_hooked ::
    "int \<Rightarrow> u32 \<Rightarrow> int \<Rightarrow> io_input list \<Rightarrow> fd_manager \<Rightarrow> (io_act list \<times> io_end) result" where
  "do_io_hooked fd event timeout_so ins t =
     rbind (getFdCtx 0 fd False t) (\<lambda>(p, _).
       case p of
         None \<Rightarrow> Inr (pass_through ins)
       | Some a \<Rightarrow>
           (case fd_heap t a of
              None \<Rightarrow> Inl (Undefined ''dangling FdCtx'')
            | Some c \<Rightarrow>
                if m_isClosed c then Inr ([], Io_returns (-1) EBADF)
                else if \<not> m_isSocket c \<or> m_user_nonblock c then Inr (pass_through ins)
                else Inr (do_io_loop (FdCtx_get_timeout timeout_so c) ins)))"

definition do_io ::
    "bool \<Rightarrow> int \<Rightarrow> u32 \<Rightarrow> int \<Rightarrow> io_input list \<Rightarrow> fd_manager \<Rightarrow> (io_act list \<times> io_end) result" where
  "do_io hook_enable fd event timeout_so ins t =
     (if \<not> hook_enable
      then rbind (do_io_hooked fd event timeout_so (tl ins) t) (\<lambda>r. Inr (prefix_acts [Do_raw] r))
      else do_io_hooked fd event timeout_so ins t)"

definition hook_read :: "bool \<Rightarrow> int \<Rightarrow> io_input list \<Rightarrow> fd_manager \<Rightarrow> (io_act list \<times> io_end) result" where
  "hook_read en fd ins t = do_io en fd EV_READ SO_RCVTIMEO ins t"

definition hook_write :: "bool \<Rightarrow> int \<Rightarrow> io_input list \<Rightarrow> fd_manager \<Rightarrow> (io_act list \<times> io_end) result" where
  "hook_write en fd ins t = do_io en fd EV_WRITE SO_SNDTIMEO ins t"

text \<open>\<open>accept\<close>: the new descriptor gets a context at address \<open>a\<close>.\<close>

definition hook_accept ::
    "bool \<Rightarrow> nat \<Rightarrow> int \<Rightarrow> io_input list \<Rightarrow> fd_manager \<Rightarrow> (io_act list \<times> io_end \<times> fd_manager) result" where
  "hook_accept en a sockfd ins t =
     rbind (do_io en sockfd EV_READ SO_RCVTIMEO ins t) (\<lambda>(as, r).
       case r of
         Io_returns fd err \<Rightarrow>
           (if 0 \<le> fd then rbind (getFdCtx a fd True t) (\<lambda>(_, t1). Inr (as, r, t1))
            else Inr (as, r, t))
       | Io_open \<Rightarrow> Inr (as, r, t))"

text \<open>\<open>socket\<close>: \<open>fd\<close> is the answer of \<open>socket_f\<close>.\<close>

definition hook_socket :: "bool \<Rightarrow> nat \<Rightarrow> int \<Rightarrow> fd_manager \<Rightarrow> (int \<times> fd_manager) result" where
  "hook_socket en a fd t =
     (if \<not> en then Inr (fd, t)
      else if fd = -1 then Inr (fd, t)
      else rbind (getFdCtx a fd True t) (\<lambda>(_, t1). Inr (fd, t1)))"

text \<open>
  \<open>connect_with_timeout\<close>: inputs are the answer of \<open>connect_f\<close>, of \<open>add_event\<close>, the resumption, and the
  answer of \<open>getsockopt(SO_ERROR)\<close> (\<open>In_raw rt error\<close>).
\<close>

definition connect_result :: "io_input list \<Rightarrow> io_end" where
  "connect_result ins =
     (case ins of
        In_raw rt err # _ \<Rightarrow>
          if rt = -1 then Io_returns (-1) err else if err = 0 then Io_returns 0 0 else Io_returns (-1) err
      | _ \<Rightarrow> Io_open)"

definition connect_wait :: "u64 \<Rightarrow> io_input list \<Rightarrow> io_act list \<times> io_end" where
  "connect_wait timeout_ms ins =
     prefix_acts (timer_acts timeout_ms @ [Do_add_event EV_WRITE])
       (case ins of
          In_add rt _ # ins1 \<Rightarrow>
            if rt = 0 then
              prefix_acts [Do_yield]
                (case ins1 of
                   In_resumed cancelled # ins2 \<Rightarrow>
                     (cancel_acts timeout_ms,
                      if cancelled \<noteq> 0 then Io_returns (-1) cancelled else connect_result ins2)
                 | _ \<Rightarrow> ([], Io_open))
            else (cancel_acts timeout_ms, connect_result ins1)
        | _ \<Rightarrow> ([], Io_open))"

definition connect_with_timeout ::
    "bool \<Rightarrow> int \<Rightarrow> u64 \<Rightarrow> io_input list \<Rightarrow> fd_manager \<Rightarrow> (io_act list \<times> io_end) result" where
  "connect_with_timeout en fd timeout_ms ins t =
     (if \<not> en then Inr (pass_through ins)
      else
        rbind (getFdCtx 0 fd False t) (\<lambda>(p, _).
          case p of
            None \<Rightarrow> Inr ([], Io_returns (-1) EBADF)
          | Some a \<Rightarrow>
              (case fd_heap t a of
                 None \<Rightarrow> Inl (Undefined ''dangling FdCtx'')
               | Some c \<Rightarrow>
                   if m_isClosed c then Inr ([], Io_returns (-1) EBADF)
                   else if \<not> m_isSocket c \<or> m_user_nonblock c then Inr (pass_through ins)
                   else
                     Inr (prefix_acts [Do_raw]
                       (case ins of
                          In_raw n err # ins1 \<Rightarrow>
                            if n = 0 then ([], Io_returns 0 err)
                            else if n \<noteq> -1 \<or> err \<noteq> EINPROGRESS then ([], Io_returns n err)
                            else connect_wait timeout_ms ins1
                        | _ \<Rightarrow> ([], Io_open))))))"

section \<open>Descriptor options\<close>

text \<open>
  \<open>fcntl\<close>, \<open>ioctl\<close> and \<open>setsockopt\<close> up to the raw call: the table after the hook and the argument
  that is passed on. \<open>fcntl(F_GETFL)\<close> edits the raw answer.
\<close>

definition open_socket :: "int \<Rightarrow> fd_manager \<Rightarrow> ((nat \<times> fd_ctx) option) result" where
  "open_socket fd t =
     rbind (getFdCtx 0 fd False t) (\<lambda>(p, _).
       case p of
         None \<Rightarrow> Inr None
       | Some a \<Rightarrow>
           (case fd_heap t a of
              None \<Rightarrow> Inl (Undefined ''dangling FdCtx'')
            | Some c \<Rightarrow> Inr (if m_isClosed c \<or> \<not> m_isSocket c then None else Some (a, c))))"

definition fcntl_setfl :: "int \<Rightarrow> u32 \<Rightarrow> fd_manager \<Rightarrow> (u32 \<times> fd_manager) result" where
  "fcntl_setfl fd arg t =
     rbind (open_socket fd t) (\<lambda>s.
       case s of
         None \<Rightarrow> Inr (arg, t)
       | Some (a, c) \<Rightarrow>
           let t1 = t\<lparr>fd_heap := (fd_heap t)(a \<mapsto> c\<lparr>m_user_nonblock := arg AND O_NONBLOCK \<noteq> 0\<rparr>)\<rparr>
           in Inr (if m_sys_nonblock c then arg OR O_NONBLOCK else arg AND NOT O_NONBLOCK, t1))"

definition fcntl_getfl :: "int \<Rightarrow> u32 \<Rightarrow> fd_manager \<Rightarrow> u32 result" where
  "fcntl_getfl fd flags t =
     rbind (open_socket fd t) (\<lambda>s.
       case s of
         None \<Rightarrow> Inr flags
       | Some (a, c) \<Rightarrow> Inr (if m_user_nonblock c then flags OR O_NONBLOCK else flags AND NOT O_NONBLOCK))"

definition ioctl_fionbio :: "int \<Rightarrow> int \<Rightarrow> fd_manager \<Rightarrow> fd_manager result" where
  "ioctl_fionbio fd arg t =
     rbind (open_socket fd t) (\<lambda>s.
       case s of
         None \<Rightarrow> Inr t
       | Some (a, c) \<Rightarrow> Inr (t\<lparr>fd_heap := (fd_heap t)(a \<mapsto> c\<lparr>m_user_nonblock := arg \<noteq> 0\<rparr>)\<rparr>))"

text \<open>\<open>ioctl\<close> and \<open>setsockopt\<close> before their raw calls; \<open>sec\<close> and \<open>usec\<close> are the fields of the \<open>timeval\<close>.\<close>

abbreviation FIONBIO :: int where "FIONBIO \<equiv> 0x5421"
abbreviation SOL_SOCKET :: int where "SOL_SOCKET \<equiv> 1"

definition hook_ioctl :: "int \<Rightarrow> int \<Rightarrow> int \<Rightarrow> fd_manager \<Rightarrow> fd_manager result" where
  "hook_ioctl fd request arg t = (if request = FIONBIO then ioctl_fionbio fd arg t else Inr t)"

definition hook_setsockopt :: "bool \<Rightarrow> int \<Rightarrow> int \<Rightarrow> int \<Rightarrow> int \<Rightarrow> int \<Rightarrow> fd_manager \<Rightarrow> fd_manager result" where
  "hook_setsockopt en fd level optname sec usec t =
     (if \<not> en \<or> level \<noteq> SOL_SOCKET \<or> optname \<notin> {SO_RCVTIMEO, SO_SNDTIMEO} then Inr t
      else
        rbind (getFdCtx 0 fd False t) (\<lambda>(p, _).
          case p of
            None \<Rightarrow> Inr t
          | Some a \<Rightarrow>
              (case fd_heap t a of
                 None \<Rightarrow> Inl (Undefined ''dangling FdCtx'')
               | Some c \<Rightarrow> Inr (t\<lparr>fd_heap := (fd_heap t)(a \<mapsto>
                   FdCtx_set_timeout optname (word_of_int (sec * 1000 + c_div usec 1000)) c)\<rparr>))))"

text \<open>\<open>close\<close> before \<open>close_f\<close>: all events of the descriptor are cancelled and its context dropped.\<close>

definition hook_close ::
    "'k epoll_ctl \<Rightarrow> bool \<Rightarrow> bool \<Rightarrow> int \<Rightarrow> fd_manager \<times> 'cb iomanager \<times> 'k
       \<Rightarrow> (fd_manager \<times> 'cb iomanager \<times> 'k) result" where
  "hook_close ctl en iom fd = (\<lambda>(t, m, k).
     if \<not> en then Inr (t, m, k)
     else
       rbind (getFdCtx 0 fd False t) (\<lambda>(p, _).
         if p = None then Inr (t, m, k)
         else if \<not> iom then Inl (Null_deref ''IOManager::GetThis()'')
         else rbind (cancel_all ctl fd (m, k)) (\<lambda>(_, m1, k1). Inr (delFdCtx fd t, m1, k1))))"


text \<open>\<open>connect\<close> uses \<open>s_connect_timeout\<close>, which keeps the value that \<open>tcp_connect_timeout\<close> had at start-up.\<close>

definition hook_connect ::
    "bool \<Rightarrow> u64 \<Rightarrow> int \<Rightarrow> io_input list \<Rightarrow> fd_manager \<Rightarrow> (io_act list \<times> io_end) result" where
  "hook_connect en s_connect_timeout fd ins t = connect_with_timeout en fd s_connect_timeout ins t"

section \<open>Contexts that are never initialised\<close>

text \<open>The calls that touch the table, from an empty one.\<close>

inductive table_step :: "fd_manager \<Rightarrow> fd_manager \<Rightarrow> bool" where
  ts_socket: "hook_socket en a fd t = Inr (r, t') \<Longrightarrow> fd = -1 \<or> fd_ok fd \<Longrightarrow> table_step t t'"
| ts_accept: "hook_accept en a fd ins t = Inr (as, r, t') \<Longrightarrow> fd_ok fd \<Longrightarrow>
    (\<And>n err. r = Io_returns n err \<Longrightarrow> n < 2 ^ 31) \<Longrightarrow> table_step t t'"
| ts_setfl: "fcntl_setfl fd arg t = Inr (r, t') \<Longrightarrow> table_step t t'"
| ts_ioctl: "hook_ioctl fd req n t = Inr t' \<Longrightarrow> table_step t t'"
| ts_setsockopt: "hook_setsockopt en fd level opt sec usec t = Inr t' \<Longrightarrow> table_step t t'"
| ts_close: "table_step t (delFdCtx fd t)"

definition table_empty :: fd_manager where
  "table_empty = \<lparr>fd_heap = Map.empty, m_datas = []\<rparr>"

definition table_ok :: "fd_manager \<Rightarrow> bool" where
  "table_ok t \<longleftrightarrow> (\<forall>a. Some a \<in> set (m_datas t) \<longrightarrow> fd_heap t a \<noteq> None) \<and>
     (\<forall>a c. fd_heap t a = Some c \<longrightarrow> \<not> m_isSocket c \<and> \<not> m_isClosed c)"

lemma table_ok_create:
  assumes "table_ok t" and "getFdCtx a fd True t = Inr (p, t')" and "fd_ok fd"
  shows "table_ok t'"
proof (cases "getFdCtx_find fd True t")
  case (Some q)
  then show ?thesis using assms by (simp add: getFdCtx_def)
next
  case None
  then have t': "fd_heap t' = (fd_heap t)(a \<mapsto> FdCtx_new fd)"
      "set (m_datas t') \<subseteq> insert (Some a) (insert None (set (m_datas t)))"
    using assms(2,3) set_update_subset_insert
    by (auto simp: getFdCtx_def getFdCtx_create_def Let_def fd_ok_def split: if_splits
        dest!: set_update_subset_insert [THEN subsetD])
  then show ?thesis
    using assms(1) by (auto simp: table_ok_def FdCtx_new_def)
qed

lemma open_socket_none: "table_ok t \<Longrightarrow> open_socket fd t = Inr s \<Longrightarrow> s = None"
  by (auto simp: open_socket_def table_ok_def result_simps split: option.splits)

lemma table_ok_step: "table_step t t' \<Longrightarrow> table_ok t \<Longrightarrow> table_ok t'"
proof (induction rule: table_step.induct)
  case (ts_socket en a fd t r t')
  then show ?case
    by (auto simp: hook_socket_def result_simps split: if_splits intro: table_ok_create)
next
  case (ts_accept en a fd ins t as r t')
  then have "t' = t \<or> (\<exists>n err p. r = Io_returns n err \<and> 0 \<le> n \<and> getFdCtx a n True t = Inr (p, t'))"
    by (cases "do_io en fd EV_READ SO_RCVTIMEO ins t")
      (auto simp: hook_accept_def result_simps split: io_end.splits if_splits)
  then show ?case
    using ts_accept(3,4) table_ok_create [of t a] by (auto simp: fd_ok_def)
next
  case (ts_setfl fd arg t r t')
  then have "open_socket fd t = Inr None"
    using open_socket_none by (cases "open_socket fd t") (auto simp: fcntl_setfl_def)
  with ts_setfl show ?case by (simp add: fcntl_setfl_def)
next
  case (ts_ioctl fd req n t t')
  then have "req = FIONBIO \<Longrightarrow> open_socket fd t = Inr None"
    using open_socket_none by (cases "open_socket fd t") (auto simp: hook_ioctl_def ioctl_fionbio_def)
  with ts_ioctl show ?case by (auto simp: hook_ioctl_def ioctl_fionbio_def split: if_splits)
next
  case (ts_setsockopt en fd level opt sec usec t t')
  then have "t' = t \<or> (\<exists>a c to. fd_heap t a = Some c \<and>
      t' = t\<lparr>fd_heap := (fd_heap t)(a \<mapsto> FdCtx_set_timeout opt to c)\<rparr>)"
    by (cases "getFdCtx 0 fd False t")
      (auto simp: hook_setsockopt_def split: if_splits option.splits prod.splits)
  with ts_setsockopt(2) show ?case
    by (auto simp: table_ok_def FdCtx_set_timeout_def split: if_splits)
next
  case (ts_close t fd)
  then show ?case
    by (auto simp: delFdCtx_def table_ok_def dest!: set_update_subset_insert [THEN subsetD])
qed

lemma fd_entry_valid: "table_ok t \<Longrightarrow> fd_entry t fd = Some a \<Longrightarrow> \<exists>c. fd_heap t a = Some c"
  unfolding table_ok_def fd_entry_def by (metis not_None_eq nth_mem option.distinct(1))

text \<open>
  C26 (hooks_never_engage). No code calls \<open>FdCtx::init\<close>, so \<open>m_isSocket\<close> is false in every context. Whatever
  sequence of hooked calls led to the present table, with hooks on an I/O call hands the call to the raw function once and returns its
  answer, also \<open>EAGAIN\<close>; \<open>connect\<close> does the same for a descriptor that has a context and answers \<open>EBADF\<close> without a call for one that has none. Neither
  waits for an event or arms a timer. (With hooks off the call is made twice, see \<open>hooks_off_call_twice\<close>.)
\<close>

theorem hooks_never_engage:
  assumes "table_step\<^sup>*\<^sup>* table_empty t" and "fd_ok fd"
  shows "do_io True fd event timeout_so ins t = Inr (pass_through ins) \<and>
    connect_with_timeout True fd ms ins t =
      (if fd_entry t fd = None then Inr ([], Io_returns (-1) EBADF) else Inr (pass_through ins))"
proof -
  have ok: "table_ok t"
    using assms(1)
  proof (induction rule: rtranclp_induct)
    case base
    then show ?case by (simp add: table_ok_def table_empty_def)
  next
    case (step t t')
    then show ?case using table_ok_step by blast
  qed
  show ?thesis
  proof (cases "fd_entry t fd")
    case None
    then show ?thesis
      using getFdCtx_look [OF assms(2), of 0 t]
      by (simp add: do_io_def do_io_hooked_def connect_with_timeout_def)
  next
    case (Some a)
    with fd_entry_valid [OF ok] obtain c where c: "fd_heap t a = Some c" by blast
    with ok have "\<not> m_isSocket c" "\<not> m_isClosed c" by (auto simp: table_ok_def)
    with c Some show ?thesis
      using getFdCtx_look [OF assms(2), of 0 t]
      by (simp add: do_io_def do_io_hooked_def connect_with_timeout_def)
  qed
qed

theorem hooks_never_engage_witness:
  "\<exists>t. table_step\<^sup>*\<^sup>* table_empty t \<and> fd_entry t 3 = Some 1 \<and>
     do_io True 3 EV_READ SO_RCVTIMEO [In_raw (-1) EAGAIN] t = Inr ([Do_raw], Io_returns (-1) EAGAIN) \<and>
     connect_with_timeout True 3 5000 [In_raw (-1) EINPROGRESS] t = Inr ([Do_raw], Io_returns (-1) EINPROGRESS) \<and>
     connect_with_timeout True 4 5000 [In_raw (-1) EINPROGRESS] table_empty = Inr ([], Io_returns (-1) EBADF)"
proof -
  have fd: "fd_ok 3" and fd4: "fd_ok 4" by (simp_all add: fd_ok_def)
  obtain t where t: "getFdCtx 1 3 True table_empty = Inr (Some 1, t)" "fd_entry t 3 = Some 1"
  proof -
    have "fd_entry table_empty 3 = None" by (simp add: fd_entry_def table_empty_def)
    with getFdCtx_auto [OF fd, of 1 table_empty] that show ?thesis by auto
  qed
  then have "hook_socket True 1 3 table_empty = Inr (3, t)" by (simp add: hook_socket_def)
  then have "table_step\<^sup>*\<^sup>* table_empty t" using fd ts_socket by blast
  with hooks_never_engage [OF this fd, of EV_READ SO_RCVTIMEO "[In_raw (-1) EAGAIN]"] t(2)
    hooks_never_engage [OF this fd, of EV_READ SO_RCVTIMEO "[In_raw (-1) EINPROGRESS]" 5000]
    hooks_never_engage [OF rtranclp.rtrancl_refl fd4, of EV_READ SO_RCVTIMEO "[In_raw (-1) EINPROGRESS]" 5000]
  show ?thesis by (fastforce simp: pass_through_def fd_entry_def table_empty_def)
qed

text \<open>
  Theorem (hooks_off_call_twice). With hooks off, \<open>do_io\<close> lacks a \<open>return\<close>: the raw function is called, its answer
  is dropped, and for a descriptor without a context, or whose context is no socket, it is called
  again; the caller sees the second answer only.
\<close>

theorem hooks_off_call_twice:
  assumes "fd_ok fd" and "\<forall>a c. fd_entry t fd = Some a \<and> fd_heap t a = Some c \<longrightarrow> \<not> m_isSocket c \<and> \<not> m_isClosed c"
    and "\<forall>a. fd_entry t fd = Some a \<longrightarrow> fd_heap t a \<noteq> None"
  shows "do_io False fd event timeout_so (In_raw n err # In_raw n' err' # ins) t =
    Inr ([Do_raw, Do_raw], Io_returns n' err')"
  using assms getFdCtx_look [OF assms(1), of 0 t]
  by (auto simp: do_io_def do_io_hooked_def pass_through_def prefix_acts_def split: option.split)

theorem hooks_off_call_twice_witness:
  "do_io False 3 EV_READ SO_RCVTIMEO [In_raw 10 0, In_raw 7 0] table_empty =
     Inr ([Do_raw, Do_raw], Io_returns 7 0)"
  by (rule hooks_off_call_twice) (simp_all add: fd_ok_def fd_entry_def table_empty_def)


section \<open>Flags\<close>

lemma and_2048_bit: "(x :: u32) AND 2048 = (if bit x 11 then 2048 else 0)"
proof (rule bit_word_eqI)
  fix n have "bit (2048 :: u32) n \<longleftrightarrow> n = 11" if "n < LENGTH(32)"
    using bit_exp_iff [of 11 n, where ?'a = u32] that by simp
  moreover assume "n < LENGTH(32)"
  ultimately show "bit (x AND 2048) n = bit (if bit x 11 then 2048 else 0 :: u32) n"
    by (auto simp: bit_simps)
qed

lemma or_and_absorb: "((x :: u32) OR b) AND NOT b = x AND NOT b" "((x :: u32) AND NOT b) OR b = x OR b"
  by (simp_all add: bit.conj_disj_distrib2 bit.disj_conj_distrib2)

lemma or_absorb_on:
  assumes "(x :: u32) AND b = b"
  shows "x OR b = x"
proof (rule bit_word_eqI)
  fix n have "bit (x AND b) n = bit b n" using assms by simp
  then show "bit (x OR b) n = bit x n" by (auto simp: bit_simps)
qed

lemma and_not_absorb_off:
  assumes "(x :: u32) AND b = 0"
  shows "x AND NOT b = x"
proof (rule bit_word_eqI)
  fix n assume "n < LENGTH(32)"
  moreover have "bit (x AND b) n = bit (0 :: u32) n" using assms by simp
  ultimately show "bit (x AND NOT b) n = bit x n" by (auto simp: bit_simps)
qed

lemma flag_view:
  fixes arg b :: u32
  defines "raw \<equiv> \<lambda>s. if s then arg OR b else arg AND NOT b"
  shows "arg AND b = b \<Longrightarrow> raw s OR b = arg" and "arg AND b = 0 \<Longrightarrow> raw s AND NOT b = arg"
  by (simp_all add: raw_def or_and_absorb or_absorb_on and_not_absorb_off and.assoc or.assoc)

section \<open>The waiting loop\<close>

lemma prefix_acts_simps [simp]: "fst (prefix_acts as r) = as @ fst r" "snd (prefix_acts as r) = snd r"
  by (simp_all add: prefix_acts_def)

definition n_timers :: "io_act list \<Rightarrow> nat" where
  "n_timers as = length (filter (\<lambda>a. \<exists>ms. a = Do_timer ms) as)"

definition n_cancels :: "io_act list \<Rightarrow> nat" where
  "n_cancels as = length (filter (\<lambda>a. a = Do_cancel_timer) as)"

lemma n_acts_simps [simp]:
  "n_timers (as @ bs) = n_timers as + n_timers bs" "n_cancels (as @ bs) = n_cancels as + n_cancels bs"
  "n_timers [] = 0" "n_cancels [] = 0"
  "n_timers (a # as) = (if \<exists>ms. a = Do_timer ms then 1 else 0) + n_timers as"
  "n_cancels (a # as) = (if a = Do_cancel_timer then 1 else 0) + n_cancels as"
  by (simp_all add: n_timers_def n_cancels_def)

lemma n_timer_acts [simp]: "n_timers (cancel_acts timeout) = 0" "n_cancels (timer_acts timeout) = 0"
  "n_timers (timer_acts timeout) = n_cancels (cancel_acts timeout)"
  "n_cancels (cancel_acts timeout) = (if timeout = - 1 then 0 else 1)"
  "Do_add_event ev \<notin> set (timer_acts timeout)" "Do_add_event ev \<notin> set (cancel_acts timeout)"
  by (simp_all add: timer_acts_def cancel_acts_def)

text \<open>
  A round is an interrupted raw call, or a call that would block followed by a wait that ends without a
  time-out. A call ends with another raw answer, an event that could not be added, or a time-out.
\<close>

fun io_round :: "io_input list \<Rightarrow> bool" where
  "io_round [In_raw n err] = (n = -1 \<and> err = EINTR)"
| "io_round [In_raw n err, In_add rt _, In_resumed cancelled] =
     (n = -1 \<and> err = EAGAIN \<and> rt = 0 \<and> cancelled = 0)"
| "io_round _ = False"

fun io_final :: "io_input list \<Rightarrow> (int \<times> int) option" where
  "io_final [In_raw n err] = (if n = -1 \<and> err \<in> {EINTR, EAGAIN} then None else Some (n, err))"
| "io_final [In_raw n err, In_add rt err1] =
     (if n = -1 \<and> err = EAGAIN \<and> rt \<noteq> 0 then Some (-1, err1) else None)"
| "io_final [In_raw n err, In_add rt _, In_resumed cancelled] =
     (if n = -1 \<and> err = EAGAIN \<and> rt = 0 \<and> cancelled \<noteq> 0 then Some (-1, cancelled) else None)"
| "io_final _ = None"

definition n_blocked :: "io_input list \<Rightarrow> nat" where
  "n_blocked ins = length (filter (\<lambda>i. i = In_raw (-1) EAGAIN) ins)"

lemma io_round_cases:
  assumes "io_round r"
  obtains (intr) "r = [In_raw (-1) EINTR]"
    | (wait) e where "r = [In_raw (-1) EAGAIN, In_add 0 e, In_resumed 0]"
  using assms by (cases r rule: io_round.cases) auto

lemma io_final_cases:
  assumes "io_final fin = Some (n, err)"
  obtains (raw) "fin = [In_raw n err]" "\<not> (n = -1 \<and> err \<in> {EINTR, EAGAIN})"
    | (add) rt where "fin = [In_raw (-1) EAGAIN, In_add rt err]" "rt \<noteq> 0" "n = -1"
    | (late) e where "fin = [In_raw (-1) EAGAIN, In_add 0 e, In_resumed err]" "err \<noteq> 0" "n = -1"
  using assms by (cases fin rule: io_final.cases) (auto split: if_splits)

lemma do_io_loop_final:
  assumes "io_final fin = Some (n, err)"
  shows "\<exists>as. do_io_loop timeout (fin @ rest) = (as, Io_returns n err) \<and>
    n_timers as = (if timeout = - 1 then 0 else n_blocked fin) \<and> n_cancels as = n_timers as"
  using assms
  by (cases rule: io_final_cases) (auto simp: prefix_acts_def n_blocked_def)

lemma do_io_loop_rounds:
  assumes "\<forall>r \<in> set rounds. io_round r"
    and "do_io_loop timeout ins = (as, r)" and "n_timers as = (if timeout = - 1 then 0 else n_blocked ins0)"
    and "n_cancels as = n_timers as"
  shows "\<exists>as. do_io_loop timeout (concat rounds @ ins) = (as, r) \<and>
    n_timers as = (if timeout = - 1 then 0 else n_blocked (concat rounds @ ins0)) \<and> n_cancels as = n_timers as"
  using assms(1)
proof (induction rounds)
  case Nil
  then show ?case using assms(2-4) by simp
next
  case (Cons x rounds)
  then obtain as where as: "do_io_loop timeout (concat rounds @ ins) = (as, r)"
    "n_timers as = (if timeout = - 1 then 0 else n_blocked (concat rounds @ ins0))" "n_cancels as = n_timers as"
    by auto
  have "io_round x" using Cons.prems by simp
  then show ?case
    by (cases rule: io_round_cases) (use as in \<open>auto simp: prefix_acts_def n_blocked_def\<close>)
qed

lemma do_io_loop_reads:
  "do_io_loop timeout ins = (as, r) \<Longrightarrow> Do_add_event ev \<in> set as \<Longrightarrow> ev = EV_READ"
proof (induction timeout ins arbitrary: as r rule: do_io_loop.induct)
  case (1 timeout n err ins)
  show ?case
  proof (cases "n = -1 \<and> err = EINTR")
    case True
    with 1(1) [of "fst (do_io_loop timeout ins)" "snd (do_io_loop timeout ins)"] 1(3,4) show ?thesis
      by (auto simp: prefix_acts_def)
  next
    case intr: False
    show ?thesis
    proof (cases "\<exists>e1 ins2. n = -1 \<and> err = EAGAIN \<and> ins = In_add 0 e1 # In_resumed 0 # ins2")
      case True
      then obtain e1 ins2 where again: "n = -1 \<and> err = EAGAIN" and ins: "ins = In_add 0 e1 # In_resumed 0 # ins2"
        by blast
      from 1(2) [OF intr again ins refl _ refl refl _, of "fst (do_io_loop timeout ins2)" "snd (do_io_loop timeout ins2)"]
        1(3,4) again ins show ?thesis by (auto simp: prefix_acts_def)
    next
      case False
      with 1(3,4) intr show ?thesis
        by (auto simp: prefix_acts_def split: list.splits io_input.splits if_splits)
    qed
  qed
qed simp_all

text \<open>
  C24 (do_io_outcome). On a blocking socket with a context, a hooked call repeats the raw call as long as it is
  interrupted or its waits end without a time-out, and returns as soon as an input ends it: the first
  other answer of the raw function as it is, -1 with the \<open>errno\<close> of the failed \<open>add_event\<close>, or -1
  with the \<open>errno\<close> of the time-out. With a time-out it arms one timer per wait, without one none, and each
  timer it armed has been cancelled when it returns.
\<close>

theorem do_io_outcome:
  assumes "fd_ok fd" and "fd_entry t fd = Some a" and "fd_heap t a = Some c" and "m_isSocket c"
    and "\<not> m_isClosed c" and "\<not> m_user_nonblock c"
    and "\<forall>r \<in> set rounds. io_round r" and "io_final fin = Some (n, err)"
  shows "\<exists>as. do_io True fd event timeout_so (concat rounds @ fin @ rest) t = Inr (as, Io_returns n err) \<and>
    n_timers as = (if FdCtx_get_timeout timeout_so c = - 1 then 0 else n_blocked (concat rounds @ fin)) \<and>
    n_cancels as = n_timers as"
proof -
  obtain as where "do_io_loop (FdCtx_get_timeout timeout_so c) (fin @ rest) = (as, Io_returns n err)"
    "n_timers as = (if FdCtx_get_timeout timeout_so c = - 1 then 0 else n_blocked fin)" "n_cancels as = n_timers as"
    using do_io_loop_final [OF assms(8)] by blast
  from do_io_loop_rounds [OF assms(7) this] assms(2-6) getFdCtx_look [OF assms(1), of 0 t]
  show ?thesis by (auto simp: do_io_def do_io_hooked_def)
qed

text \<open>A table with a blocking socket at descriptor 0, with a receive time-out of 50 ms.\<close>

definition demo_fd_ctx :: fd_ctx where
  "demo_fd_ctx = (FdCtx_new 0)\<lparr>m_isInit := True, m_isSocket := True, m_sys_nonblock := True,
     m_recv_timeout := 50\<rparr>"

definition demo_table :: fd_manager where
  "demo_table = \<lparr>fd_heap = [1 \<mapsto> demo_fd_ctx], m_datas = [Some 1]\<rparr>"

lemma demo_table_simps:
  "fd_ok 0" "fd_entry demo_table 0 = Some 1" "fd_heap demo_table 1 = Some demo_fd_ctx"
  "m_isSocket demo_fd_ctx" "\<not> m_isClosed demo_fd_ctx" "\<not> m_user_nonblock demo_fd_ctx"
  by (simp_all add: fd_ok_def fd_entry_def demo_table_def demo_fd_ctx_def FdCtx_new_def)

theorem do_io_outcome_witness:
  "\<exists>as. do_io True 0 EV_READ SO_RCVTIMEO
     [In_raw (-1) EINTR, In_raw (-1) EAGAIN, In_add 0 0, In_resumed 0, In_raw 12 0] demo_table =
     Inr (as, Io_returns 12 0) \<and> n_timers as = 1 \<and> n_cancels as = 1"
proof -
  have "\<forall>r \<in> set [[In_raw (-1) EINTR], [In_raw (-1) EAGAIN, In_add 0 0, In_resumed 0]]. io_round r"
    "io_final [In_raw 12 0] = Some (12, 0)" by simp_all
  from do_io_outcome [OF demo_table_simps this, of EV_READ SO_RCVTIMEO "[]"] show ?thesis
    by (auto simp: n_blocked_def FdCtx_get_timeout_def demo_fd_ctx_def)
qed

text \<open>
  Theorem (write_waits_for_read). \<open>do_io\<close> ignores its \<open>event\<close> argument: a write that would block waits until the
  descriptor becomes readable, and never for it to become writable.
\<close>

theorem write_waits_for_read:
  assumes "fd_ok fd" and "fd_entry t fd = Some a" and "fd_heap t a = Some c" and "m_isSocket c"
    and "\<not> m_isClosed c" and "\<not> m_user_nonblock c"
  shows "\<exists>as r. hook_write True fd (In_raw (-1) EAGAIN # ins) t = Inr (as, r) \<and>
    Do_add_event EV_READ \<in> set as \<and> Do_add_event EV_WRITE \<notin> set as"
proof -
  obtain as r where loop: "do_io_loop (FdCtx_get_timeout SO_SNDTIMEO c) (In_raw (-1) EAGAIN # ins) = (as, r)"
    by fastforce
  then have "Do_add_event EV_READ \<in> set as" by (auto simp: prefix_acts_def)
  moreover have "Do_add_event EV_WRITE \<notin> set as" using do_io_loop_reads [OF loop, of EV_WRITE] by auto
  ultimately show ?thesis
    using assms getFdCtx_look [OF assms(1), of 0 t] loop
    by (auto simp: hook_write_def do_io_def do_io_hooked_def simp del: do_io_loop.simps)
qed

theorem write_waits_for_read_witness:
  "\<exists>as r. hook_write True 0 [In_raw (-1) EAGAIN] demo_table = Inr (as, r) \<and>
     Do_add_event EV_READ \<in> set as \<and> Do_add_event EV_WRITE \<notin> set as"
  by (rule write_waits_for_read [OF demo_table_simps])

text \<open>
  Theorem (fcntl_nonblock_view). For a socket the program sees the \<open>O_NONBLOCK\<close> it set itself: \<open>F_GETFL\<close> after
  \<open>F_SETFL\<close> answers its flags, while the descriptor in the kernel keeps the \<open>O_NONBLOCK\<close> that the
  framework wants (\<open>setfl\<close> and \<open>getfl\<close> stand for the raw calls).
\<close>

theorem fcntl_nonblock_view:
  assumes "fd_ok fd" and "fd_entry t fd = Some a" and "fd_heap t a = Some c" and "m_isSocket c"
    and "\<not> m_isClosed c" and "\<And>flags k. getfl (setfl flags k) = flags"
  shows "\<exists>raw t'. fcntl_setfl fd arg t = Inr (raw, t') \<and>
    fcntl_getfl fd (getfl (setfl raw k)) t' = Inr arg \<and>
    (getfl (setfl raw k) AND O_NONBLOCK \<noteq> 0 \<longleftrightarrow> m_sys_nonblock c)"
proof -
  have sock: "open_socket fd t = Inr (Some (a, c))"
    using assms(2-5) getFdCtx_look [OF assms(1), of 0 t] by (simp add: open_socket_def)
  let ?c = "c\<lparr>m_user_nonblock := arg AND O_NONBLOCK \<noteq> 0\<rparr>"
  let ?t = "t\<lparr>fd_heap := (fd_heap t)(a \<mapsto> ?c)\<rparr>"
  let ?raw = "if m_sys_nonblock c then arg OR O_NONBLOCK else arg AND NOT O_NONBLOCK"
  have set: "fcntl_setfl fd arg t = Inr (?raw, ?t)" by (simp add: fcntl_setfl_def sock Let_def)
  have "fd_entry ?t fd = fd_entry t fd" by (simp add: fd_entry_def)
  then have sock': "open_socket fd ?t = Inr (Some (a, ?c))"
    using assms(2,4,5) getFdCtx_look [OF assms(1), of 0 ?t] by (simp add: open_socket_def)
  have get: "fcntl_getfl fd x ?t =
      Inr (if arg AND O_NONBLOCK \<noteq> 0 then x OR O_NONBLOCK else x AND NOT O_NONBLOCK)" for x
    unfolding fcntl_getfl_def sock' by simp
  have "fcntl_getfl fd ?raw ?t = Inr arg"
  proof (cases "arg AND O_NONBLOCK = 0")
    case True
    then show ?thesis unfolding get using flag_view(2) [OF True] by simp
  next
    case False
    then have "arg AND O_NONBLOCK = O_NONBLOCK" by (simp add: and_2048_bit split: if_splits)
    from flag_view(1) [OF this] False show ?thesis unfolding get by simp
  qed
  moreover have "?raw AND O_NONBLOCK \<noteq> 0 \<longleftrightarrow> m_sys_nonblock c"
    by (simp add: and.assoc bit.conj_disj_distrib2)
  ultimately show ?thesis using set assms(6) by auto
qed


theorem fcntl_nonblock_view_witness:
  "\<exists>raw t'. fcntl_setfl 0 2 demo_table = Inr (raw, t') \<and> fcntl_getfl 0 raw t' = Inr 2 \<and>
     raw AND O_NONBLOCK \<noteq> 0"
  using fcntl_nonblock_view [where getfl = "\<lambda>k :: u32. k" and setfl = "\<lambda>flags k. flags",
      OF demo_table_simps(1-5), of 2]
  by (auto simp: demo_fd_ctx_def)

end
