(* ===== verification/Double.thy ===== *)
theory Double
  imports Prelude "HOL-Library.Log_Nat"
begin

text \<open>
  IEEE 754 double precision, as far as \<open>nanosleep\<close> in src/sylar/hook.cc uses it: a double is a rational, and \<open>fl\<close> rounds an exact
  result to 53 significant bits, to the nearest value and ties to even. Subnormal numbers, overflow and infinities lie outside the
  range of the operands there.
\<close>

definition round_even :: "rat \<Rightarrow> int" where
  "round_even r =
     (let f = \<lfloor>r\<rfloor>; d = r - of_int f
      in if d < 1/2 then f else if d > 1/2 then f + 1 else if even f then f else f + 1)"

text \<open>The exponent \<open>e\<close> with \<open>2 ^ 52 \<le> x / 2 ^ e < 2 ^ 53\<close>, from the bit lengths of numerator and denominator.\<close>

definition fl_exp :: "rat \<Rightarrow> int" where
  "fl_exp x =
     (case quotient_of x of
        (p, q) \<Rightarrow> let k = bitlen p - bitlen q in if x \<ge> 2 powi k then k - 52 else k - 53)"

definition fl_pos :: "rat \<Rightarrow> rat" where
  "fl_pos x = (let u = 2 powi (fl_exp x) in of_int (round_even (x / u)) * u)"

definition fl :: "rat \<Rightarrow> rat" where
  "fl x = (if x = 0 then 0 else if x > 0 then fl_pos x else - fl_pos (- x))"

lemma round_even_of_int [simp]: "round_even (of_int n) = n"
  by (simp add: round_even_def)


lemma round_even_error: "\<bar>of_int (round_even r) - r\<bar> \<le> 1/2"
proof -
  obtain g :: rat where g: "g = of_int \<lfloor>r\<rfloor>" "g \<le> r" "r < g + 1"
    using floor_correct [of r] by (intro that [of "of_int \<lfloor>r\<rfloor>"]) simp_all
  then show ?thesis unfolding round_even_def Let_def of_int_add of_int_1
    by (simp only: g(1) [symmetric] if_distrib [of of_int] of_int_add of_int_1) (auto simp: abs_if)
qed

lemma bitlen_powi:
  assumes "p > 0"
  shows "(2::rat) powi (bitlen p - 1) \<le> of_int p" "of_int p < (2::rat) powi (bitlen p)"
proof -
  have b: "bitlen p \<ge> 1" using assms bitlen_eq_zero_iff [of p] bitlen_nonneg [of p] by linarith
  have "(of_int (2 ^ nat (bitlen p - 1)) :: rat) \<le> of_int p" using bitlen_bounds [OF assms] by (simp only: of_int_le_iff)
  then show "(2::rat) powi (bitlen p - 1) \<le> of_int p" using b by (simp add: power_int_def)
  have "(of_int p :: rat) < of_int (2 ^ nat (bitlen p))" using bitlen_bounds [OF assms] by (simp only: of_int_less_iff)
  then show "of_int p < (2::rat) powi (bitlen p)" using b by (simp add: power_int_def)
qed

lemma fl_exp_bounds:
  assumes "x > 0"
  shows "2 powi (fl_exp x + 52) \<le> x \<and> x < 2 powi (fl_exp x + 53)"
proof -
  obtain p q where pq: "quotient_of x = (p, q)" by (cases "quotient_of x")
  have x: "x = of_int p / of_int q" and q: "q > 0" using quotient_of_div [OF pq] quotient_of_denom_pos [OF pq] by auto
  have p: "p > 0" using assms x q by (simp add: zero_less_divide_iff)
  let ?k = "bitlen p - bitlen q"
  have "2 powi (bitlen p - 1) / 2 powi (bitlen q) < (of_int p / of_int q :: rat)"
    by (rule frac_less2) (use p q bitlen_powi [OF p] bitlen_powi [OF q] in auto)
  then have lo: "2 powi (?k - 1) < x" unfolding x by (simp add: power_int_diff [symmetric] algebra_simps)
  have "(of_int p / of_int q :: rat) < 2 powi (bitlen p) / 2 powi (bitlen q - 1)"
    by (rule frac_less) (use p q bitlen_powi [OF p] bitlen_powi [OF q] in auto)
  then have hi: "x < 2 powi (?k + 1)" unfolding x by (simp add: power_int_diff [symmetric] algebra_simps)
  show ?thesis
  proof (cases "x \<ge> 2 powi ?k")
    case True
    then have "fl_exp x = ?k - 52" by (simp add: fl_exp_def pq)
    then show ?thesis using True hi by (simp add: add.commute)
  next
    case False
    then have e: "fl_exp x = ?k - 53" by (simp add: fl_exp_def pq)
    have "?k - 53 + 52 = ?k - 1" "?k - 53 + 53 = ?k" by simp_all
    then show ?thesis unfolding e using False lo by simp
  qed
qed

text \<open>The relative error of rounding, and the values that need none.\<close>

lemma fl_error:
  assumes "x \<ge> 0"
  shows "\<bar>fl x - x\<bar> \<le> x / 2 ^ 53"
proof (cases "x = 0")
  case False
  then have pos: "x > 0" using assms by simp
  let ?u = "2 powi (fl_exp x) :: rat"
  have u: "?u > 0" by simp
  have "\<bar>of_int (round_even (x / ?u)) - x / ?u\<bar> * ?u \<le> 1/2 * ?u"
    using round_even_error [of "x / ?u"] u by (intro mult_right_mono) simp_all
  moreover have "\<bar>of_int (round_even (x / ?u)) - x / ?u\<bar> * ?u = \<bar>fl x - x\<bar>"
  proof -
    have "\<bar>of_int (round_even (x / ?u)) - x / ?u\<bar> * ?u = \<bar>(of_int (round_even (x / ?u)) - x / ?u) * ?u\<bar>"
      by (simp add: abs_mult)
    also have "(of_int (round_even (x / ?u)) - x / ?u) * ?u = fl x - x"
      using pos by (simp add: fl_def fl_pos_def Let_def left_diff_distrib)
    finally show ?thesis .
  qed
  moreover have "?u * 2 ^ 52 \<le> x" using fl_exp_bounds [OF pos] by (simp add: power_int_add)
  ultimately show ?thesis by (simp add: field_simps)
qed (simp add: fl_def)

lemma fl_of_int:
  assumes "0 \<le> n" "n < 2 ^ 53"
  shows "fl (of_int n) = of_int n"
proof (cases "n = 0")
  case False
  then have pos: "(of_int n :: rat) > 0" using assms by simp
  let ?e = "fl_exp (of_int n)"
  have "\<not> ?e \<ge> 1"
  proof
    assume "?e \<ge> 1"
    then have "(2::rat) powi 53 \<le> 2 powi (?e + 52)" by (intro power_int_increasing) simp_all
    also have "\<dots> \<le> of_int n" using fl_exp_bounds [OF pos] by simp
    finally have "(of_int (2 ^ 53) :: rat) \<le> of_int n" by simp
    then show False using assms(2) by (simp only: of_int_le_iff)
  qed
  then have e: "?e \<le> 0" by simp
  define m where "m = nat (- ?e)"
  have m: "?e = - int m" using e by (simp add: m_def)
  have "(of_int n :: rat) / 2 powi ?e = of_int (n * 2 ^ m)"
    unfolding m by (simp add: power_int_minus divide_inverse)
  then show ?thesis using pos unfolding fl_def fl_pos_def Let_def by (simp only: round_even_of_int) (simp add: m power_int_minus)
qed (simp add: fl_def)


text \<open>Conversion to \<open>uint64_t\<close> drops the fraction; a value that does not fit is undefined behaviour.\<close>

definition dbl_to_u64 :: "rat \<Rightarrow> u64 result" where
  "dbl_to_u64 x =
     (let n = (if x \<ge> 0 then \<lfloor>x\<rfloor> else - \<lfloor>- x\<rfloor>)
      in if 0 \<le> n \<and> n < 2 ^ 64 then Inr (word_of_int n) else Inl (Undefined ''double to uint64_t''))"

text \<open>
  An integral number of milliseconds plus a number of nanoseconds given in milliseconds: below \<open>2 ^ 32\<close> the two roundings never reach the
  next integer, so that dropping the fraction gives the exact quotient.
\<close>

lemma fl_ms_exact:
  assumes "0 \<le> a" "a + 1000 \<le> 2 ^ 32" "0 \<le> n" "n < 10 ^ 9"
  shows "\<lfloor>fl (of_int a + fl (of_int n / 1000000))\<rfloor> = a + n div 1000000"
proof -
  define b :: rat where "b = of_int n / 1000000"
  define q where "q = n div 1000000"
  define r where "r = n mod 1000000"
  have n: "n = q * 1000000 + r" "0 \<le> r" "r < 1000000" "0 \<le> q" "q < 1000"
    using assms by (auto simp: q_def r_def)
  have b: "b = of_int q + of_int r / 1000000" by (simp add: b_def n(1) add_divide_distrib)
  show ?thesis
  proof (cases "r = 0")
    case True
    then have "fl b = of_int q" using fl_of_int [of q] n(4,5) by (simp add: b)
    moreover have "fl (of_int (a + q)) = of_int (a + q)" using assms n(4,5) by (intro fl_of_int) simp_all
    ultimately show ?thesis by (simp add: b_def q_def)
  next
    case False
    have r: "1 \<le> r" "r \<le> 999999" using False n(2,3) by simp_all
    then have rr: "(1::rat) / 1000000 \<le> of_int r / 1000000" "of_int r / 1000000 \<le> (999999::rat) / 1000000"
      by (simp_all add: divide_right_mono)
    have bb: "0 \<le> b" "b \<le> 1000" using assms(3,4) by (simp_all add: b_def)
    have "\<bar>fl b - b\<bar> \<le> b / 2 ^ 53" using bb(1) by (rule fl_error)
    moreover have "b / 2 ^ 53 \<le> 1 / 1000000000" using bb(2) by simp
    ultimately have e1: "fl b \<le> b + 1 / 1000000000" "b - 1 / 1000000000 \<le> fl b" by linarith+
    let ?s = "of_int a + fl b"
    have a: "0 \<le> (of_int a :: rat)" "(of_int a :: rat) \<le> 4294966296" using assms(1,2) by simp_all
    have bl: "1 / 1000000 \<le> b" using rr(1) n(4) by (simp add: b)
    have s: "0 \<le> ?s" "?s \<le> 4294967297" using e1 bl bb(2) a by linarith+
    have "\<bar>fl ?s - ?s\<bar> \<le> ?s / 2 ^ 53" using s(1) by (rule fl_error)
    moreover have "?s / 2 ^ 53 \<le> 1 / 2000000" using s(2) by simp
    ultimately have e2: "fl ?s \<le> ?s + 1 / 2000000" "?s - 1 / 2000000 \<le> fl ?s" by linarith+
    have "of_int (a + q) \<le> fl ?s" "fl ?s < of_int (a + q) + 1"
      using e1 e2 rr b unfolding of_int_add by linarith+
    then show ?thesis unfolding b_def [symmetric] q_def [symmetric] by (rule floor_unique)
  qed
qed

end
