(* ===== verification/Hook_Wait.thy ===== *)
theory Hook_Wait
  imports Hook Double
begin

text \<open>
  The suspension of a fiber by a hook, composed of the operations of the timers, the event loop and the
  fibers: the waiting round of \<open>do_io\<close> and \<open>connect_with_timeout\<close> and the sleeping functions of
  src/sylar/hook.cc. The callbacks the hooks hand out are data (\<open>hook_cb\<close>); \<open>run_hook_cb\<close> says what
  calling one does. \<open>tinfos\<close> holds the \<open>timer_info\<close> objects that are alive, by address, with their
  \<open>cancelled\<close>.
\<close>

datatype 'f hook_cb =
    Cb_user 'f
  | Cb_wake nat nat
  | Cb_io_timeout int u32 nat

type_synonym 'f tcb = "'f hook_cb timer_cb"
type_synonym tinfos = "nat \<Rightarrow> int option"

text \<open>
  Calling a callback: \<open>Cb_wake sid f\<close> is \<open>iom->schedule(fiber)\<close>; \<open>Cb_io_timeout fd ev ti\<close> is the lambda of the
  conditional timer.
\<close>

definition io_timeout_fires ::
    "'k epoll_ctl \<Rightarrow> int \<Rightarrow> u32 \<Rightarrow> nat \<Rightarrow> tinfos \<times> 'cb iomanager \<times> 'k \<Rightarrow> (tinfos \<times> 'cb iomanager \<times> 'k) result" where
  "io_timeout_fires ctl fd ev ti = (\<lambda>(infos, m, k).
     case infos ti of
       None \<Rightarrow> Inr (infos, m, k)
     | Some cancelled \<Rightarrow>
         if cancelled \<noteq> 0 then Inr (infos, m, k)
         else rbind (cancel_event ctl fd ev (m, k)) (\<lambda>(_, m1, k1).
                Inr (infos(ti \<mapsto> ETIMEDOUT), m1, k1)))"

fun run_hook_cb ::
    "'k epoll_ctl \<Rightarrow> 'f hook_cb \<Rightarrow> tinfos \<times> 'cb iomanager \<times> 'k \<Rightarrow> (tinfos \<times> 'cb iomanager \<times> 'k) result" where
  "run_hook_cb ctl (Cb_user f) s = Inr s"
| "run_hook_cb ctl (Cb_wake sid f) (infos, m, k) =
     Inr (infos, m\<lparr>io_scheds := (io_scheds m)(sid := schedule (FT_fiber (Some f)) (-1) (io_scheds m sid))\<rparr>, k)"
| "run_hook_cb ctl (Cb_io_timeout fd ev ti) s = io_timeout_fires ctl fd ev ti s"

text \<open>
  Arming a timer: when it is the first to fire, \<open>on_timer_insert_at_front\<close> wakes the event loop.
\<close>

definition notify_front ::
    "'cb timer_manager \<Rightarrow> 'cb timer_manager \<Rightarrow> 'cb iomanager \<Rightarrow> 'cb iomanager" where
  "notify_front tm tm1 m = (if front_calls tm < front_calls tm1 then on_timer_insert_at_front m else m)"

text \<open>
  One waiting round: the conditional timer (at address \<open>ta\<close>) if there is a time-out, the event, and the
  suspension. \<open>False\<close> is the branch in which the event could not be added and the timer is
  cancelled. \<open>iom\<close> is \<open>IOManager::GetThis()\<close>, null on a thread whose scheduler is not an \<open>IOManager\<close>; it is
  used unchecked.
\<close>

definition io_suspend ::
    "'k epoll_ctl \<Rightarrow> u64 \<Rightarrow> nat \<Rightarrow> nat \<Rightarrow> nat option \<Rightarrow> int \<Rightarrow> u32 \<Rightarrow> u64 \<Rightarrow> nat
       \<Rightarrow> 'f tcb timer_manager \<times> 'f tcb iomanager \<times> 'k \<times> 'f tcb fenv
       \<Rightarrow> (bool \<times> 'f tcb timer_manager \<times> 'f tcb iomanager \<times> 'k \<times> 'f tcb fenv) result option" where
  "io_suspend ctl now ta a iom fd ev timeout ti = (\<lambda>(tm, m, k, e).
     case iom of
       None \<Rightarrow> Some (Inl (Null_deref ''iom''))
     | Some sid \<Rightarrow>
         let tm1 = (if timeout \<noteq> - 1
                    then snd (add_condition_timer now ta timeout (Some (Cb_io_timeout fd ev ti)) ti False tm)
                    else tm)
         in map_option (\<lambda>r. rbind r (\<lambda>(rt, m1, k1, e1).
              if rt \<noteq> 0
              then Inr (False, if timeout \<noteq> - 1 then snd (Timer_cancel ta tm1) else tm1, m1, k1, e1)
              else rbind (Fiber_Yield_to_Hold a e1) (\<lambda>e2. Inr (True, tm1, m1, k1, e2))))
              (add_event ctl a (Some sid) fd ev None (notify_front tm tm1 m, k, e)))"

section \<open>Sleeping\<close>

text \<open>
  \<open>sleep\<close>, \<open>usleep\<close> and \<open>nanosleep\<close>: the delay is \<open>seconds * 1000\<close>, computed in 32 bits, or \<open>useconds / 1000\<close>, or
  \<open>tv_sec * 1000 + tv_nsec / 1e6\<close> in double precision. \<open>rt\<close> is the answer of the raw function, called when hooks are off.
\<close>

definition sleep_ms :: "u32 \<Rightarrow> u64" where
  "sleep_ms seconds = ucast (seconds * 1000)"

definition usleep_ms :: "u32 \<Rightarrow> u64" where
  "usleep_ms useconds = ucast (useconds div 1000)"

definition nanosleep_ms :: "int \<Rightarrow> int \<Rightarrow> u64 result" where
  "nanosleep_ms sec nsec =
     (if - (2 ^ 63) \<le> sec * 1000 \<and> sec * 1000 < 2 ^ 63
      then dbl_to_u64 (fl (fl (of_int (sec * 1000)) + fl (fl (of_int nsec) / 1000000)))
      else Inl (Undefined ''tv_sec * 1000''))"

definition timed_yield ::
    "u64 \<Rightarrow> nat \<Rightarrow> nat \<Rightarrow> nat option \<Rightarrow> u64 \<Rightarrow> 'f tcb timer_manager \<times> 'f tcb iomanager \<times> 'f tcb fenv
       \<Rightarrow> ('f tcb timer_manager \<times> 'f tcb iomanager \<times> 'f tcb fenv) result" where
  "timed_yield now ta a iom ms = (\<lambda>(tm, m, e).
     case iom of
       None \<Rightarrow> Inl (Null_deref ''iom'')
     | Some sid \<Rightarrow>
         let (f, e1) = Fiber_GetThis a e;
             tm1 = snd (add_timer now ta ms (Some (Plain_cb (Cb_wake sid f))) False tm)
         in rbind (Fiber_Yield_to_Hold a e1) (\<lambda>e2. Inr (tm1, notify_front tm tm1 m, e2)))"

definition hook_sleep ::
    "bool \<Rightarrow> int \<Rightarrow> u64 \<Rightarrow> nat \<Rightarrow> nat \<Rightarrow> nat option \<Rightarrow> u32
       \<Rightarrow> 'f tcb timer_manager \<times> 'f tcb iomanager \<times> 'f tcb fenv
       \<Rightarrow> (int \<times> 'f tcb timer_manager \<times> 'f tcb iomanager \<times> 'f tcb fenv) result" where
  "hook_sleep hook_enable rt now ta a iom seconds s =
     (if \<not> hook_enable then Inr (rt, s)
      else rbind (timed_yield now ta a iom (sleep_ms seconds) s) (\<lambda>s'. Inr (0, s')))"

definition hook_usleep ::
    "bool \<Rightarrow> int \<Rightarrow> u64 \<Rightarrow> nat \<Rightarrow> nat \<Rightarrow> nat option \<Rightarrow> u32
       \<Rightarrow> 'f tcb timer_manager \<times> 'f tcb iomanager \<times> 'f tcb fenv
       \<Rightarrow> (int \<times> 'f tcb timer_manager \<times> 'f tcb iomanager \<times> 'f tcb fenv) result" where
  "hook_usleep hook_enable rt now ta a iom useconds s =
     (if \<not> hook_enable then Inr (rt, s)
      else rbind (timed_yield now ta a iom (usleep_ms useconds) s) (\<lambda>s'. Inr (0, s')))"

definition hook_nanosleep ::
    "bool \<Rightarrow> int \<Rightarrow> u64 \<Rightarrow> nat \<Rightarrow> nat \<Rightarrow> nat option \<Rightarrow> int \<Rightarrow> int
       \<Rightarrow> 'f tcb timer_manager \<times> 'f tcb iomanager \<times> 'f tcb fenv
       \<Rightarrow> (int \<times> 'f tcb timer_manager \<times> 'f tcb iomanager \<times> 'f tcb fenv) result" where
  "hook_nanosleep hook_enable rt now ta a iom sec nsec s =
     (if \<not> hook_enable then Inr (rt, s)
      else rbind (nanosleep_ms sec nsec) (\<lambda>ms. rbind (timed_yield now ta a iom ms s) (\<lambda>s'. Inr (0, s'))))"

section \<open>Lemmas\<close>

lemma yield_hold_eq:
  assumes "fheap g f = Some fb" and "fheap g m = Some mb" and "f \<noteq> m" and "m_ctx mb \<noteq> Past_end"
    and "t_fiber t = Some f" and "t_main t = Some m"
  shows "Fiber_Yield_to_Hold a (t, g) =
    Inr (t\<lparr>t_fiber := Some m, cpu := Some m\<rparr>, fiber_set f (fb\<lparr>m_state := HOLD, m_ctx := Saved\<rparr>) g)"
  using leave_eq [OF assms(1-5), of Leave_Hold] assms(5,6)
  by (simp add: Fiber_leave_def leave_fiber_def Fiber_Yield_to_Hold_def Fiber_yield_def Fiber_GetThis_def)

lemma notify_front_simps [simp]:
  "io_inv (notify_front tm tm1 m) = io_inv m"
  "registered (notify_front tm tm1 m) = registered m"
  "io_scheds (notify_front tm tm1 m) = io_scheds m"
  by (auto simp: notify_front_def on_timer_insert_at_front_def IO_tickle_def registered_def fun_eq_iff io_inv_def)

lemma unat_ucast_ms: "unat (ucast (w :: u32) :: u64) = unat w"
  by (simp add: unsigned_ucast_eq take_bit_nat_eq_self_iff unsigned_less order_less_trans [OF unsigned_less])

lemma sleep_ms_eq: "unat (sleep_ms seconds) = (unat seconds * 1000) mod 2 ^ 32"
  by (simp add: sleep_ms_def unat_ucast_ms unat_word_ariths)

lemma usleep_ms_eq: "unat (usleep_ms useconds) = unat useconds div 1000"
  by (simp add: usleep_ms_def unat_ucast_ms unat_div)

lemma nanosleep_ms_eq:
  assumes "0 \<le> sec" "sec \<le> 4294966" "0 \<le> nsec" "nsec < 10 ^ 9"
  shows "nanosleep_ms sec nsec = Inr (of_nat (nat (sec * 1000 + nsec div 1000000)))"
proof -
  have "fl (of_int (sec * 1000)) = of_int (sec * 1000)" "fl (of_int nsec) = of_int nsec"
    using assms by (intro fl_of_int; simp)+
  moreover have fl: "\<lfloor>fl (of_int (sec * 1000) + fl (of_int nsec / 1000000))\<rfloor> = sec * 1000 + nsec div 1000000"
    using assms by (intro fl_ms_exact) simp_all
  moreover have "0 \<le> sec * 1000 + nsec div 1000000" "sec * 1000 + nsec div 1000000 < 2 ^ 64"
    using assms by simp_all
  moreover from this(1) have "0 \<le> fl (of_int (sec * 1000) + fl (of_int nsec / 1000000))"
    unfolding fl [symmetric] by simp
  ultimately show ?thesis
    using assms by (simp only: nanosleep_ms_def dbl_to_u64_def Let_def) simp
qed

lemma tm_cb_add_timer: "tm_cb (tm_at (theap (snd (add_timer now ta ms cb r tm))) ta) = cb"
  by (simp add: add_timer_def Timer_new_def)

lemma timed_yield_outcome:
  assumes "tm_wf tm" and "deadlines tm ta = None"
    and "fheap g f = Some fb" and "fheap g mf = Some mb" and "f \<noteq> mf" and "m_ctx mb \<noteq> Past_end"
    and "t_fiber t = Some f" and "t_main t = Some mf"
  obtains tm' m' where "timed_yield now ta a (Some sid) ms (tm, m, (t, g)) =
      Inr (tm', m', (t\<lparr>t_fiber := Some mf, cpu := Some mf\<rparr>,
        fiber_set f (fb\<lparr>m_state := HOLD, m_ctx := Saved\<rparr>) g))"
    and "tm_wf tm'" "deadlines tm' = (deadlines tm)(ta \<mapsto> now + ms)"
    and "tm_cb (tm_at (theap tm') ta) = Some (Plain_cb (Cb_wake sid f))"
    and "io_scheds m' = io_scheds m" "registered m' = registered m"
proof
  let ?tm = "snd (add_timer now ta ms (Some (Plain_cb (Cb_wake sid f))) False tm)"
  show "timed_yield now ta a (Some sid) ms (tm, m, (t, g)) =
      Inr (?tm, notify_front tm ?tm m, (t\<lparr>t_fiber := Some mf, cpu := Some mf\<rparr>,
        fiber_set f (fb\<lparr>m_state := HOLD, m_ctx := Saved\<rparr>) g))"
    using yield_hold_eq [OF assms(3-8)] assms(7) by (simp add: timed_yield_def Fiber_GetThis_def Let_def)
  show "tm_wf ?tm" "deadlines ?tm = (deadlines tm)(ta \<mapsto> now + ms)"
    using timers.invar_arm [OF assms(1,2)] timers.armed_arm [OF assms(1,2)] by simp_all
  show "tm_cb (tm_at (theap ?tm) ta) = Some (Plain_cb (Cb_wake sid f))"
    by (rule tm_cb_add_timer)
  show "io_scheds (notify_front tm ?tm m) = io_scheds m" "registered (notify_front tm ?tm m) = registered m"
    by simp_all
qed

lemma timeout_first:
  assumes "infos ti = Some 0" and "cancel_event ctl fd ev (m, k) = Inr (b, m', k')"
  shows "run_hook_cb ctl (Cb_io_timeout fd ev ti) (infos, m, k) = Inr (infos(ti \<mapsto> ETIMEDOUT), m', k')"
    and "run_hook_cb ctl' (Cb_io_timeout fd ev ti) (infos(ti \<mapsto> ETIMEDOUT), m', k'') =
      Inr (infos(ti \<mapsto> ETIMEDOUT), m', k'')"
  using assms by (simp_all add: io_timeout_fires_def)

lemma queued_new_slot:
  "t_fiber t = Some f \<Longrightarrow> queued (new_slot sid None (t, g)) ss =
     ss(sid := schedule (FT_fiber (Some f)) (-1) (ss sid))"
  by (simp add: queued_def new_slot_def slot_task_def)

lemma add_event_suspended:
  assumes inv: "io_inv m" and fd: "fd_ok fd" and ev: "ev \<in> {EV_READ, EV_WRITE}"
    and off: "registered m fd AND ev = 0" and run: "fiber_running e"
    and ctl: "ctl (if registered m fd \<noteq> 0 then EPOLL_CTL_MOD else EPOLL_CTL_ADD) fd
      (EPOLLET OR registered m fd OR ev) k = (0, k1)"
  obtains m' where "add_event ctl a (Some sid) fd ev None (m, k, e) = Some (Inr (0, m', k1, e))"
    and "io_inv m'" "registered m' = (registered m)(fd := registered m fd OR ev)"
    and "io_scheds m' = io_scheds m" "slot ev (m_fd_contexts m' ! nat fd) = new_slot sid None e"
    and "nat fd < length (m_fd_contexts m')"
proof -
  obtain m1 where m1: "add_event ctl a (Some sid) fd ev None (m, k, e) =
      Some (add_event_locked ctl a (Some sid) fd ev None (m1, k, e))"
    "io_inv m1" "registered m1 = registered m" "nat fd < length (m_fd_contexts m1)"
    "io_scheds m1 = io_scheds m"
    by (rule add_event_grown [OF inv fd], rule that)
  have "waiting (new_slot sid None e)"
    using run by (auto simp: waiting_def new_slot_def fiber_running_def)
  from event_added_inv [OF m1(2) fd m1(4) ev _ this]
    add_event_locked_eq [where ctl = ctl, OF m1(2) fd m1(4) ev, of None e k 0 k1 a sid] run off ctl m1
  show ?thesis by (intro that [of "event_added fd ev (new_slot sid None e) m1"]) (simp_all add: event_added_def)
qed

lemma reported_event_fires:
  assumes inv: "io_inv m" and fd: "fd_ok fd" and i: "nat fd < length (m_fd_contexts m)"
    and ev: "ev \<in> {EV_READ, EV_WRITE}" and on: "registered m fd AND ev = ev"
    and ctl: "ctl (left_op (registered m fd AND NOT ev)) fd (EPOLLET OR (registered m fd AND NOT ev)) k = (0, k1)"
  obtains m' where "handle_event ctl \<lparr>ee_events = ev, ee_data = Data_ctx (nat fd)\<rparr> (m, k) = Inr (m', k1)"
    and "io_inv m'" "registered m' = (registered m)(fd := registered m fd AND NOT ev)"
    and "io_scheds m' = queued (slot ev (m_fd_contexts m ! nat fd)) (io_scheds m)"
proof -
  let ?reg = "m_events (m_fd_contexts m ! nat fd)"
  have reg: "registered m fd = ?reg" by (rule registered_at [OF fd i])
  have real: "real_events ev ?reg = ev" using ev by (auto simp: real_events_def)
  have sub: "ev AND NOT ?reg = 0" using io_inv_events [OF inv i] ev on reg by auto
  have fdi: "int (nat fd) = fd" using fd by (simp add: fd_ok_def)
  have "handle_event ctl \<lparr>ee_events = ev, ee_data = Data_ctx (nat fd)\<rparr> (m, k) =
      Inr (fire_all (nat fd) ev m, k1)"
    using handle_event_eq [OF inv i, of "\<lparr>ee_events = ev, ee_data = Data_ctx (nat fd)\<rparr>" ev _ ctl k] real sub
      ctl reg fdi ev by auto
  moreover have "io_scheds (fire_all (nat fd) ev m) = queued (slot ev (m_fd_contexts m ! nat fd)) (io_scheds m)"
    using fire_all_scheds [OF i] ev by (auto simp: woken_def slot_def)
  ultimately show ?thesis
    using that fire_all_eq(2,3) [OF inv i _ sub] ev reg fdi by auto
qed

lemma cancelled_event_fires:
  assumes inv: "io_inv m" and fd: "fd_ok fd" and ev: "ev \<in> {EV_READ, EV_WRITE}"
    and on: "registered m fd AND ev = ev"
    and ctl: "ctl (left_op (registered m fd AND NOT ev)) fd (EPOLLET OR (registered m fd AND NOT ev)) k = (0, k1)"
  obtains m' where "cancel_event ctl fd ev (m, k) = Inr (True, m', k1)"
    and "io_inv m'" "registered m' = (registered m)(fd := registered m fd AND NOT ev)"
    and "io_scheds m' = queued (slot ev (m_fd_contexts m ! nat fd)) (io_scheds m)"
    and "length (m_fd_contexts m') = length (m_fd_contexts m)"
proof -
  have "registered m fd AND ev \<noteq> 0" using on ev by auto
  from cancelling.removed [OF inv fd ev this, of ctl k k1] ctl
  obtain m' where "cancel_event ctl fd ev (m, k) = Inr (True, m', k1)" "io_inv m'"
    "registered m' = (registered m)(fd := registered m fd AND NOT ev)"
    by (auto simp: or.commute)
  moreover from this(1) have "length (m_fd_contexts m') = length (m_fd_contexts m)"
    by (auto simp: cancel_event_def trigger_at_def result_simps split: option.splits prod.splits if_splits)
  ultimately show ?thesis using that cancel_event_scheds [where ctl = ctl, OF inv fd ev] by simp
qed

lemma event_added_back:
  assumes "io_inv m" and "fd_ok fd" and "ev \<in> {EV_READ, EV_WRITE}" and "registered m fd AND ev = 0"
  shows "(registered m fd OR ev) AND NOT ev = registered m fd" and "(registered m fd OR ev) AND ev = ev"
proof -
  have "registered m fd \<in> {0, 1, 4, 5}" using io_inv_events [OF assms(1)] by (auto simp: registered_def)
  then show "(registered m fd OR ev) AND NOT ev = registered m fd" "(registered m fd OR ev) AND ev = ev"
    using assms(3,4) by auto
qed

text \<open>A report that comes after its event was removed changes nothing.\<close>

lemma late_report_ignored:
  assumes "fd_ok fd" and "nat fd < length (m_fd_contexts m)" and "ev \<in> {EV_READ, EV_WRITE}" and "registered m fd AND ev = 0"
  shows "handle_event ctl \<lparr>ee_events = ev, ee_data = Data_ctx (nat fd)\<rparr> (m, k) = Inr (m, k)"
proof -
  have "real_events ev (m_events (m_fd_contexts m ! nat fd)) = ev" using assms(3) by (auto simp: real_events_def)
  then show ?thesis using assms(4) registered_at [OF assms(1,2)] by (simp add: handle_event_def Let_def)
qed

lemma io_wait_outcome:
  assumes "io_inv m" and "fd_ok fd" and "ev \<in> {EV_READ, EV_WRITE}" and "registered m fd AND ev = 0"
    and "tm_wf tm" and "deadlines tm ta = None" and "timeout \<noteq> - 1"
    and "fheap g f = Some fb" and "fheap g mf = Some mb" and "f \<noteq> mf" and "m_ctx mb \<noteq> Past_end"
    and "t_fiber t = Some f" and "t_main t = Some mf" and "m_state fb = EXEC"
    and "ctl (if registered m fd \<noteq> 0 then EPOLL_CTL_MOD else EPOLL_CTL_ADD) fd
      (EPOLLET OR registered m fd OR ev) k = (0, k1)"
    and "ctl (left_op (registered m fd)) fd (EPOLLET OR registered m fd) k1 = (0, k2)"
    and "infos ti = Some 0"
    and "late = infos(ti \<mapsto> ETIMEDOUT)"
    and "ss' = (io_scheds m)(sid := schedule (FT_fiber (Some f)) (-1) (io_scheds m sid))"
  shows "\<exists>tm' m'. io_suspend ctl now ta a (Some sid) fd ev timeout ti (tm, m, k, (t, g)) =
      Some (Inr (True, tm', m', k1, (t\<lparr>t_fiber := Some mf, cpu := Some mf\<rparr>,
        fiber_set f (fb\<lparr>m_state := HOLD, m_ctx := Saved\<rparr>) g))) \<and> io_scheds m' = io_scheds m \<and>
    registered m' = (registered m)(fd := registered m fd OR ev) \<and>
    deadlines tm' = (deadlines tm)(ta \<mapsto> now + timeout) \<and>
    call_timer_cb (\<lambda>_. True) (the (tm_cb (tm_at (theap tm') ta))) = Inr (Some (Cb_io_timeout fd ev ti)) \<and>
    (\<exists>m1. run_hook_cb ctl (Cb_io_timeout fd ev ti) (infos, m', k1) = Inr (late, m1, k2) \<and>
       io_scheds m1 = ss' \<and> registered m1 = registered m \<and>
       run_hook_cb ctl (Cb_io_timeout fd ev ti) (late, m1, k2) = Inr (late, m1, k2) \<and>
       handle_event ctl \<lparr>ee_events = ev, ee_data = Data_ctx (nat fd)\<rparr> (m1, k2) = Inr (m1, k2)) \<and>
    (\<exists>m1. handle_event ctl \<lparr>ee_events = ev, ee_data = Data_ctx (nat fd)\<rparr> (m', k1) = Inr (m1, k2) \<and>
       io_scheds m1 = ss' \<and> registered m1 = registered m \<and>
       run_hook_cb ctl (Cb_io_timeout fd ev ti) (infos, m1, k2) = Inr (late, m1, k2))"
proof -
  let ?cb = "Cb_io_timeout fd ev ti :: 'a hook_cb"
  let ?tm = "snd (add_condition_timer now ta timeout (Some ?cb) ti False tm)"
  let ?g = "fiber_set f (fb\<lparr>m_state := HOLD, m_ctx := Saved\<rparr>) g"
  have run: "fiber_running (t, g)" using assms(8,12,14) by (simp add: fiber_running_def)
  obtain m' where m': "add_event ctl a (Some sid) fd ev None (notify_front tm ?tm m, k, (t, g)) =
      Some (Inr (0, m', k1, (t, g)))"
    "io_inv m'" "registered m' = (registered m)(fd := registered m fd OR ev)"
    "io_scheds m' = io_scheds m" "slot ev (m_fd_contexts m' ! nat fd) = new_slot sid None (t, g)"
    "nat fd < length (m_fd_contexts m')"
    by (rule add_event_suspended [where ctl = ctl and m = "notify_front tm ?tm m" and e = "(t, g)" and k = k
          and ?k1.0 = "k1" and a = a and sid = sid, OF _ assms(2,3)]) (use assms(1,4,15) run that in simp_all)
  note undo = event_added_back [OF assms(1-4)]
  have reg: "registered m' fd AND ev = ev" "registered m' fd AND NOT ev = registered m fd"
    using m'(3) undo by simp_all
  have c: "ctl (left_op (registered m' fd AND NOT ev)) fd (EPOLLET OR (registered m' fd AND NOT ev)) k1 = (0, k2)"
    using assms(16) by (simp only: reg)
  have ss: "queued (slot ev (m_fd_contexts m' ! nat fd)) (io_scheds m') = ss'"
    using m'(4,5) queued_new_slot [OF assms(12)] assms(19) by simp
  have same: "(registered m')(fd := registered m' fd AND NOT ev) = registered m"
    using m'(3) reg(2) by simp
  obtain m1 where m1: "cancel_event ctl fd ev (m', k1) = Inr (True, m1, k2)" "registered m1 = registered m"
    "io_scheds m1 = ss'" "length (m_fd_contexts m1) = length (m_fd_contexts m')"
    by (rule cancelled_event_fires [where ctl = ctl, OF m'(2) assms(2,3) reg(1) c]) (use that ss same in simp)
  obtain m2 where m2: "handle_event ctl \<lparr>ee_events = ev, ee_data = Data_ctx (nat fd)\<rparr> (m', k1) = Inr (m2, k2)"
    "io_inv m2" "registered m2 = registered m" "io_scheds m2 = ss'"
    by (rule reported_event_fires [where ctl = ctl, OF m'(2) assms(2) m'(6) assms(3) reg(1) c]) (use that ss same in simp)
  have late: "handle_event ctl \<lparr>ee_events = ev, ee_data = Data_ctx (nat fd)\<rparr> (m1, k2) = Inr (m1, k2)"
    using assms(4) m1(2,4) m'(6) by (intro late_report_ignored [OF assms(2) _ assms(3)]) simp_all
  have "cancel_event ctl fd ev (m2, k2) = Inr (False, m2, k2)"
    using assms(4) m2(3) by (intro cancelling.absent [OF assms(2)]) simp
  note fire = timeout_first [where infos = infos, OF assms(17) m1(1)]
    timeout_first(1) [where infos = infos, OF assms(17) this]
  have "io_suspend ctl now ta a (Some sid) fd ev timeout ti (tm, m, k, (t, g)) =
      Some (Inr (True, ?tm, m', k1, (t\<lparr>t_fiber := Some mf, cpu := Some mf\<rparr>, ?g)))"
    using m'(1) yield_hold_eq [OF assms(8-13)] assms(7) by (simp add: io_suspend_def Let_def)
  moreover have "deadlines ?tm = (deadlines tm)(ta \<mapsto> now + timeout)"
    using timers.armed_arm [OF assms(5,6)] by (simp add: add_condition_timer_def)
  moreover have "tm_cb (tm_at (theap ?tm) ta) = Some (Bind_Cond_cb ti (Some ?cb))"
    by (simp add: add_condition_timer_def tm_cb_add_timer)
  ultimately show ?thesis
    using m'(3,4) m1 m2 fire late assms(18)
    by (intro exI [of _ ?tm] exI [of _ m'] conjI exI [of _ m1] exI [of _ m2])
      (simp_all add: Cond_cb_def)
qed

section \<open>Properties\<close>

text \<open>
  C25 (sleep_outcome). A hooked \<open>sleep\<close>, \<open>usleep\<close> or \<open>nanosleep\<close> suspends the calling fiber in state \<open>HOLD\<close>, gives the thread
  back to the scheduler's fiber and arms a timer whose callback queues the fiber once. The
  delay of \<open>sleep\<close> is \<open>seconds\<close> times 1000 modulo \<open>2^32\<close>, exact only below 4294968 seconds; those of \<open>usleep\<close>
  and \<open>nanosleep\<close> are rounded down to milliseconds (for \<open>nanosleep\<close> up to 49 days, where the double-precision sum is exact enough).
\<close>

theorem sleep_outcome:
  assumes "tm_wf tm" and "deadlines tm ta = None"
    and "fheap g f = Some fb" and "fheap g mf = Some mb" and "f \<noteq> mf" and "m_ctx mb \<noteq> Past_end"
    and "t_fiber t = Some f" and "t_main t = Some mf"
    and "(op, ms) \<in> {(hook_sleep True rt now ta a (Some sid) n, unat n * 1000 mod 2 ^ 32),
      (hook_usleep True rt now ta a (Some sid) n, unat n div 1000),
      (hook_nanosleep True rt now ta a (Some sid) sec nsec, nat (sec * 1000 + nsec div 1000000))}"
    and "0 \<le> sec" "sec \<le> 4294966" "0 \<le> nsec" "nsec < 10 ^ 9"
  shows "\<exists>tm' m' g'. op (tm, m, (t, g)) = Inr (0, tm', m', (t\<lparr>t_fiber := Some mf, cpu := Some mf\<rparr>, g')) \<and>
    map_option m_state (fheap g' f) = Some HOLD \<and> tm_wf tm' \<and>
    deadlines tm' = (deadlines tm)(ta \<mapsto> now + of_nat ms) \<and>
    call_timer_cb alive (the (tm_cb (tm_at (theap tm') ta))) = Inr (Some (Cb_wake sid f)) \<and>
    registered m' = registered m \<and> io_scheds m' = io_scheds m \<and>
    (\<exists>m''. run_hook_cb ctl (Cb_wake sid f) (infos, m', k) = Inr (infos, m'', k) \<and>
       io_scheds m'' = (io_scheds m)(sid := schedule (FT_fiber (Some f)) (-1) (io_scheds m sid)))"
proof -
  have delays: "of_nat (unat n * 1000 mod 2 ^ 32) = sleep_ms n" "of_nat (unat n div 1000) = usleep_ms n"
    by (simp_all only: sleep_ms_eq [symmetric] usleep_ms_eq [symmetric] of_nat_unat ucast_id)
  obtain tm' m' where y: "timed_yield now ta a (Some sid) (of_nat ms) (tm, m, (t, g)) =
      Inr (tm', m', (t\<lparr>t_fiber := Some mf, cpu := Some mf\<rparr>,
        fiber_set f (fb\<lparr>m_state := HOLD, m_ctx := Saved\<rparr>) g))"
    "tm_wf tm'" "deadlines tm' = (deadlines tm)(ta \<mapsto> now + of_nat ms)"
    "tm_cb (tm_at (theap tm') ta) = Some (Plain_cb (Cb_wake sid f))"
    "io_scheds m' = io_scheds m" "registered m' = registered m"
    by (rule timed_yield_outcome [OF assms(1-8)], rule that)
  have "op (tm, m, (t, g)) = Inr (0, tm', m', (t\<lparr>t_fiber := Some mf, cpu := Some mf\<rparr>,
      fiber_set f (fb\<lparr>m_state := HOLD, m_ctx := Saved\<rparr>) g))"
    using assms(9) y(1) unfolding insert_iff prod.inject empty_iff
    by (elim disjE conjE) (simp_all only: delays hook_sleep_def hook_usleep_def hook_nanosleep_def nanosleep_ms_eq [OF assms(10-13)], simp_all)
  with y(2-) show ?thesis
    by (intro exI [of _ tm'] exI [of _ m'] exI [of _ "fiber_set f (fb\<lparr>m_state := HOLD, m_ctx := Saved\<rparr>) g"]) simp
qed

text \<open>
  C23 (io_wait_woken_once). A fiber that a hook suspends on an event with a time-out waits in state \<open>HOLD\<close>: the
  event is registered for it and the timer armed. If the timer fires first, the event is cancelled, the fiber is queued once and will find
  \<open>ETIMEDOUT\<close>; firing again does nothing, and neither does a report of this event that epoll made before (reported together
  with another event that is still registered it aborts, see \<open>stale_event_aborts\<close> in \<open>IO_Events\<close>). If the event comes first, the fiber is queued
  once, and the timer firing later queues nothing (but still leaves \<open>ETIMEDOUT\<close> for a fiber that has not run yet).
\<close>

theorem io_wait_woken_once:
  assumes "io_inv m" and "fd_ok fd" and "ev \<in> {EV_READ, EV_WRITE}" and "registered m fd AND ev = 0"
    and "tm_wf tm" and "deadlines tm ta = None" and "timeout \<noteq> - 1"
    and "fheap g f = Some fb" and "fheap g mf = Some mb" and "f \<noteq> mf" and "m_ctx mb \<noteq> Past_end"
    and "t_fiber t = Some f" and "t_main t = Some mf" and "m_state fb = EXEC"
    and "ctl (if registered m fd \<noteq> 0 then EPOLL_CTL_MOD else EPOLL_CTL_ADD) fd
      (EPOLLET OR registered m fd OR ev) k = (0, k1)"
    and "ctl (left_op (registered m fd)) fd (EPOLLET OR registered m fd) k1 = (0, k2)"
    and "infos ti = Some 0"
    and "late = infos(ti \<mapsto> ETIMEDOUT)"
    and "ss' = (io_scheds m)(sid := schedule (FT_fiber (Some f)) (-1) (io_scheds m sid))"
  shows "\<exists>tm' m' g'. io_suspend ctl now ta a (Some sid) fd ev timeout ti (tm, m, k, (t, g)) =
      Some (Inr (True, tm', m', k1, (t\<lparr>t_fiber := Some mf, cpu := Some mf\<rparr>, g'))) \<and>
    map_option m_state (fheap g' f) = Some HOLD \<and> io_scheds m' = io_scheds m \<and>
    registered m' = (registered m)(fd := registered m fd OR ev) \<and>
    deadlines tm' = (deadlines tm)(ta \<mapsto> now + timeout) \<and>
    call_timer_cb (\<lambda>_. True) (the (tm_cb (tm_at (theap tm') ta))) = Inr (Some (Cb_io_timeout fd ev ti)) \<and>
    (\<exists>m1. run_hook_cb ctl (Cb_io_timeout fd ev ti) (infos, m', k1) = Inr (late, m1, k2) \<and>
       io_scheds m1 = ss' \<and> registered m1 = registered m \<and>
       run_hook_cb ctl (Cb_io_timeout fd ev ti) (late, m1, k2) = Inr (late, m1, k2) \<and>
       handle_event ctl \<lparr>ee_events = ev, ee_data = Data_ctx (nat fd)\<rparr> (m1, k2) = Inr (m1, k2)) \<and>
    (\<exists>m1. handle_event ctl \<lparr>ee_events = ev, ee_data = Data_ctx (nat fd)\<rparr> (m', k1) = Inr (m1, k2) \<and>
       io_scheds m1 = ss' \<and> registered m1 = registered m \<and>
       run_hook_cb ctl (Cb_io_timeout fd ev ti) (infos, m1, k2) = Inr (late, m1, k2))"
proof -
  let ?g = "fiber_set f (fb\<lparr>m_state := HOLD, m_ctx := Saved\<rparr>) g"
  have hold: "map_option m_state (fheap ?g f) = Some HOLD" by (simp add: fiber_set_def)
  obtain tm' m' where "io_suspend ctl now ta a (Some sid) fd ev timeout ti (tm, m, k, (t, g)) =
      Some (Inr (True, tm', m', k1, (t\<lparr>t_fiber := Some mf, cpu := Some mf\<rparr>, ?g))) \<and> io_scheds m' = io_scheds m \<and>
    registered m' = (registered m)(fd := registered m fd OR ev) \<and>
    deadlines tm' = (deadlines tm)(ta \<mapsto> now + timeout) \<and>
    call_timer_cb (\<lambda>_. True) (the (tm_cb (tm_at (theap tm') ta))) = Inr (Some (Cb_io_timeout fd ev ti)) \<and>
    (\<exists>m1. run_hook_cb ctl (Cb_io_timeout fd ev ti) (infos, m', k1) = Inr (late, m1, k2) \<and>
       io_scheds m1 = ss' \<and> registered m1 = registered m \<and>
       run_hook_cb ctl (Cb_io_timeout fd ev ti) (late, m1, k2) = Inr (late, m1, k2) \<and>
       handle_event ctl \<lparr>ee_events = ev, ee_data = Data_ctx (nat fd)\<rparr> (m1, k2) = Inr (m1, k2)) \<and>
    (\<exists>m1. handle_event ctl \<lparr>ee_events = ev, ee_data = Data_ctx (nat fd)\<rparr> (m', k1) = Inr (m1, k2) \<and>
       io_scheds m1 = ss' \<and> registered m1 = registered m \<and>
       run_hook_cb ctl (Cb_io_timeout fd ev ti) (infos, m1, k2) = Inr (late, m1, k2))"
    using io_wait_outcome [where ctl = ctl and infos = infos and now = now and ta = ta and a = a,
        OF assms(1-19)] by (elim exE)
  with hold show ?thesis by (intro exI [of _ tm'] exI [of _ m'] exI [of _ ?g]) simp
qed

text \<open>
  Theorem (sleep_needs_iomanager). \<open>Scheduler::run\<close> turns hooks on in every worker, but the hooks use \<open>IOManager::GetThis()\<close>
  unchecked: on a worker of a plain \<open>Scheduler\<close> a hooked sleep, or a hooked call that has to wait, uses a null pointer.
\<close>

theorem sleep_needs_iomanager:
  "hook_sleep True rt now ta a None n s = Inl (Null_deref ''iom'') \<and>
   hook_usleep True rt now ta a None n s = Inl (Null_deref ''iom'') \<and>
   io_suspend ctl now ta a None fd ev timeout ti (tm, m, k, e) = Some (Inl (Null_deref ''iom''))"
  by (cases s) (simp add: hook_sleep_def hook_usleep_def timed_yield_def io_suspend_def)

section \<open>Witnesses\<close>

text \<open>Fiber 2 runs on the thread of main fiber 1; the manager has no event and the timer set is empty.\<close>

definition wait_fibers :: "nat tcb fglobal" where
  "wait_fibers =
     \<lparr>fheap = [1 \<mapsto> \<lparr>m_id = 0, m_stacksize = 0, m_state = EXEC, m_ctx = Saved,
                     m_entry = Entry_MainFunc, m_stack = False, fb_cb = None\<rparr>,
               2 \<mapsto> \<lparr>m_id = 1, m_stacksize = 1024, m_state = EXEC, m_ctx = Saved,
                     m_entry = Entry_MainFunc, m_stack = True, fb_cb = None\<rparr>],
      s_fiber_id = 2, s_fiber_count = 2\<rparr>"

definition wait_tls :: tls where
  "wait_tls = \<lparr>t_fiber = Some 2, t_threadFiber = Some 1, t_main = Some 1, cpu = Some 2\<rparr>"

definition wait_io :: "nat tcb iomanager" where
  "wait_io = \<lparr>m_pending_event_count = 0, m_fd_contexts = map (\<lambda>i. FdContext_new (int i)) [0 ..< 4],
     io_scheds = (\<lambda>_. sched_running), io_self = 0, tickle_pipe = 0\<rparr>"

lemma wait_io_facts: "io_inv wait_io" "registered wait_io fd = 0"
  by (auto simp: io_inv_def wait_io_def registered_def n_events_def upt_rec nth_Cons' less_Suc_eq)

lemma wait_fibers_facts:
  "fheap wait_fibers 2 = Some (the (fheap wait_fibers 2))" "fheap wait_fibers 1 = Some (the (fheap wait_fibers 1))"
  "(2 :: nat) \<noteq> 1" "m_ctx (the (fheap wait_fibers 1)) \<noteq> Past_end" "t_fiber wait_tls = Some 2" "t_main wait_tls = Some 1"
  "m_state (the (fheap wait_fibers 2)) = EXEC"
  by (simp_all add: wait_fibers_def wait_tls_def)

lemma deadlines_empty: "deadlines empty_manager = Map.empty"
  by (simp add: deadlines_def empty_manager_def fun_eq_iff)

theorem sleep_outcome_witness:
  "\<exists>tm' m' g'. hook_nanosleep True 0 1000 70 50 (Some 0) 5 999999999 (empty_manager :: nat tcb timer_manager, wait_io, (wait_tls, wait_fibers)) =
     Inr (0, tm', m', (wait_tls\<lparr>t_fiber := Some 1, cpu := Some 1\<rparr>, g')) \<and>
   map_option m_state (fheap g' 2) = Some HOLD \<and> deadlines tm' 70 = Some 6999"
proof -
  have "(hook_nanosleep True 0 1000 70 50 (Some 0) 5 999999999, 5999) \<in>
      {(hook_sleep True 0 1000 70 50 (Some 0) 5, unat (5 :: u32) * 1000 mod 2 ^ 32),
       (hook_usleep True 0 1000 70 50 (Some 0) 5, unat (5 :: u32) div 1000),
       (hook_nanosleep True 0 1000 70 50 (Some 0) 5 999999999, nat (5 * 1000 + 999999999 div 1000000))}" by simp
  from sleep_outcome [OF tm_wf_empty _ wait_fibers_facts(1-6) this, of wait_io "\<lambda>_. True" demo_ctl Map.empty demo_kernel]
  show ?thesis by (auto simp: deadlines_empty)
qed

theorem io_wait_woken_once_witness:
  "\<exists>tm' m' k' g' m1 k1. io_suspend demo_ctl 1000 70 50 (Some 0) 3 EV_READ 250 90
       (empty_manager, wait_io, Map.empty, (wait_tls, wait_fibers)) =
     Some (Inr (True, tm', m', k', (wait_tls\<lparr>t_fiber := Some 1, cpu := Some 1\<rparr>, g'))) \<and>
   deadlines tm' 70 = Some 1250 \<and>
   run_hook_cb demo_ctl (Cb_io_timeout 3 EV_READ 90 :: nat hook_cb) ([90 \<mapsto> 0], m', k') =
     Inr ([90 \<mapsto> ETIMEDOUT], m1, k1) \<and>
   io_scheds m1 0 = schedule (FT_fiber (Some 2)) (-1) sched_running"
proof -
  have "demo_ctl (if registered wait_io 3 \<noteq> 0 then EPOLL_CTL_MOD else EPOLL_CTL_ADD) 3
      (EPOLLET OR registered wait_io 3 OR EV_READ) Map.empty = (0, [3 \<mapsto> EPOLLET OR EV_READ])"
    "demo_ctl (left_op (registered wait_io 3)) 3 (EPOLLET OR registered wait_io 3) [3 \<mapsto> EPOLLET OR EV_READ] = (0, Map.empty)"
    by (simp_all add: demo_ctl_def wait_io_facts left_op_def)
  note ctl = this
  from io_wait_woken_once [where ctl = demo_ctl and timeout = 250, OF wait_io_facts(1) _ _ _ tm_wf_empty _ _
      wait_fibers_facts(1-6) wait_fibers_facts(7) ctl _ refl refl, where infos = "[90 \<mapsto> 0]" and ti = 90 and now = 1000 and ta = 70 and a = 50 and sid = 0]
  show ?thesis by (auto simp: wait_io_facts deadlines_empty fd_ok_def) (auto simp: wait_io_def)
qed

end
