(* ===== verification/Hook_Fcntl.thy ===== *)
theory Hook_Fcntl
  imports Hook
begin

text \<open>
  The hooked \<open>fcntl\<close> of src/sylar/hook.cc as a whole: the commands by the argument they take, and the raw call \<open>fcntl_f\<close> as a
  function \<open>raw\<close> on an abstract kernel state. Reading an argument that the caller did not pass, or of another type, is
  undefined. The answers of the raw call are 32-bit words; an \<open>int\<close> of -1 is the word of all ones.
\<close>

datatype fcntl_cmd =
    F_SETFL | F_GETFL
  | F_DUPFD | F_DUPFD_CLOEXEC | F_SETFD | F_SETOWN | F_SETSIG | F_SETLEASE | F_NOTIFY | F_SETPIPE_SZ
  | F_GETFD | F_GETOWN | F_GETSIG | F_GETLEASE | F_GETPIPE_SZ
  | F_SETLK | F_SETLKW | F_GETLK
  | F_GETOWN_EX | F_SETOWN_EX
  | F_other int

datatype fcntl_arg = Arg_none | Arg_int u32 | Arg_flock nat | Arg_owner nat

type_synonym 'k raw_fcntl = "int \<Rightarrow> fcntl_cmd \<Rightarrow> fcntl_arg \<Rightarrow> 'k \<Rightarrow> u32 \<times> 'k"

definition va_int :: "fcntl_arg \<Rightarrow> u32 result" where
  "va_int arg = (case arg of Arg_int n \<Rightarrow> Inr n | _ \<Rightarrow> Inl (Undefined ''va_arg(vl, int)''))"

definition va_flock :: "fcntl_arg \<Rightarrow> nat result" where
  "va_flock arg = (case arg of Arg_flock p \<Rightarrow> Inr p | _ \<Rightarrow> Inl (Undefined ''va_arg(vl, struct flock*)''))"

definition va_owner :: "fcntl_arg \<Rightarrow> nat result" where
  "va_owner arg = (case arg of Arg_owner p \<Rightarrow> Inr p | _ \<Rightarrow> Inl (Undefined ''va_arg(vl, struct f_owner_ex*)''))"

definition int_cmds :: "fcntl_cmd list" where
  "int_cmds = [F_DUPFD, F_DUPFD_CLOEXEC, F_SETFD, F_SETOWN, F_SETSIG, F_SETLEASE, F_NOTIFY, F_SETPIPE_SZ]"

definition flock_cmds :: "fcntl_cmd list" where
  "flock_cmds = [F_SETLK, F_SETLKW, F_GETLK]"

definition owner_cmds :: "fcntl_cmd list" where
  "owner_cmds = [F_GETOWN_EX, F_SETOWN_EX]"

definition hook_fcntl ::
    "'k raw_fcntl \<Rightarrow> int \<Rightarrow> fcntl_cmd \<Rightarrow> fcntl_arg \<Rightarrow> fd_manager \<times> 'k \<Rightarrow> (u32 \<times> fd_manager \<times> 'k) result" where
  "hook_fcntl raw fd cmd arg = (\<lambda>(t, k).
     let call = (\<lambda>x t1. case raw fd cmd x k of (r, k1) \<Rightarrow> Inr (r, t1, k1))
     in if cmd = F_SETFL then
          rbind (va_int arg) (\<lambda>n. rbind (fcntl_setfl fd n t) (\<lambda>(n1, t1). call (Arg_int n1) t1))
        else if cmd = F_GETFL then
          (case raw fd cmd Arg_none k of (flags, k1) \<Rightarrow> rbind (fcntl_getfl fd flags t) (\<lambda>r. Inr (r, t, k1)))
        else if cmd \<in> set int_cmds then rbind (va_int arg) (\<lambda>n. call (Arg_int n) t)
        else if cmd \<in> set flock_cmds then rbind (va_flock arg) (\<lambda>p. call (Arg_flock p) t)
        else if cmd \<in> set owner_cmds then rbind (va_owner arg) (\<lambda>p. call (Arg_owner p) t)
        else call Arg_none t)"

text \<open>The argument that the manual gives a command.\<close>

definition arg_fits :: "fcntl_cmd \<Rightarrow> fcntl_arg \<Rightarrow> bool" where
  "arg_fits cmd arg \<longleftrightarrow>
     (case arg of
        Arg_int _ \<Rightarrow> cmd = F_SETFL \<or> cmd \<in> set int_cmds
      | Arg_flock _ \<Rightarrow> cmd \<in> set flock_cmds
      | Arg_owner _ \<Rightarrow> cmd \<in> set owner_cmds
      | Arg_none \<Rightarrow> cmd \<notin> set (F_SETFL # int_cmds @ flock_cmds @ owner_cmds))"

lemmas fcntl_defs = hook_fcntl_def va_int_def va_flock_def va_owner_def arg_fits_def int_cmds_def flock_cmds_def owner_cmds_def

text \<open>
  Theorem (fcntl_passes_on). Every command but \<open>F_SETFL\<close> and \<open>F_GETFL\<close> is handed to the kernel with its argument, and its answer is the
  kernel's; the table of contexts is not touched.
\<close>

theorem fcntl_passes_on:
  assumes "arg_fits cmd arg" "cmd \<notin> {F_SETFL, F_GETFL}"
  shows "hook_fcntl raw fd cmd arg (t, k) = Inr (fst (raw fd cmd arg k), t, snd (raw fd cmd arg k))"
  using assms by (auto simp: fcntl_defs split_def split: fcntl_arg.splits)


text \<open>What \<open>fcntl\<close>(2) documents of the raw calls: after a successful \<open>F_SETFL\<close>, \<open>F_GETFL\<close> shows the \<open>O_NONBLOCK\<close> that was set.\<close>

definition keeps_nonblock :: "'k raw_fcntl \<Rightarrow> int \<Rightarrow> bool" where
  "keeps_nonblock raw fd \<longleftrightarrow>
     (\<forall>flags k. fst (raw fd F_SETFL (Arg_int flags) k) = 0 \<longrightarrow>
        fst (raw fd F_GETFL Arg_none (snd (raw fd F_SETFL (Arg_int flags) k))) AND O_NONBLOCK = flags AND O_NONBLOCK)"

lemma set_flag: "((x :: u32) OR m) AND m = m" "(x AND NOT m) AND m = 0" "(x OR m) AND NOT m = x AND NOT m"
  "(x AND NOT m) AND NOT m = x AND NOT m"
  by (simp_all add: and.assoc bit.conj_disj_distrib2)

text \<open>
  C27 (fcntl_user_view). For an open socket, after \<open>F_SETFL\<close> has succeeded, \<open>F_GETFL\<close> answers the \<open>O_NONBLOCK\<close> the program set and all other
  flags as the kernel has them, while the \<open>O_NONBLOCK\<close> in the kernel is the one of the framework.
\<close>

theorem fcntl_user_view:
  assumes "fd_ok fd" "fd_entry t fd = Some a" "fd_heap t a = Some c" "m_isSocket c" "\<not> m_isClosed c" "keeps_nonblock raw fd"
    and "hook_fcntl raw fd F_SETFL (Arg_int arg) (t, k) = Inr (0, t1, k1)"
  shows "\<exists>flags k2 seen. raw fd F_GETFL Arg_none k1 = (flags, k2) \<and>
    hook_fcntl raw fd F_GETFL Arg_none (t1, k1) = Inr (seen, t1, k2) \<and>
    seen AND O_NONBLOCK = arg AND O_NONBLOCK \<and> seen AND NOT O_NONBLOCK = flags AND NOT O_NONBLOCK \<and>
    (flags AND O_NONBLOCK \<noteq> 0 \<longleftrightarrow> m_sys_nonblock c)"
proof -
  have sock: "open_socket fd t = Inr (Some (a, c))"
    using assms(2-5) getFdCtx_look [OF assms(1), of 0 t] by (simp add: open_socket_def)
  let ?c = "c\<lparr>m_user_nonblock := arg AND O_NONBLOCK \<noteq> 0\<rparr>"
  let ?t = "t\<lparr>fd_heap := (fd_heap t)(a \<mapsto> ?c)\<rparr>"
  let ?n = "if m_sys_nonblock c then arg OR O_NONBLOCK else arg AND NOT O_NONBLOCK"
  have "fcntl_setfl fd arg t = Inr (?n, ?t)" by (simp add: fcntl_setfl_def sock Let_def)
  then have k1: "t1 = ?t" "raw fd F_SETFL (Arg_int ?n) k = (0, k1)"
    using assms(7) by (auto simp: hook_fcntl_def va_int_def split_def prod_eq_iff)
  have "fd_entry ?t fd = fd_entry t fd" by (simp add: fd_entry_def)
  then have sock': "open_socket fd ?t = Inr (Some (a, ?c))"
    using assms(2,4,5) getFdCtx_look [OF assms(1), of 0 ?t] by (simp add: open_socket_def)
  obtain flags k2 where g: "raw fd F_GETFL Arg_none k1 = (flags, k2)" by fastforce
  let ?seen = "if arg AND O_NONBLOCK \<noteq> 0 then flags OR O_NONBLOCK else flags AND NOT O_NONBLOCK"
  have "hook_fcntl raw fd F_GETFL Arg_none (t1, k1) = Inr (?seen, t1, k2)"
    unfolding k1(1) by (simp add: hook_fcntl_def g fcntl_getfl_def sock')
  moreover have "?seen AND O_NONBLOCK = arg AND O_NONBLOCK"
    using and_2048_bit [of arg] set_flag(1,2) [of flags O_NONBLOCK] by auto
  moreover have "?seen AND NOT O_NONBLOCK = flags AND NOT O_NONBLOCK"
    using set_flag(3,4) [of flags O_NONBLOCK] by simp
  moreover have "flags AND O_NONBLOCK = ?n AND O_NONBLOCK"
    using assms(6) k1(2) g unfolding keeps_nonblock_def by (metis fst_conv snd_conv)
  then have "flags AND O_NONBLOCK \<noteq> 0 \<longleftrightarrow> m_sys_nonblock c"
    using set_flag(1,2) [of arg O_NONBLOCK] by simp
  ultimately show ?thesis using g by blast
qed


definition demo_raw :: "u32 raw_fcntl" where
  "demo_raw fd cmd arg k =
     (case (cmd, arg) of
        (F_SETFL, Arg_int n) \<Rightarrow> (0, n)
      | (F_GETFL, _) \<Rightarrow> (k, k)
      | (F_DUPFD, Arg_int n) \<Rightarrow> (n + 1, k)
      | _ \<Rightarrow> (- 1, k))"

lemma fcntl_passes_on_witness:
  "hook_fcntl demo_raw 0 F_DUPFD (Arg_int 7) (demo_table, 2) = Inr (8, demo_table, 2)"
  using fcntl_passes_on [of F_DUPFD "Arg_int 7" demo_raw 0 demo_table 2]
  by (simp add: demo_raw_def arg_fits_def int_cmds_def)

lemma fcntl_user_view_witness:
  "\<exists>t1 k1 seen. hook_fcntl demo_raw 0 F_SETFL (Arg_int 2) (demo_table, 0) = Inr (0, t1, k1) \<and> k1 AND O_NONBLOCK \<noteq> 0 \<and>
     hook_fcntl demo_raw 0 F_GETFL Arg_none (t1, k1) = Inr (seen, t1, k1) \<and> seen AND O_NONBLOCK = 0"
proof -
  obtain t1 k1 where f: "hook_fcntl demo_raw 0 F_SETFL (Arg_int 2) (demo_table, 0) = Inr (0, t1, k1)"
    using demo_table_simps getFdCtx_look [OF demo_table_simps(1), of 0 demo_table]
    by (auto simp: hook_fcntl_def va_int_def fcntl_setfl_def open_socket_def demo_raw_def Let_def)
  have "keeps_nonblock demo_raw 0" by (simp add: keeps_nonblock_def demo_raw_def)
  from fcntl_user_view [OF demo_table_simps(1-5) this f] f show ?thesis
    by (auto simp: demo_raw_def demo_fd_ctx_def)
qed

text \<open>A failed \<open>F_GETFL\<close> of a socket that the program uses in blocking mode is not reported: the answer -1 loses a bit.\<close>

lemma getfl_error_hidden:
  assumes "fd_ok fd" "fd_entry t fd = Some a" "fd_heap t a = Some c" "m_isSocket c" "\<not> m_isClosed c" "\<not> m_user_nonblock c"
    and "raw fd F_GETFL Arg_none k = (- 1, k1)"
  shows "hook_fcntl raw fd F_GETFL arg (t, k) = Inr (- 2049, t, k1)"
proof -
  have "open_socket fd t = Inr (Some (a, c))"
    using assms(2-5) getFdCtx_look [OF assms(1), of 0 t] by (simp add: open_socket_def)
  then show ?thesis using assms(6,7) by (simp add: hook_fcntl_def fcntl_getfl_def)
qed

text \<open>A command the switch does not know loses its argument, such as \<open>F_ADD_SEALS\<close> (1033) or the open-file-description locks.\<close>

lemma other_command_loses_argument:
  "hook_fcntl raw fd (F_other n) arg (t, k) = Inr (fst (raw fd (F_other n) Arg_none k), t, snd (raw fd (F_other n) Arg_none k))"
  by (simp add: fcntl_defs split_def)

end
