(* ===== verification/Yaml.thy ===== *)
theory Yaml
  imports Prelude
begin

text \<open>
  YAML documents as the sources see them through yaml-cpp: a tree of null, scalar, sequence and map nodes. The library itself is
  not part of the repository. Its parser \<open>YAML::Load\<close> (\<open>None\<close> for an exception), its emitter (\<open>operator<<\<close> on a node) and \<open>as<std::string>()\<close> are
  parameters of the definitions that use them; what they are required to do is a hypothesis where it matters.
\<close>

datatype yaml = Y_null | Y_scalar string | Y_seq "yaml list" | Y_map "(string \<times> yaml) list"

type_synonym yaml_load = "string \<Rightarrow> yaml option"
type_synonym yaml_dump = "yaml \<Rightarrow> string"
type_synonym yaml_as_str = "yaml \<Rightarrow> string result"

text \<open>\<open>node["key"]\<close> with \<open>IsDefined()\<close>: \<open>None\<close> is an undefined node. A scalar has no subscripts.\<close>

definition y_get :: "string \<Rightarrow> yaml \<Rightarrow> yaml option result" where
  "y_get k n =
     (case n of
        Y_map kvs \<Rightarrow> Inr (map_of kvs k)
      | Y_scalar _ \<Rightarrow> Inl (Throws ''YAML::BadSubscript'')
      | _ \<Rightarrow> Inr None)"

text \<open>The nodes a range-based loop visits. The elements of a map are pairs, which have no subscripts and no text of their own.\<close>

definition y_elems :: "yaml \<Rightarrow> yaml list result" where
  "y_elems n =
     (case n of
        Y_seq ns \<Rightarrow> Inr ns
      | Y_map kvs \<Rightarrow> if kvs = [] then Inr [] else Inl (Throws ''YAML::InvalidNode'')
      | _ \<Rightarrow> Inr [])"

text \<open>\<open>push_back\<close> turns a null node into a sequence.\<close>

definition y_push_back :: "yaml \<Rightarrow> yaml \<Rightarrow> yaml" where
  "y_push_back n x = (case n of Y_seq ns \<Rightarrow> Y_seq (ns @ [x]) | _ \<Rightarrow> Y_seq [x])"

text \<open>The node that holds a sequence built by pushing: null when nothing was pushed.\<close>

definition y_list :: "yaml list \<Rightarrow> yaml" where
  "y_list ns = (if ns = [] then Y_null else Y_seq ns)"

lemma foldl_push_back: "foldl y_push_back Y_null ns = y_list ns"
proof -
  have "foldl y_push_back (Y_seq ms) ns = Y_seq (ms @ ns)" for ms ns
    by (induction ns arbitrary: ms) (simp_all add: y_push_back_def)
  from this [of "[hd ns]" "tl ns"] show ?thesis by (cases ns) (simp_all add: y_list_def y_push_back_def)
qed

lemma y_elems_list [simp]: "y_elems (y_list ns) = Inr ns"
  by (simp add: y_elems_def y_list_def)

text \<open>Sequencing over a list, as a loop that an exception leaves.\<close>

fun rmap :: "('a \<Rightarrow> 'b result) \<Rightarrow> 'a list \<Rightarrow> 'b list result" where
  "rmap f [] = Inr []"
| "rmap f (x # xs) = rbind (f x) (\<lambda>y. rbind (rmap f xs) (\<lambda>ys. Inr (y # ys)))"

lemma rmap_Inr: "(\<And>x. x \<in> set xs \<Longrightarrow> f x = Inr (g x)) \<Longrightarrow> rmap f xs = Inr (map g xs)"
  by (induction xs) simp_all

definition opt_result :: "string \<Rightarrow> 'a option \<Rightarrow> 'a result" where
  "opt_result w x = (case x of None \<Rightarrow> Inl (Throws w) | Some y \<Rightarrow> Inr y)"

lemma opt_result_simps [simp]: "opt_result w (Some x) = Inr x" "opt_result w None = Inl (Throws w)"
  by (simp_all add: opt_result_def)

end
