(* ===== verification/Config.thy ===== *)
theory Config
  imports Yaml "HOL-Library.AList"
begin

text \<open>
  Configuration variables of src/sylar/config.h and src/sylar/config.cc.

  A variable is an object of the heap \<open>cf_vars\<close>, shared by its users and by the registry \<open>cf_datas\<close>. Its C++ type is the string
  \<open>cv_type\<close> (\<open>typeid(T).name()\<close>); the values of all types form one type \<open>'v\<close>. The conversions from and to strings are given
  per type, with \<open>None\<close> for an exception: for the sequence types they are the casts below, for the others
  \<open>boost::lexical_cast\<close>. Listeners are client code: \<open>call cb old new\<close> says whether the call returns (it may throw). The list order of \<open>cv_cbs\<close>
  and \<open>cf_datas\<close> stands for the iteration order of the hash tables.
\<close>

section \<open>Casts of sequences\<close>

text \<open>\<open>LexicalCast<std::string, std::vector<T>>\<close> and back; \<open>std::list<T>\<close> has the same code.\<close>

definition cast_to_vector ::
    "yaml_load \<Rightarrow> yaml_dump \<Rightarrow> (string \<Rightarrow> 't option) \<Rightarrow> string \<Rightarrow> 't list result" where
  "cast_to_vector load dump conv v =
     rbind (opt_result ''YAML::ParserException'' (load v)) (\<lambda>node.
     rbind (y_elems node) (\<lambda>ns.
       rmap (\<lambda>i. opt_result ''bad_lexical_cast'' (conv (dump i))) ns))"

definition cast_from_vector ::
    "yaml_load \<Rightarrow> yaml_dump \<Rightarrow> ('t \<Rightarrow> string option) \<Rightarrow> 't list \<Rightarrow> string result" where
  "cast_from_vector load dump to v =
     rbind (rmap (\<lambda>i. rbind (opt_result ''bad_lexical_cast'' (to i)) (\<lambda>s.
                       opt_result ''YAML::ParserException'' (load s))) v) (\<lambda>ns.
       Inr (dump (foldl y_push_back Y_null ns)))"

definition cast_to_list ::
    "yaml_load \<Rightarrow> yaml_dump \<Rightarrow> (string \<Rightarrow> 't option) \<Rightarrow> string \<Rightarrow> 't list result" where
  "cast_to_list load dump conv v =
     rbind (opt_result ''YAML::ParserException'' (load v)) (\<lambda>node.
     rbind (y_elems node) (\<lambda>ns.
       rmap (\<lambda>i. opt_result ''bad_lexical_cast'' (conv (dump i))) ns))"

definition cast_from_list ::
    "yaml_load \<Rightarrow> yaml_dump \<Rightarrow> ('t \<Rightarrow> string option) \<Rightarrow> 't list \<Rightarrow> string result" where
  "cast_from_list load dump to v =
     rbind (rmap (\<lambda>i. rbind (opt_result ''bad_lexical_cast'' (to i)) (\<lambda>s.
                       opt_result ''YAML::ParserException'' (load s))) v) (\<lambda>ns.
       Inr (dump (foldl y_push_back Y_null ns)))"

text \<open>
  \<open>LexicalCast<std::unordered_map<std::string, T>, std::string>\<close>: \<open>v\<close> lists the entries, with distinct keys, in the order of the
  hash table; assigning to a key of a null node turns it into a map. (The cast in the other direction has a body that does not
  compile when it is used.)
\<close>

definition cast_from_unordered_map ::
    "yaml_load \<Rightarrow> yaml_dump \<Rightarrow> ('t \<Rightarrow> string option) \<Rightarrow> (string \<times> 't) list \<Rightarrow> string result" where
  "cast_from_unordered_map load dump to v =
     rbind (rmap (\<lambda>(k, x). rbind (opt_result ''bad_lexical_cast'' (to x)) (\<lambda>s.
                           rbind (opt_result ''YAML::ParserException'' (load s)) (\<lambda>n. Inr (k, n)))) v) (\<lambda>kvs.
       Inr (dump (if kvs = [] then Y_null else Y_map kvs)))"

section \<open>Variables\<close>

record ('v, 'cb) config_var =
  cv_name :: string
  cv_description :: string
  cv_type :: string
  cv_val :: 'v
  cv_cbs :: "(u64 \<times> 'cb) list"

record ('v, 'cb) config =
  cf_vars :: "nat \<Rightarrow> ('v, 'cb) config_var option"
  cf_datas :: "(string \<times> nat) list"
  cf_fun_id :: "string \<Rightarrow> u64"

definition ConfigVar_new :: "string \<Rightarrow> string \<Rightarrow> 'v \<Rightarrow> string \<Rightarrow> ('v, 'cb) config_var" where
  "ConfigVar_new name type val description =
     \<lparr>cv_name = name, cv_description = description, cv_type = type, cv_val = val, cv_cbs = []\<rparr>"

text \<open>
  The loop over the listeners: the calls made, and whether all returned. A listener that does not return throws a \<open>std::exception\<close>, the only
  kind of exception \<open>fromString\<close> catches; other exceptions are not modelled.
\<close>

fun notify :: "('cb \<Rightarrow> 'v \<Rightarrow> 'v \<Rightarrow> bool) \<Rightarrow> 'v \<Rightarrow> 'v \<Rightarrow> (u64 \<times> 'cb) list \<Rightarrow> 'cb list \<times> bool" where
  "notify call old new [] = ([], True)"
| "notify call old new ((k, cb) # cbs) =
     (if call cb old new then (case notify call old new cbs of (calls, ok) \<Rightarrow> (cb # calls, ok)) else ([cb], False))"

definition setValue ::
    "('cb \<Rightarrow> 'v \<Rightarrow> 'v \<Rightarrow> bool) \<Rightarrow> 'v \<Rightarrow> ('v, 'cb) config_var \<Rightarrow> 'cb list \<times> ('v, 'cb) config_var result" where
  "setValue call new_val v =
     (if new_val = cv_val v then ([], Inr v)
      else
        (case notify call (cv_val v) new_val (cv_cbs v) of
           (calls, ok) \<Rightarrow>
             (calls, if ok then Inr (v\<lparr>cv_val := new_val\<rparr>) else Inl (Throws ''exception of a listener''))))"

definition ConfigVar_toString :: "('v \<Rightarrow> string option) \<Rightarrow> ('v, 'cb) config_var \<Rightarrow> string" where
  "ConfigVar_toString to v = (case to (cv_val v) of Some s \<Rightarrow> s | None \<Rightarrow> '''')"

definition ConfigVar_fromString ::
    "(string \<Rightarrow> 'v option) \<Rightarrow> ('cb \<Rightarrow> 'v \<Rightarrow> 'v \<Rightarrow> bool) \<Rightarrow> string \<Rightarrow> ('v, 'cb) config_var
       \<Rightarrow> bool \<times> 'cb list \<times> ('v, 'cb) config_var" where
  "ConfigVar_fromString conv call val v =
     (case conv val of
        None \<Rightarrow> (False, [], v)
      | Some new_val \<Rightarrow>
          (case setValue call new_val v of
             (calls, Inr v1) \<Rightarrow> (True, calls, v1)
           | (calls, Inl _) \<Rightarrow> (False, calls, v)))"

text \<open>The key counter \<open>s_fun_id\<close> is shared by all variables of one type.\<close>

definition addListener :: "nat \<Rightarrow> 'cb \<Rightarrow> ('v, 'cb) config \<Rightarrow> ('v, 'cb) config result" where
  "addListener a cb c =
     (case cf_vars c a of
        None \<Rightarrow> Inl (Undefined ''destroyed variable'')
      | Some v \<Rightarrow>
          let k = cf_fun_id c (cv_type v) + 1
          in Inr (c\<lparr>cf_fun_id := (cf_fun_id c)(cv_type v := k),
                    cf_vars := (cf_vars c)(a \<mapsto> v\<lparr>cv_cbs := AList.update k cb (cv_cbs v)\<rparr>)\<rparr>))"

definition delListener :: "u64 \<Rightarrow> ('v, 'cb) config_var \<Rightarrow> ('v, 'cb) config_var" where
  "delListener key v = v\<lparr>cv_cbs := AList.delete key (cv_cbs v)\<rparr>"

definition getListener :: "u64 \<Rightarrow> ('v, 'cb) config_var \<Rightarrow> 'cb option" where
  "getListener key v = map_of (cv_cbs v) key"

definition clearListener :: "('v, 'cb) config_var \<Rightarrow> ('v, 'cb) config_var" where
  "clearListener v = v\<lparr>cv_cbs := []\<rparr>"

section \<open>The registry\<close>

definition name_chars :: "char set" where
  "name_chars = set ''abcdefghijklmnopqrstuvwxyzABCDEFGHIJKLMNOPQRSTUVWXYZ._0123456789''"

definition lower_name_chars :: "char set" where
  "lower_name_chars = set ''abcdefghijklmnopqrstuvwxyz._0123456789''"

text \<open>
  \<open>Config::Lookup<T>(name, default, description)\<close>; \<open>a\<close> is the address of a new variable. A variable found under another type is
  only reported, and then replaced.
\<close>

definition Lookup_create ::
    "nat \<Rightarrow> string \<Rightarrow> string \<Rightarrow> 'v \<Rightarrow> string \<Rightarrow> ('v, 'cb) config \<Rightarrow> (nat \<times> ('v, 'cb) config) result" where
  "Lookup_create a type name default_value description c =
     (if \<not> set name \<subseteq> name_chars then Inl (Throws ''std::invalid_argument'')
      else Inr (a, c\<lparr>cf_vars := (cf_vars c)(a \<mapsto> ConfigVar_new name type default_value description),
                     cf_datas := AList.update name a (cf_datas c)\<rparr>))"

definition Lookup ::
    "nat \<Rightarrow> string \<Rightarrow> string \<Rightarrow> 'v \<Rightarrow> string \<Rightarrow> ('v, 'cb) config \<Rightarrow> (nat \<times> ('v, 'cb) config) result" where
  "Lookup a type name default_value description c =
     (case map_of (cf_datas c) name of
        None \<Rightarrow> Lookup_create a type name default_value description c
      | Some b \<Rightarrow>
          (case cf_vars c b of
             None \<Rightarrow> Inl (Undefined ''destroyed variable'')
           | Some v \<Rightarrow>
               if cv_type v = type then Inr (b, c)
               else Lookup_create a type name default_value description c))"

definition LookupBase :: "string \<Rightarrow> ('v, 'cb) config \<Rightarrow> nat option" where
  "LookupBase name c = map_of (cf_datas c) name"

text \<open>\<open>Config::Lookup<T>(name)\<close>: null for an unknown name and for another type.\<close>

definition Lookup_existing :: "string \<Rightarrow> string \<Rightarrow> ('v, 'cb) config \<Rightarrow> nat option" where
  "Lookup_existing type name c =
     (case map_of (cf_datas c) name of
        None \<Rightarrow> None
      | Some b \<Rightarrow> (case cf_vars c b of None \<Rightarrow> None | Some v \<Rightarrow> if cv_type v = type then Some b else None))"

definition Visit :: "('v, 'cb) config \<Rightarrow> nat list" where
  "Visit c = map snd (cf_datas c)"

section \<open>Loading a document\<close>

fun ListAllMember :: "string \<Rightarrow> yaml \<Rightarrow> (string \<times> yaml) list"
  and ListMembers :: "string \<Rightarrow> (string \<times> yaml) list \<Rightarrow> (string \<times> yaml) list" where
  "ListAllMember prefix node =
     (if \<not> set prefix \<subseteq> lower_name_chars then []
      else (prefix, node) # (case node of Y_map kvs \<Rightarrow> ListMembers prefix kvs | _ \<Rightarrow> []))"
| "ListMembers prefix [] = []"
| "ListMembers prefix ((k, n) # kvs) =
     ListAllMember (if prefix = [] then k else prefix @ ''.'' @ k) n @ ListMembers prefix kvs"

definition tolower :: "char \<Rightarrow> char" where
  "tolower c = (let n = of_char c :: nat in if 65 \<le> n \<and> n \<le> 90 then char_of (n + 32) else c)"

text \<open>One turn of the loop in \<open>LoadFromYaml\<close>; \<open>conv\<close> is the conversion of each type.\<close>

definition load_node ::
    "yaml_dump \<Rightarrow> (string \<Rightarrow> string \<Rightarrow> 'v option) \<Rightarrow> ('cb \<Rightarrow> 'v \<Rightarrow> 'v \<Rightarrow> bool) \<Rightarrow> string \<times> yaml
       \<Rightarrow> ('v, 'cb) config \<Rightarrow> ('v, 'cb) config result" where
  "load_node dump conv call = (\<lambda>(key, node) c.
     if key = [] then Inr c
     else
       (case LookupBase (map tolower key) c of
          None \<Rightarrow> Inr c
        | Some a \<Rightarrow>
            (case cf_vars c a of
               None \<Rightarrow> Inl (Undefined ''destroyed variable'')
             | Some v \<Rightarrow>
                 let text = (case node of Y_scalar s \<Rightarrow> s | _ \<Rightarrow> dump node)
                 in case ConfigVar_fromString (conv (cv_type v)) call text v of
                      (_, _, v1) \<Rightarrow> Inr (c\<lparr>cf_vars := (cf_vars c)(a \<mapsto> v1)\<rparr>))))"

fun load_nodes ::
    "yaml_dump \<Rightarrow> (string \<Rightarrow> string \<Rightarrow> 'v option) \<Rightarrow> ('cb \<Rightarrow> 'v \<Rightarrow> 'v \<Rightarrow> bool) \<Rightarrow> (string \<times> yaml) list
       \<Rightarrow> ('v, 'cb) config \<Rightarrow> ('v, 'cb) config result" where
  "load_nodes dump conv call [] c = Inr c"
| "load_nodes dump conv call (kn # kns) c = rbind (load_node dump conv call kn c) (load_nodes dump conv call kns)"

definition LoadFromYaml ::
    "yaml_dump \<Rightarrow> (string \<Rightarrow> string \<Rightarrow> 'v option) \<Rightarrow> ('cb \<Rightarrow> 'v \<Rightarrow> 'v \<Rightarrow> bool) \<Rightarrow> yaml
       \<Rightarrow> ('v, 'cb) config \<Rightarrow> ('v, 'cb) config result" where
  "LoadFromYaml dump conv call root c = load_nodes dump conv call (ListAllMember '''' root) c"

section \<open>Paths into a document\<close>

text \<open>\<open>y_path n ks m\<close>: the keys \<open>ks\<close> lead from node \<open>n\<close> to node \<open>m\<close>. \<open>key_at\<close> joins keys with dots as the loader does.\<close>

inductive y_path :: "yaml \<Rightarrow> string list \<Rightarrow> yaml \<Rightarrow> bool" where
  y_here: "y_path n [] n"
| y_below: "(k, n) \<in> set kvs \<Longrightarrow> y_path n ks m \<Longrightarrow> y_path (Y_map kvs) (k # ks) m"

inductive_simps y_path_Nil [simp]: "y_path n [] m"
inductive_simps y_path_Cons: "y_path n (k # ks) m"

definition join_key :: "string \<Rightarrow> string \<Rightarrow> string" where
  "join_key prefix k = (if prefix = [] then k else prefix @ ''.'' @ k)"

definition key_at :: "string \<Rightarrow> string list \<Rightarrow> string" where
  "key_at prefix ks = foldl join_key prefix ks"

lemma key_at_simps [simp]: "key_at p [] = p" "key_at p (k # ks) = key_at (join_key p k) ks"
  by (simp_all add: key_at_def)

lemma set_key_at: "set p \<subseteq> set (key_at p ks)"
proof (induction ks arbitrary: p)
  case (Cons k ks)
  have "set p \<subseteq> set (join_key p k)" by (auto simp: join_key_def)
  with Cons [of "join_key p k"] show ?case by auto
qed simp

lemma ex_list: "(\<exists>ks. P ks) \<longleftrightarrow> P [] \<or> (\<exists>k ks. P (k # ks))"
  by (metis list.exhaust)

lemma ListAllMember_paths:
  "(x, m) \<in> set (ListAllMember p n) \<longleftrightarrow> (\<exists>ks. y_path n ks m \<and> x = key_at p ks \<and> set x \<subseteq> lower_name_chars)"
  "(x, m) \<in> set (ListMembers p kvs) \<longleftrightarrow>
     (\<exists>k n ks. (k, n) \<in> set kvs \<and> y_path n ks m \<and> x = key_at (join_key p k) ks \<and> set x \<subseteq> lower_name_chars)"
proof (induction p n and p kvs rule: ListAllMember_ListMembers.induct)
  case (1 p n)
  show ?case
  proof (cases "set p \<subseteq> lower_name_chars")
    case False
    then have "\<not> set (key_at p ks) \<subseteq> lower_name_chars" for ks using set_key_at [of p ks] by auto
    with False show ?thesis by auto
  next
    case True
    have "(\<exists>ks. y_path n ks m \<and> x = key_at p ks \<and> set x \<subseteq> lower_name_chars) \<longleftrightarrow>
        x = p \<and> m = n \<or> (\<exists>k ks. y_path n (k # ks) m \<and> x = key_at (join_key p k) ks \<and> set x \<subseteq> lower_name_chars)"
      using True by (subst ex_list) auto
    also have "\<dots> \<longleftrightarrow> (x, m) \<in> set (ListAllMember p n)"
    proof (cases n)
      case (Y_map kvs)
      with 1 [of kvs] True show ?thesis by (simp add: y_path_Cons) blast
    qed (use True in \<open>auto simp: y_path_Cons\<close>)
    finally show ?thesis by simp
  qed
next
  case (3 p k n kvs)
  have "ListMembers p ((k, n) # kvs) = ListAllMember (join_key p k) n @ ListMembers p kvs"
    by (simp add: join_key_def)
  then show ?case using 3 [folded join_key_def] by (simp del: ListMembers.simps ListAllMember.simps) blast
qed simp

section \<open>The invariant of the registry\<close>

definition cfg_inv :: "('v, 'cb) config \<Rightarrow> bool" where
  "cfg_inv c \<longleftrightarrow> distinct (map fst (cf_datas c)) \<and>
     (\<forall>name a. LookupBase name c = Some a \<longrightarrow>
        set name \<subseteq> name_chars \<and> (\<exists>v. cf_vars c a = Some v \<and> cv_name v = name))"

lemma cfg_invD:
  "cfg_inv c \<Longrightarrow> LookupBase name c = Some a \<Longrightarrow> set name \<subseteq> name_chars \<and> (\<exists>v. cf_vars c a = Some v \<and> cv_name v = name)"
  by (simp add: cfg_inv_def)

lemma LookupBase_inj: "cfg_inv c \<Longrightarrow> LookupBase n1 c = Some a \<Longrightarrow> LookupBase n2 c = Some a \<Longrightarrow> n1 = n2"
  using cfg_invD [of c n1 a] cfg_invD [of c n2 a] by auto

lemma Lookup_create_inv:
  assumes "cfg_inv c" and "cf_vars c a = None" and "Lookup_create a type name d desc c = Inr (b, c')"
  shows "b = a" "cfg_inv c'" "cf_vars c' = (cf_vars c)(a \<mapsto> ConfigVar_new name type d desc)"
    "LookupBase n c' = (if n = name then Some a else LookupBase n c)" "set name \<subseteq> name_chars"
proof -
  from assms(3) show b: "b = a" and v: "cf_vars c' = (cf_vars c)(a \<mapsto> ConfigVar_new name type d desc)"
    and n: "set name \<subseteq> name_chars"
    by (auto simp: Lookup_create_def split: if_splits)
  from assms(3) have d: "cf_datas c' = AList.update name a (cf_datas c)"
    by (auto simp: Lookup_create_def split: if_splits)
  then show l: "LookupBase n c' = (if n = name then Some a else LookupBase n c)" for n
    by (simp add: LookupBase_def update_conv')
  show "cfg_inv c'"
    using assms(1,2) d v n by (fastforce simp: cfg_inv_def distinct_update l ConfigVar_new_def)
qed

text \<open>
  C35 (config_lookup_typed). \<open>Lookup<T>\<close> answers a variable of type \<open>T\<close> registered under the name, or throws for a name with invalid
  characters that is not registered for \<open>T\<close>. It keeps the invariant of the registry, every variable there was and every other
  name; and looking the name up again for the same type gives the same variable.
\<close>

theorem config_lookup_typed:
  assumes "cfg_inv c" and "cf_vars c a = None"
  shows "case Lookup a type name d desc c of
      Inr (b, c') \<Rightarrow> cfg_inv c' \<and> LookupBase name c' = Some b \<and>
        (\<exists>v. cf_vars c' b = Some v \<and> cv_type v = type \<and> cv_name v = name) \<and>
        (\<forall>b' v'. cf_vars c b' = Some v' \<longrightarrow> cf_vars c' b' = Some v') \<and>
        (\<forall>n. n \<noteq> name \<longrightarrow> LookupBase n c' = LookupBase n c) \<and>
        Lookup a' type name d' desc' c' = Inr (b, c') \<and> Lookup_existing type name c' = Some b
    | Inl e \<Rightarrow> e = Throws ''std::invalid_argument'' \<and> \<not> set name \<subseteq> name_chars"
proof (cases "Lookup_existing type name c")
  case None
  have *: "Lookup a type name d desc c = Lookup_create a type name d desc c"
    using None cfg_invD [OF assms(1), of name]
    by (auto simp: Lookup_def Lookup_existing_def LookupBase_def split: option.splits if_splits)
  show ?thesis
  proof (cases "Lookup_create a type name d desc c")
    case (Inl e)
    then show ?thesis using * by (auto simp: Lookup_create_def split: if_splits)
  next
    case (Inr r)
    obtain b c' where r: "r = (b, c')" by (cases r)
    note i = Lookup_create_inv [OF assms Inr [unfolded r]]
    show ?thesis
      using * Inr r i(1-3) i(4) [of name] i(4) assms(2)
      by (auto simp: ConfigVar_new_def Lookup_def Lookup_existing_def LookupBase_def [symmetric])
  qed
next
  case (Some b)
  then show ?thesis
    using assms cfg_invD [OF assms(1), of name b]
    by (auto simp: Lookup_def Lookup_existing_def LookupBase_def split: option.splits if_splits)
qed

theorem config_lookup_typed_witness:
  "\<exists>c' :: (int, nat) config. Lookup 1 ''i'' ''tcp.timeout'' 5000 ''''
      \<lparr>cf_vars = Map.empty, cf_datas = [], cf_fun_id = (\<lambda>_. 0)\<rparr> = Inr (1, c') \<and> cfg_inv c' \<and>
     Lookup 2 ''i'' ''tcp.timeout'' 0 '''' c' = Inr (1, c')"
proof -
  let ?c = "\<lparr>cf_vars = Map.empty, cf_datas = [], cf_fun_id = (\<lambda>_. 0)\<rparr> :: (int, nat) config"
  have "cfg_inv ?c" by (simp add: cfg_inv_def LookupBase_def)
  moreover have "\<exists>c'. Lookup 1 ''i'' ''tcp.timeout'' 5000 '''' ?c = Inr (1, c')"
    by (simp add: Lookup_def Lookup_create_def name_chars_def)
  ultimately show ?thesis
    using config_lookup_typed [where c = ?c and a = 1 and type = "''i''" and name = "''tcp.timeout''" and d = 5000 and desc = "''''"
      and a' = 2 and d' = 0 and desc' = "''''"] by auto
qed

section \<open>Setting and loading values\<close>

lemma notify_eq:
  "notify call old new cbs =
     (takeWhile (\<lambda>cb. call cb old new) (map snd cbs) @
        take 1 (dropWhile (\<lambda>cb. call cb old new) (map snd cbs)),
      list_all (\<lambda>cb. call cb old new) (map snd cbs))"
  by (induction cbs) auto

lemma fromString_var:
  "snd (snd (ConfigVar_fromString conv call text v)) =
     (case conv text of
        None \<Rightarrow> v
      | Some x \<Rightarrow> if x = cv_val v \<or> (\<forall>cb \<in> snd ` set (cv_cbs v). call cb (cv_val v) x) then v\<lparr>cv_val := x\<rparr> else v)"
  by (auto simp: ConfigVar_fromString_def setValue_def notify_eq list_all_iff split: option.splits sum.splits)

text \<open>
  C36 (config_set_value). \<open>fromString\<close> changes a variable exactly when the text converts and every listener it has to call returns.
  If the new value differs from the old one the listeners are called once each with the old and the new value, before the value
  changes, up to the first one that throws; the answer is false exactly for a text that does not convert or a listener
  that throws, and then the variable keeps its value.
\<close>

theorem config_set_value:
  assumes "conv text = Some x"
  shows "ConfigVar_fromString conv call text v =
    (let ls = map snd (cv_cbs v); returns = (\<lambda>cb. call cb (cv_val v) x)
     in if x = cv_val v then (True, [], v)
        else if list_all returns ls then (True, ls, v\<lparr>cv_val := x\<rparr>)
        else (False, takeWhile returns ls @ [hd (dropWhile returns ls)], v)) \<and>
   (conv bad = None \<longrightarrow> ConfigVar_fromString conv call bad v = (False, [], v))"
proof -
  have tw: "takeWhile P ls @ take 1 (dropWhile P ls) = ls" if "list_all P ls" for P :: "'b \<Rightarrow> bool" and ls
    using that by (metis append_Nil2 dropWhile_eq_Nil_conv list_all_iff take_Nil takeWhile_eq_all_conv)
  have dw: "take 1 (dropWhile P ls) = [hd (dropWhile P ls)]" if "\<not> list_all P ls" for P :: "'b \<Rightarrow> bool" and ls
    using that by (cases "dropWhile P ls") (auto simp: list_all_iff dropWhile_eq_Nil_conv)
  show ?thesis
    using assms tw dw by (simp add: ConfigVar_fromString_def setValue_def notify_eq Let_def)
qed

text \<open>
  Theorem (config_keys_are_paths). The loader considers exactly the nodes whose path consists of keys that, joined with dots, have only lower-case
  letters, digits, dots and underscores; each is listed under that name. A key with any other character hides everything below it.
\<close>

theorem config_keys_are_paths:
  "(key, node) \<in> set (ListAllMember '''' root) \<longleftrightarrow>
     (\<exists>ks. y_path root ks node \<and> key = key_at '''' ks \<and> set key \<subseteq> lower_name_chars)"
  by (rule ListAllMember_paths(1))

lemma tolower_id: "set key \<subseteq> lower_name_chars \<Longrightarrow> map tolower key = key"
proof -
  have "tolower c = c" if "c \<in> lower_name_chars" for c
    using that unfolding lower_name_chars_def by (auto simp: tolower_def)
  then show "set key \<subseteq> lower_name_chars \<Longrightarrow> map tolower key = key" by (simp add: map_idI subset_iff)
qed

definition node_text :: "yaml_dump \<Rightarrow> yaml \<Rightarrow> string" where
  "node_text dump node = (case node of Y_scalar s \<Rightarrow> s | _ \<Rightarrow> dump node)"

text \<open>The variable after its node, if the document has one, was converted.\<close>

definition loaded_var ::
    "yaml_dump \<Rightarrow> (string \<Rightarrow> string \<Rightarrow> 'v option) \<Rightarrow> ('cb \<Rightarrow> 'v \<Rightarrow> 'v \<Rightarrow> bool) \<Rightarrow> yaml option
       \<Rightarrow> ('v, 'cb) config_var \<Rightarrow> ('v, 'cb) config_var" where
  "loaded_var dump conv call node v =
     (case node of
        None \<Rightarrow> v
      | Some n \<Rightarrow>
          (case conv (cv_type v) (node_text dump n) of
             None \<Rightarrow> v
           | Some x \<Rightarrow>
               if x = cv_val v \<or> (\<forall>cb \<in> snd ` set (cv_cbs v). call cb (cv_val v) x) then v\<lparr>cv_val := x\<rparr> else v))"

lemma loaded_var_simps [simp]:
  "cv_name (loaded_var dump conv call n v) = cv_name v" "cv_type (loaded_var dump conv call n v) = cv_type v"
  "loaded_var dump conv call None v = v"
  by (simp_all add: loaded_var_def split: option.splits)

lemma load_node_eq:
  assumes "cfg_inv c" and "set key \<subseteq> lower_name_chars" and "key \<noteq> []"
  shows "load_node dump conv call (key, node) c = Inr (c\<lparr>cf_vars := \<lambda>a.
    if LookupBase key c = Some a then map_option (loaded_var dump conv call (Some node)) (cf_vars c a) else cf_vars c a\<rparr>)"
proof (cases "LookupBase key c")
  case None
  then show ?thesis using assms(3) by (simp add: load_node_def tolower_id [OF assms(2)])
next
  case (Some a)
  from cfg_invD [OF assms(1) Some] obtain v where v: "cf_vars c a = Some v" by blast
  have "snd (snd (ConfigVar_fromString (conv (cv_type v)) call (node_text dump node) v)) =
      loaded_var dump conv call (Some node) v"
    by (simp add: fromString_var loaded_var_def)
  then show ?thesis
    using Some v assms(3)
    by (auto simp: load_node_def tolower_id [OF assms(2)] node_text_def [symmetric] fun_eq_iff split: prod.split)
qed

definition load_var ::
    "yaml_dump \<Rightarrow> (string \<Rightarrow> string \<Rightarrow> 'v option) \<Rightarrow> ('cb \<Rightarrow> 'v \<Rightarrow> 'v \<Rightarrow> bool) \<Rightarrow> (string \<times> yaml) list
       \<Rightarrow> ('v, 'cb) config \<Rightarrow> nat \<Rightarrow> ('v, 'cb) config_var \<Rightarrow> ('v, 'cb) config_var" where
  "load_var dump conv call kns c a v =
     (if LookupBase (cv_name v) c = Some a \<and> cv_name v \<noteq> []
      then loaded_var dump conv call (map_of kns (cv_name v)) v else v)"

lemma cfg_inv_map_vars:
  assumes "cfg_inv c" and "\<And>a v. cv_name (f a v) = cv_name v"
  shows "cfg_inv (c\<lparr>cf_vars := \<lambda>a. map_option (f a) (cf_vars c a)\<rparr>)"
  using assms by (fastforce simp: cfg_inv_def LookupBase_def)

lemma load_nodes_eq:
  assumes "cfg_inv c" and "\<And>k n. (k, n) \<in> set kns \<Longrightarrow> set k \<subseteq> lower_name_chars" and "distinct (map fst kns)"
  shows "load_nodes dump conv call kns c =
    Inr (c\<lparr>cf_vars := \<lambda>a. map_option (load_var dump conv call kns c a) (cf_vars c a)\<rparr>)"
  using assms
proof (induction kns arbitrary: c)
  case Nil
  have "map_option (load_var dump conv call [] c a) (cf_vars c a) = cf_vars c a" for a
    by (cases "cf_vars c a") (simp_all add: load_var_def)
  then show ?case by simp
next
  case (Cons kn kns)
  obtain key node where kn: "kn = (key, node)" by (cases kn)
  let ?f = "\<lambda>a v. if LookupBase key c = Some a \<and> key \<noteq> [] then loaded_var dump conv call (Some node) v else v"
  let ?c = "c\<lparr>cf_vars := \<lambda>a. map_option (?f a) (cf_vars c a)\<rparr>"
  have lower: "set key \<subseteq> lower_name_chars" using Cons.prems(2) kn by auto
  have "(if LookupBase key c = Some a then map_option (loaded_var dump conv call (Some node)) (cf_vars c a)
      else cf_vars c a) = map_option (?f a) (cf_vars c a)" if "key \<noteq> []" for a
    using that by (cases "cf_vars c a") auto
  moreover have "map_option (\<lambda>v. v) x = x" for x :: "('a, 'b) config_var option" by (cases x) simp_all
  ultimately have one: "load_node dump conv call kn c = Inr ?c"
    using load_node_eq [OF Cons.prems(1) lower] kn by (cases "key = []") (simp_all add: load_node_def)
  have inv: "cfg_inv ?c" by (rule cfg_inv_map_vars [OF Cons.prems(1)]) simp
  have same: "LookupBase n ?c = LookupBase n c" for n by (simp add: LookupBase_def)
  have "load_var dump conv call kns ?c a (?f a v) = load_var dump conv call (kn # kns) c a v"
    if v: "cf_vars c a = Some v" for a v
  proof (cases "LookupBase key c = Some a")
    case True
    then have "cv_name v = key" using cfg_invD [OF Cons.prems(1) True] v by simp
    moreover have "map_of kns key = None" using Cons.prems(3) kn by (simp add: map_of_eq_None_iff)
    ultimately show ?thesis using True kn by (auto simp: load_var_def same)
  next
    case False
    then show ?thesis using kn by (auto simp: load_var_def same)
  qed
  then have "map_option (load_var dump conv call kns ?c a) (cf_vars ?c a) =
      map_option (load_var dump conv call (kn # kns) c a) (cf_vars c a)" for a
    by (cases "cf_vars c a") auto
  moreover have "load_nodes dump conv call kns ?c =
      Inr (?c\<lparr>cf_vars := \<lambda>a. map_option (load_var dump conv call kns ?c a) (cf_vars ?c a)\<rparr>)"
    by (rule Cons.IH [OF inv]) (use Cons.prems(2,3) in auto)
  ultimately show ?case using one by simp
qed

lemma load_outcome:
  assumes "cfg_inv c" and "distinct (map fst (ListAllMember '''' root))"
  shows "\<exists>c'. LoadFromYaml dump conv call root c = Inr c' \<and> cfg_inv c' \<and> cf_datas c' = cf_datas c \<and>
    (\<forall>a v. cf_vars c a = Some v \<longrightarrow>
       (LookupBase (cv_name v) c \<noteq> Some a \<or> cv_name v = [] \<or>
         \<not> set (cv_name v) \<subseteq> lower_name_chars \<longrightarrow> cf_vars c' a = Some v) \<and>
       (\<forall>ks node. LookupBase (cv_name v) c = Some a \<and> cv_name v \<noteq> [] \<and> set (cv_name v) \<subseteq> lower_name_chars \<and>
         y_path root ks node \<and> cv_name v = key_at '''' ks \<longrightarrow>
         cf_vars c' a = Some (loaded_var dump conv call (Some node) v)) \<and>
       ((\<nexists>ks node. y_path root ks node \<and> cv_name v = key_at '''' ks) \<longrightarrow> cf_vars c' a = Some v))"
proof -
  let ?kns = "ListAllMember '''' root"
  let ?c = "c\<lparr>cf_vars := \<lambda>a. map_option (load_var dump conv call ?kns c a) (cf_vars c a)\<rparr>"
  have lower: "set k \<subseteq> lower_name_chars" if "(k, n) \<in> set ?kns" for k n
    using that unfolding ListAllMember_paths(1) by blast
  have load: "LoadFromYaml dump conv call root c = Inr ?c"
    unfolding LoadFromYaml_def by (rule load_nodes_eq [OF assms(1) lower assms(2)])
  have inv: "cfg_inv ?c"
    by (rule cfg_inv_map_vars [OF assms(1)]) (simp add: load_var_def)
  have some: "map_of ?kns (key_at '''' ks) = Some node"
    if "y_path root ks node" "set (key_at '''' ks) \<subseteq> lower_name_chars" for ks node
    using that assms(2) by (intro map_of_is_SomeI) (auto simp: ListAllMember_paths(1) simp del: ListAllMember.simps)
  have none: "map_of ?kns k = None"
    if "\<not> set k \<subseteq> lower_name_chars \<or> (\<nexists>ks node. y_path root ks node \<and> k = key_at '''' ks)" for k
  proof (cases "map_of ?kns k")
    case (Some n)
    then have "(k, n) \<in> set ?kns" by (rule map_of_SomeD)
    with that show ?thesis unfolding ListAllMember_paths(1) by blast
  qed
  show ?thesis
    using load inv some none by (intro exI [of _ ?c]) (auto simp: load_var_def simp del: ListAllMember.simps)
qed

text \<open>
  C33 (config_load_outcome). Loading a document without repeated names always returns. It sets every registered variable whose name is not empty, consists of
  lower-case letters, digits, dots and underscores, and occurs as a
  path of the document, to the converted text of that node (a scalar's own text, the emitted text of any other node), provided that the
  text converts and the listeners return; it changes no other variable (a variable whose name has an upper-case letter is never set), no
  listener and not the registry.
\<close>

theorem config_load_outcome:
  assumes "cfg_inv c" and "distinct (map fst (ListAllMember '''' root))"
  shows "\<exists>c'. LoadFromYaml dump conv call root c = Inr c' \<and> cfg_inv c' \<and> cf_datas c' = cf_datas c \<and>
    (\<forall>a v. cf_vars c a = Some v \<longrightarrow>
       (LookupBase (cv_name v) c \<noteq> Some a \<or> cv_name v = [] \<or>
         \<not> set (cv_name v) \<subseteq> lower_name_chars \<longrightarrow> cf_vars c' a = Some v) \<and>
       (\<forall>ks node. LookupBase (cv_name v) c = Some a \<and> cv_name v \<noteq> [] \<and> set (cv_name v) \<subseteq> lower_name_chars \<and>
         y_path root ks node \<and> cv_name v = key_at '''' ks \<longrightarrow>
         cf_vars c' a = Some (loaded_var dump conv call (Some node) v)) \<and>
       ((\<nexists>ks node. y_path root ks node \<and> cv_name v = key_at '''' ks) \<longrightarrow> cf_vars c' a = Some v))"
  by (rule load_outcome [OF assms])

text \<open>
  Theorem (vector_cast_roundtrip). If the emitted document parses to the tree it was made of, and each element converts to a text that parses to a
  node whose emitted text converts back, then casting a vector (or a list) to a string and back gives the same elements.
\<close>

theorem vector_cast_roundtrip:
  assumes "load (dump (y_list (map node xs))) = Some (y_list (map node xs))"
    and "\<And>x. x \<in> set xs \<Longrightarrow> \<exists>s. to x = Some s \<and> load s = Some (node x) \<and> conv (dump (node x)) = Some x"
  shows "\<exists>s. cast_from_vector load dump to xs = Inr s \<and> cast_to_vector load dump conv s = Inr xs \<and>
    cast_from_list load dump to xs = Inr s \<and> cast_to_list load dump conv s = Inr xs"
proof -
  have "rmap (\<lambda>i. rbind (opt_result ''bad_lexical_cast'' (to i)) (\<lambda>s. opt_result ''YAML::ParserException'' (load s))) xs =
      Inr (map node xs)"
    using assms(2) by (intro rmap_Inr) fastforce
  moreover have "rmap (\<lambda>i. opt_result ''bad_lexical_cast'' (conv (dump i))) (map node xs) = Inr xs"
  proof -
    have "rmap (\<lambda>i. opt_result ''bad_lexical_cast'' (conv (dump i))) (map node xs) =
        rmap (\<lambda>x. opt_result ''bad_lexical_cast'' (conv (dump (node x)))) xs"
      by (induction xs) simp_all
    also have "\<dots> = Inr (map (\<lambda>x. x) xs)" using assms(2) by (intro rmap_Inr) fastforce
    finally show ?thesis by simp
  qed
  ultimately show ?thesis
    using assms(1) unfolding cast_from_vector_def cast_to_vector_def cast_from_list_def cast_to_list_def
    by (auto simp: foldl_push_back)
qed

section \<open>Witnesses\<close>

text \<open>
  A registry with the variable \<open>system.port\<close>, and one named with a capital letter; the conversion counts characters. A document with a port below
  \<open>system\<close>.
\<close>

definition demo_config :: "(int, nat) config" where
  "demo_config =
     \<lparr>cf_vars = [1 \<mapsto> ConfigVar_new ''system.port'' ''i'' 0 '''', 2 \<mapsto> ConfigVar_new ''Port'' ''i'' 0 ''''],
      cf_datas = [(''system.port'', 1), (''Port'', 2)], cf_fun_id = (\<lambda>_. 0)\<rparr>"

definition demo_doc :: yaml where
  "demo_doc = Y_map [(''system'', Y_map [(''port'', Y_scalar ''9900'')]), (''Port'', Y_scalar ''80'')]"

definition demo_from :: "string \<Rightarrow> string \<Rightarrow> int option" where
  "demo_from type s = Some (int (length s))"

lemma demo_config_inv: "cfg_inv demo_config"
proof -
  have "set ''system.port'' \<subseteq> name_chars" "set ''Port'' \<subseteq> name_chars" by (simp_all add: name_chars_def)
  then show ?thesis
    by (auto simp: cfg_inv_def demo_config_def LookupBase_def ConfigVar_new_def split: if_splits)
qed

theorem config_set_value_witness:
  "ConfigVar_fromString (demo_from ''i'') (\<lambda>cb old new. cb \<noteq> 8) ''abc''
     ((ConfigVar_new ''x'' ''i'' 0 '''')\<lparr>cv_cbs := [(1, 7), (2, 8), (3 :: u64, 9 :: nat)]\<rparr>) =
   (False, [7, 8], (ConfigVar_new ''x'' ''i'' 0 '''')\<lparr>cv_cbs := [(1, 7), (2, 8), (3, 9)]\<rparr>)"
proof -
  have "demo_from ''i'' ''abc'' = Some 3" by (simp add: demo_from_def)
  from config_set_value [where conv = "demo_from ''i''", OF this, of "\<lambda>cb old new. cb \<noteq> 8"
      "(ConfigVar_new ''x'' ''i'' 0 '''')\<lparr>cv_cbs := [(1, 7), (2, 8), (3 :: u64, 9 :: nat)]\<rparr>" "''abc''"]
  show ?thesis by (simp add: ConfigVar_new_def Let_def)
qed

theorem config_load_outcome_witness:
  "\<exists>c'. LoadFromYaml (\<lambda>_. '''') demo_from (\<lambda>_ _ _. True) demo_doc demo_config = Inr c' \<and>
     map_option cv_val (cf_vars c' 1) = Some 4 \<and> map_option cv_val (cf_vars c' 2) = Some 0"
proof -
  have d: "distinct (map fst (ListAllMember '''' demo_doc))" by code_simp
  have p: "y_path demo_doc [''system'', ''port''] (Y_scalar ''9900'')" "key_at '''' [''system'', ''port''] = ''system.port''"
    by (auto simp: demo_doc_def y_path_Cons join_key_def)
  have v: "cf_vars demo_config 1 = Some (ConfigVar_new ''system.port'' ''i'' 0 '''')"
    "cf_vars demo_config 2 = Some (ConfigVar_new ''Port'' ''i'' 0 '''')"
    "LookupBase ''system.port'' demo_config = Some 1" "set ''system.port'' \<subseteq> lower_name_chars"
    "\<not> set ''Port'' \<subseteq> lower_name_chars"
    by (simp_all add: demo_config_def LookupBase_def lower_name_chars_def)
  obtain c' where c': "LoadFromYaml (\<lambda>_. '''') demo_from (\<lambda>_ _ _. True) demo_doc demo_config = Inr c'"
    "cf_vars c' 1 = Some (loaded_var (\<lambda>_. '''') demo_from (\<lambda>_ _ _. True) (Some (Y_scalar ''9900''))
       (ConfigVar_new ''system.port'' ''i'' 0 ''''))"
    "cf_vars c' 2 = Some (ConfigVar_new ''Port'' ''i'' 0 '''')"
    using config_load_outcome [OF demo_config_inv d, of "\<lambda>_. ''''" demo_from "\<lambda>_ _ _. True"] v p
    by (fastforce simp: ConfigVar_new_def)
  then show ?thesis
    by (auto simp: loaded_var_def node_text_def demo_from_def ConfigVar_new_def)
qed

theorem vector_cast_roundtrip_witness:
  "\<exists>s. cast_from_vector (\<lambda>s. if s = ''- a- b'' then Some (Y_seq [Y_scalar ''a'', Y_scalar ''b'']) else Some (Y_scalar s))
      (\<lambda>n. case n of Y_scalar s \<Rightarrow> s | _ \<Rightarrow> ''- a- b'') (\<lambda>c. Some [c]) ''ab'' = Inr s \<and>
    cast_to_vector (\<lambda>s. if s = ''- a- b'' then Some (Y_seq [Y_scalar ''a'', Y_scalar ''b'']) else Some (Y_scalar s))
      (\<lambda>n. case n of Y_scalar s \<Rightarrow> s | _ \<Rightarrow> ''- a- b'') (\<lambda>s. case s of [c] \<Rightarrow> Some c | _ \<Rightarrow> None) s = Inr ''ab''"
proof -
  let ?load = "\<lambda>s. if s = ''- a- b'' then Some (Y_seq [Y_scalar ''a'', Y_scalar ''b'']) else Some (Y_scalar s)"
  let ?dump = "\<lambda>n. case n of Y_scalar s \<Rightarrow> s | _ \<Rightarrow> ''- a- b''"
  from vector_cast_roundtrip [where load = ?load and dump = ?dump and node = "\<lambda>c. Y_scalar [c]" and xs = "''ab''"
      and to = "\<lambda>c. Some [c]" and conv = "\<lambda>s. case s of [c] \<Rightarrow> Some c | _ \<Rightarrow> None"]
  show ?thesis by (auto simp: y_list_def)
qed

end
