(* ===== verification/Log_Format.thy ===== *)
theory Log_Format
  imports Prelude
begin

text \<open>
  Log levels, log events and the formatter of src/sylar/log.h and src/sylar/log.cc.

  \<open>LogFormatter::init\<close> is translated with its indices into \<open>m_pattern\<close>. A level is an \<open>int\<close> because the
  configuration listener stores the value 100, which is not an enumerator. \<open>strftime\<close> on the local time is a
  parameter of the formatting functions; it answers \<open>None\<close> when the text does not fit into the buffer of 64
  characters, whose contents are then unspecified.
\<close>

section \<open>Levels\<close>

type_synonym log_level = int

abbreviation (input) LV_UNKNOWN :: log_level where "LV_UNKNOWN \<equiv> 0"
abbreviation (input) LV_DEBUG :: log_level where "LV_DEBUG \<equiv> 1"
abbreviation (input) LV_INFO :: log_level where "LV_INFO \<equiv> 2"
abbreviation (input) LV_WARN :: log_level where "LV_WARN \<equiv> 3"
abbreviation (input) LV_ERROR :: log_level where "LV_ERROR \<equiv> 4"
abbreviation (input) LV_FATAL :: log_level where "LV_FATAL \<equiv> 5"

definition LogLevel_toString :: "log_level \<Rightarrow> string" where
  "LogLevel_toString level =
     (if level = LV_DEBUG then ''DEBUG''
      else if level = LV_INFO then ''INFO''
      else if level = LV_WARN then ''WARN''
      else if level = LV_ERROR then ''ERROR''
      else if level = LV_FATAL then ''FATAL''
      else ''UNKNOWN'')"

definition LogLevel_fromString :: "string \<Rightarrow> log_level" where
  "LogLevel_fromString str =
     (if str = ''debug'' then LV_DEBUG
      else if str = ''info'' then LV_INFO
      else if str = ''warn'' then LV_WARN
      else if str = ''error'' then LV_ERROR
      else if str = ''fatal'' then LV_FATAL
      else if str = ''DEBUG'' then LV_DEBUG
      else if str = ''INFO'' then LV_INFO
      else if str = ''WARN'' then LV_WARN
      else if str = ''ERROR'' then LV_ERROR
      else if str = ''FATAL'' then LV_FATAL
      else LV_UNKNOWN)"

section \<open>Events and format items\<close>

record log_event =
  m_file :: string
  m_line :: int
  m_elapse :: u32
  m_threadId :: u32
  m_threadName :: string
  m_fiberId :: u32
  m_time :: u64
  m_ss :: string
  m_logger :: nat
  m_level :: log_level

definition LogEvent_new ::
    "nat \<Rightarrow> log_level \<Rightarrow> string \<Rightarrow> int \<Rightarrow> u32 \<Rightarrow> u32 \<Rightarrow> string \<Rightarrow> u32 \<Rightarrow> u64 \<Rightarrow> log_event" where
  "LogEvent_new logger level file line elapse threadId threadName fiberId time =
     \<lparr>m_file = file, m_line = line, m_elapse = elapse, m_threadId = threadId, m_threadName = threadName, m_fiberId = fiberId,
      m_time = time, m_ss = [], m_logger = logger, m_level = level\<rparr>"

text \<open>\<open>LogEvent::format\<close>; \<open>buf\<close> is what \<open>vasprintf\<close> gives for the format and its arguments, \<open>None\<close> when it fails.\<close>

definition LogEvent_format :: "string option \<Rightarrow> log_event \<Rightarrow> log_event" where
  "LogEvent_format buf ev = (case buf of None \<Rightarrow> ev | Some s \<Rightarrow> ev\<lparr>m_ss := m_ss ev @ s\<rparr>)"

datatype format_item =
    MessageFormatItem
  | NormalStringFormatItem string
  | LevelFormatItem
  | FilenameFormatItem
  | NameFormatItem
  | NewLineFormatItem
  | LineFormatItem
  | ElapseFormatItem
  | ThreadIdFormatItem
  | ThreadNameFormatItem
  | FiberIdFormatItem
  | TabFormatItem
  | DateTimeFormatItem string

text \<open>Decimal output of the integers.\<close>

fun show_nat :: "nat \<Rightarrow> string" where
  "show_nat n = (if n < 10 then [char_of (48 + n)] else show_nat (n div 10) @ [char_of (48 + n mod 10)])"

definition show_int :: "int \<Rightarrow> string" where
  "show_int i = (if i < 0 then CHR ''-'' # show_nat (nat (- i)) else show_nat (nat i))"

text \<open>What an item appends to the stream; \<open>name\<close> is \<open>event->getLogger()->getName()\<close>.\<close>

type_synonym date_fun = "string \<Rightarrow> u64 \<Rightarrow> string option"

fun FormatItem_format :: "date_fun \<Rightarrow> string \<Rightarrow> log_level \<Rightarrow> log_event \<Rightarrow> format_item \<Rightarrow> string result" where
  "FormatItem_format date name level ev MessageFormatItem = Inr (m_ss ev)"
| "FormatItem_format date name level ev (NormalStringFormatItem s) = Inr s"
| "FormatItem_format date name level ev LevelFormatItem = Inr (LogLevel_toString level)"
| "FormatItem_format date name level ev FilenameFormatItem = Inr (m_file ev)"
| "FormatItem_format date name level ev NameFormatItem = Inr name"
| "FormatItem_format date name level ev NewLineFormatItem = Inr [CHR 0x0A]"
| "FormatItem_format date name level ev LineFormatItem = Inr (show_int (m_line ev))"
| "FormatItem_format date name level ev ElapseFormatItem = Inr (show_nat (unat (m_elapse ev)))"
| "FormatItem_format date name level ev ThreadIdFormatItem = Inr (show_nat (unat (m_threadId ev)))"
| "FormatItem_format date name level ev ThreadNameFormatItem = Inr (m_threadName ev)"
| "FormatItem_format date name level ev FiberIdFormatItem = Inr (show_nat (unat (m_fiberId ev)))"
| "FormatItem_format date name level ev TabFormatItem = Inr [CHR 0x09]"
| "FormatItem_format date name level ev (DateTimeFormatItem f) =
     (case date f (m_time ev) of Some s \<Rightarrow> Inr s | None \<Rightarrow> Inl (Undefined ''buf after strftime returned 0''))"

section \<open>The pattern parser\<close>

definition isalpha :: "char \<Rightarrow> bool" where
  "isalpha c \<longleftrightarrow> (let n = of_char c :: nat in 65 \<le> n \<and> n \<le> 90 \<or> 97 \<le> n \<and> n \<le> 122)"

definition substr :: "string \<Rightarrow> nat \<Rightarrow> nat \<Rightarrow> string" where
  "substr s pos n = take n (drop pos s)"

text \<open>
  The inner loop of \<open>init\<close>: \<open>n\<close>, \<open>fmt_status\<close>, \<open>fmt_begin\<close>, \<open>str\<close> and \<open>fmt\<close> are its variables; it returns \<open>n\<close>, \<open>fmt_status\<close>, \<open>str\<close>
  and \<open>fmt\<close>.
\<close>

function fmt_scan :: "string \<Rightarrow> nat \<Rightarrow> nat \<Rightarrow> int \<Rightarrow> nat \<Rightarrow> string \<Rightarrow> string \<Rightarrow> nat \<times> int \<times> string \<times> string" where
  "fmt_scan p i n st fmt_begin str fmt =
     (if n < length p then
        if \<not> isalpha (p ! n) \<and> p ! n \<noteq> CHR ''{'' \<and> p ! n \<noteq> CHR ''}'' then (n, st, str, fmt)
        else if st = 0 \<and> p ! n = CHR ''{'' then fmt_scan p i (n + 1) 1 n (substr p (i + 1) (n - i - 1)) fmt
        else if st = 1 \<and> p ! n = CHR ''}'' then (n, 2, str, substr p (fmt_begin + 1) (n - fmt_begin - 1))
        else fmt_scan p i (n + 1) st fmt_begin str fmt
      else (n, st, str, fmt))"
  by pat_completeness auto
termination by (relation "measure (\<lambda>(p, i, n, _). length p - n)") auto

declare fmt_scan.simps [simp del]

lemma fmt_scan_ge: "fmt_scan p i n st b str fmt = (n', r) \<Longrightarrow> n \<le> n'"
  by (induction p i n st b str fmt rule: fmt_scan.induct)
    (subst (asm) (3) fmt_scan.simps, auto split: if_splits)

type_synonym pat_entry = "string \<times> string \<times> int"

definition flush_text :: "string \<Rightarrow> pat_entry list" where
  "flush_text nstr = (if nstr = [] then [] else [(nstr, [], 0)])"

text \<open>The outer loop: \<open>i\<close>, \<open>nstr\<close>, \<open>vec\<close> and \<open>m_isError\<close>.\<close>

function init_loop :: "string \<Rightarrow> nat \<Rightarrow> string \<Rightarrow> pat_entry list \<Rightarrow> bool \<Rightarrow> pat_entry list \<times> bool" where
  "init_loop p i nstr vec err =
     (if i < length p then
        if p ! i \<noteq> CHR ''%'' then init_loop p (i + 1) (nstr @ [p ! i]) vec err
        else if i + 1 < length p \<and> p ! (i + 1) = CHR ''%'' then init_loop p (i + 1) (nstr @ ''%'') vec err
        else
          (case fmt_scan p i (i + 1) 0 0 [] [] of
             (n, st, str, fmt) \<Rightarrow>
               if st = 0 then
                 init_loop p (n - 1 + 1) [] (vec @ flush_text nstr @ [(substr p (i + 1) (n - i - 1), fmt, 1)]) err
               else if st = 1 then
                 init_loop p (i + 1) nstr (vec @ [(''<<pattern_error>>'', fmt, 0)]) True
               else if st = 2 then
                 init_loop p (n + 1) [] (vec @ flush_text nstr @ [(str, fmt, 1)]) err
               else init_loop p (i + 1) nstr vec err)
      else (vec @ flush_text nstr, err))"
  by pat_completeness auto
termination
  by (relation "measure (\<lambda>(p, i, _). length p - i)") (auto dest!: fmt_scan_ge [OF sym])

declare init_loop.simps [simp del]

definition s_format_items :: "string \<Rightarrow> (string \<Rightarrow> format_item) option" where
  "s_format_items = map_of
     [(''m'', \<lambda>_. MessageFormatItem), (''p'', \<lambda>_. LevelFormatItem), (''r'', \<lambda>_. ElapseFormatItem),
      (''c'', \<lambda>_. NameFormatItem), (''t'', \<lambda>_. ThreadIdFormatItem), (''n'', \<lambda>_. NewLineFormatItem),
      (''F'', \<lambda>_. FiberIdFormatItem), (''T'', \<lambda>_. TabFormatItem),
      (''d'', \<lambda>fmt. DateTimeFormatItem (if fmt = [] then ''%Y-%m-%d %H:%M:%S'' else fmt)),
      (''f'', \<lambda>_. FilenameFormatItem), (''l'', \<lambda>_. LineFormatItem), (''N'', \<lambda>_. ThreadNameFormatItem)]"

text \<open>The last loop of \<open>init\<close>: one item per entry, and whether the entry is an error.\<close>

definition entry_item :: "pat_entry \<Rightarrow> format_item \<times> bool" where
  "entry_item = (\<lambda>(str, fmt, kind).
     if kind = 0 then (NormalStringFormatItem str, False)
     else (case s_format_items str of
             None \<Rightarrow> (MessageFormatItem, True)
           | Some mk \<Rightarrow> (mk fmt, False)))"

record log_formatter =
  m_pattern :: string
  m_items :: "format_item list"
  m_isError :: bool

definition LogFormatter_new :: "string \<Rightarrow> log_formatter" where
  "LogFormatter_new pattern =
     (case init_loop pattern 0 [] [] False of
        (vec, err) \<Rightarrow>
          \<lparr>m_pattern = pattern, m_items = map (fst \<circ> entry_item) vec,
           m_isError = (err \<or> list_ex (snd \<circ> entry_item) vec)\<rparr>)"

text \<open>\<open>LogFormatter::format\<close>: the text that is appended to the stream, item by item.\<close>

fun format_items :: "date_fun \<Rightarrow> string \<Rightarrow> log_level \<Rightarrow> log_event \<Rightarrow> format_item list \<Rightarrow> string result" where
  "format_items date name level ev [] = Inr []"
| "format_items date name level ev (i # is) =
     rbind (FormatItem_format date name level ev i) (\<lambda>s.
     rbind (format_items date name level ev is) (\<lambda>t. Inr (s @ t)))"

definition LogFormatter_format :: "date_fun \<Rightarrow> string \<Rightarrow> log_formatter \<Rightarrow> log_level \<Rightarrow> log_event \<Rightarrow> string result" where
  "LogFormatter_format date name f level ev = format_items date name level ev (m_items f)"

section \<open>A reference parser\<close>

text \<open>
  The language of patterns by recursion on the text: after a percent sign comes a name (letters and closing
  braces), and after that possibly a format in braces (letters and opening braces). A second percent
  sign is text, but does not take part in an escape: it starts a directive of its own.
\<close>

definition name_char :: "char \<Rightarrow> bool" where
  "name_char c \<longleftrightarrow> isalpha c \<or> c = CHR ''}''"

definition fmt_char :: "char \<Rightarrow> bool" where
  "fmt_char c \<longleftrightarrow> isalpha c \<or> c = CHR ''{''"

definition starts_with :: "char \<Rightarrow> string \<Rightarrow> bool" where
  "starts_with c s \<longleftrightarrow> s \<noteq> [] \<and> hd s = c"

definition emit :: "pat_entry list \<Rightarrow> bool \<Rightarrow> pat_entry list \<times> bool \<Rightarrow> pat_entry list \<times> bool" where
  "emit es err r = (es @ fst r, err \<or> snd r)"

lemma length_tl_dropWhile: "length (dropWhile P (tl (dropWhile Q cs))) \<le> length cs"
  by (rule order_trans [OF length_dropWhile_le], simp) (meson diff_le_self length_dropWhile_le order_trans)

function ref_parse :: "string \<Rightarrow> string \<Rightarrow> pat_entry list \<times> bool" where
  "ref_parse nstr [] = (flush_text nstr, False)"
| "ref_parse nstr (c # cs) =
     (if c \<noteq> CHR ''%'' then ref_parse (nstr @ [c]) cs
      else if starts_with (CHR ''%'') cs then ref_parse (nstr @ ''%'') cs
      else
        let name = takeWhile name_char cs; r = dropWhile name_char cs
        in if starts_with (CHR ''{'') r then
             let fmt = takeWhile fmt_char (tl r); r2 = dropWhile fmt_char (tl r)
             in if starts_with (CHR ''}'') r2
                then emit (flush_text nstr @ [(name, fmt, 1)]) False (ref_parse [] (tl r2))
                else emit [(''<<pattern_error>>'', [], 0)] True (ref_parse nstr cs)
           else emit (flush_text nstr @ [(name, [], 1)]) False (ref_parse [] r))"
  by pat_completeness auto
termination
proof (relation "measure (length \<circ> snd)", goal_cases)
  case (4 nstr c cs name r fmt r2)
  have "length (tl r2) \<le> length r2" by simp
  then show ?case using 4 length_tl_dropWhile [of fmt_char name_char cs] by simp
qed (auto simp: length_dropWhile_le le_imp_less_Suc)

declare ref_parse.simps [simp del]

lemma emit_simps [simp]: "emit es e (emit es' e' r) = emit (es @ es') (e \<or> e') r" "emit [] False r = r"
  by (simp_all add: emit_def)

lemma isalpha_braces [simp]: "\<not> isalpha (CHR ''{'')" "\<not> isalpha (CHR ''}'')" "\<not> isalpha (CHR ''%'')"
  by (simp_all add: isalpha_def)

lemma fmt_scan_format:
  "fmt_scan p i n 1 b str fmt =
     (let n' = n + length (takeWhile fmt_char (drop n p))
      in if starts_with (CHR ''}'') (dropWhile fmt_char (drop n p))
         then (n', 2, str, substr p (b + 1) (n' - b - 1)) else (n', 1, str, fmt))"
proof (induction "length p - n" arbitrary: n)
  case 0
  then show ?case by (simp add: fmt_scan.simps starts_with_def)
next
  case (Suc k)
  then have n: "n < length p" "drop n p = p ! n # drop (Suc n) p"
    by (simp_all add: Cons_nth_drop_Suc)
  with Suc(1) [of "Suc n"] Suc(2) show ?case
    by (subst fmt_scan.simps) (auto simp: fmt_char_def starts_with_def Let_def)
qed

lemma fmt_scan_name:
  "fmt_scan p i n 0 b str fmt =
     (let n' = n + length (takeWhile name_char (drop n p))
      in if starts_with (CHR ''{'') (dropWhile name_char (drop n p))
         then fmt_scan p i (n' + 1) 1 n' (substr p (i + 1) (n' - i - 1)) fmt else (n', 0, str, fmt))"
proof (induction "length p - n" arbitrary: n)
  case 0
  then show ?case by (simp add: fmt_scan.simps starts_with_def)
next
  case (Suc k)
  then have n: "n < length p" "drop n p = p ! n # drop (Suc n) p"
    by (simp_all add: Cons_nth_drop_Suc)
  with Suc(1) [of "Suc n"] Suc(2) show ?case
    by (subst fmt_scan.simps) (auto simp: name_char_def starts_with_def Let_def)
qed

lemma drop_takeWhile_at: "drop (n + length (takeWhile P (drop n p))) p = dropWhile P (drop n p)"
  by (metis add.commute dropWhile_eq_drop drop_drop)

lemma substr_takeWhile: "substr p n (length (takeWhile P (drop n p))) = takeWhile P (drop n p)"
  unfolding substr_def by (metis takeWhile_eq_take)

lemma drop_Suc_tl: "drop (Suc n) p = tl (drop n p)"
  by (simp add: drop_Suc tl_drop)

text \<open>The directive behind the percent sign at \<open>i\<close>, as the inner loop leaves it.\<close>

lemma fmt_scan_directive:
  assumes cs: "cs = drop (Suc i) p" and name: "name = takeWhile name_char cs" and r: "r = dropWhile name_char cs"
    and fmt: "fmt = takeWhile fmt_char (tl r)" and r2: "r2 = dropWhile fmt_char (tl r)"
  shows "\<exists>n. fmt_scan p i (Suc i) 0 0 [] [] =
    (if starts_with (CHR ''{'') r then
       if starts_with (CHR ''}'') r2 then (n, 2, name, fmt) else (n, 1, name, [])
     else (n, 0, [], [])) \<and> i < n \<and>
    (\<not> starts_with (CHR ''{'') r \<longrightarrow> substr p (Suc i) (n - i - 1) = name \<and> drop n p = r) \<and>
    (starts_with (CHR ''{'') r \<and> starts_with (CHR ''}'') r2 \<longrightarrow> drop (Suc n) p = tl r2)"
proof -
  let ?n = "Suc i + length name"
  have n: "drop ?n p = r" "substr p (Suc i) (?n - i - 1) = name"
    using cs name r drop_takeWhile_at [of "Suc i" name_char p] substr_takeWhile [of p "Suc i" name_char] by simp_all
  let ?m = "Suc ?n + length fmt"
  have tl: "drop (Suc ?n) p = tl r" using n(1) drop_Suc_tl [of ?n p] by simp
  have m: "drop ?m p = r2" "substr p (Suc ?n) (?m - ?n - 1) = fmt"
    using drop_takeWhile_at [of "Suc ?n" fmt_char p] substr_takeWhile [of p "Suc ?n" fmt_char] fmt r2
    by (simp_all only: tl) simp
  have scan: "fmt_scan p i (Suc i) 0 0 [] [] =
    (if starts_with (CHR ''{'') r
     then fmt_scan p i (Suc ?n) 1 ?n name [] else (?n, 0, [], []))"
    using n(2) cs name r by (simp add: fmt_scan_name [of p i "Suc i"] Let_def)
  have "fmt_scan p i (Suc ?n) 1 ?n name [] =
    (if starts_with (CHR ''}'') r2 then (?m, 2, name, fmt) else (?m, 1, name, []))"
    unfolding fmt_scan_format tl fmt [symmetric] r2 [symmetric] Let_def using m(2) by simp
  with scan n m drop_Suc_tl [of ?m p] show ?thesis
    by (intro exI [of _ "if starts_with (CHR ''{'') r then ?m else ?n"]) simp
qed

lemma init_loop_eq: "init_loop p i nstr vec err = emit vec err (ref_parse nstr (drop i p))"
proof (induction "length p - i" arbitrary: i nstr vec err rule: less_induct)
  case less
  show ?case
  proof (cases "i < length p")
    case False
    then show ?thesis by (simp add: init_loop.simps ref_parse.simps emit_def)
  next
    case True
    let ?cs = "drop (Suc i) p"
    let ?r = "dropWhile name_char ?cs"
    let ?r2 = "dropWhile fmt_char (tl ?r)"
    have d: "drop i p = p ! i # ?cs" using True by (simp add: Cons_nth_drop_Suc)
    have pct: "starts_with (CHR ''%'') ?cs \<longleftrightarrow> Suc i < length p \<and> p ! Suc i = CHR ''%''"
      by (auto simp: starts_with_def hd_drop_conv_nth)
    have IH: "init_loop p j ns v e = emit v e (ref_parse ns (drop j p))" if "i < j" for j ns v e
      using less that True by simp
    obtain n where n: "fmt_scan p i (Suc i) 0 0 [] [] =
        (if starts_with (CHR ''{'') ?r then
           if starts_with (CHR ''}'') ?r2 then (n, 2, takeWhile name_char ?cs, takeWhile fmt_char (tl ?r))
           else (n, 1, takeWhile name_char ?cs, [])
         else (n, 0, [], []))" "i < n"
      "\<not> starts_with (CHR ''{'') ?r \<longrightarrow> substr p (Suc i) (n - i - 1) = takeWhile name_char ?cs \<and> drop n p = ?r"
      "starts_with (CHR ''{'') ?r \<and> starts_with (CHR ''}'') ?r2 \<longrightarrow> drop (Suc n) p = tl ?r2"
      using fmt_scan_directive [where i = i and p = p, OF refl refl refl refl refl] by blast
    show ?thesis
      unfolding d ref_parse.simps(2) using n(2-) pct
      by (subst init_loop.simps) (simp add: True IH n(1) Let_def del: drop_Suc)
  qed
qed

section \<open>Patterns as segments\<close>

text \<open>A pattern that is meant: text, directives \<open>%name\<close> and directives \<open>%name{format}\<close>.\<close>

datatype segment = Seg_text string | Seg_dir string | Seg_fmt string string

fun show_segment :: "segment \<Rightarrow> string" where
  "show_segment (Seg_text s) = s"
| "show_segment (Seg_dir name) = CHR ''%'' # name"
| "show_segment (Seg_fmt name fmt) = CHR ''%'' # name @ CHR ''{'' # fmt @ ''}''"

definition show_segments :: "segment list \<Rightarrow> string" where
  "show_segments segs = concat (map show_segment segs)"

text \<open>
  The segments can be told apart: texts are nonempty, free of percent signs and not adjacent, names and
  formats consist of letters, and the text behind a bare directive does not continue its name.
\<close>

fun segment_ok :: "segment \<Rightarrow> bool" where
  "segment_ok (Seg_text s) = (s \<noteq> [] \<and> CHR ''%'' \<notin> set s)"
| "segment_ok (Seg_dir name) = (name \<noteq> [] \<and> list_all isalpha name)"
| "segment_ok (Seg_fmt name fmt) = (name \<noteq> [] \<and> list_all isalpha name \<and> list_all isalpha fmt)"

fun segments_ok :: "segment list \<Rightarrow> bool" where
  "segments_ok [] = True"
| "segments_ok [x] = segment_ok x"
| "segments_ok (x # y # xs) =
     (segment_ok x \<and> segments_ok (y # xs) \<and>
      (case (x, y) of
         (Seg_text _, Seg_text _) \<Rightarrow> False
       | (Seg_dir _, Seg_text t) \<Rightarrow> \<not> name_char (hd t) \<and> hd t \<noteq> CHR ''{''
       | _ \<Rightarrow> True))"

fun segment_entry :: "segment \<Rightarrow> pat_entry" where
  "segment_entry (Seg_text s) = (s, [], 0)"
| "segment_entry (Seg_dir name) = (name, [], 1)"
| "segment_entry (Seg_fmt name fmt) = (name, fmt, 1)"

lemma isalpha_name_char: "list_all isalpha s \<Longrightarrow> takeWhile name_char (s @ r) = s @ takeWhile name_char r"
    "list_all isalpha s \<Longrightarrow> dropWhile name_char (s @ r) = dropWhile name_char r"
    "list_all isalpha s \<Longrightarrow> takeWhile fmt_char (s @ r) = s @ takeWhile fmt_char r"
    "list_all isalpha s \<Longrightarrow> dropWhile fmt_char (s @ r) = dropWhile fmt_char r"
  by (induction s) (auto simp: name_char_def fmt_char_def)

lemma ref_parse_text: "CHR ''%'' \<notin> set s \<Longrightarrow> ref_parse nstr (s @ r) = ref_parse (nstr @ s) r"
  by (induction s arbitrary: nstr) (auto simp: ref_parse.simps)

lemma not_starts_pct: "name \<noteq> [] \<Longrightarrow> list_all isalpha name \<Longrightarrow> \<not> starts_with (CHR ''%'') (name @ r)"
  by (cases name) (auto simp: starts_with_def)

lemma ref_parse_dir:
  assumes "name \<noteq> []" "list_all isalpha name" "takeWhile name_char r = []" "\<not> starts_with (CHR ''{'') r"
  shows "ref_parse nstr (CHR ''%'' # name @ r) = emit (flush_text nstr @ [(name, [], 1)]) False (ref_parse [] r)"
proof -
  have "dropWhile name_char r = r" using assms(3) by (metis append_Nil takeWhile_dropWhile_id)
  then show ?thesis
    using assms not_starts_pct [OF assms(1,2)] by (simp add: ref_parse.simps isalpha_name_char)
qed

lemma ref_parse_fmt:
  assumes "name \<noteq> []" "list_all isalpha name" "list_all isalpha fmt"
  shows "ref_parse nstr (CHR ''%'' # name @ CHR ''{'' # fmt @ CHR ''}'' # r) =
    emit (flush_text nstr @ [(name, fmt, 1)]) False (ref_parse [] r)"
  using assms not_starts_pct [OF assms(1,2)]
  by (simp add: ref_parse.simps isalpha_name_char name_char_def fmt_char_def starts_with_def)

lemma segments_ok_tail: "segments_ok (x # xs) \<Longrightarrow> segment_ok x \<and> segments_ok xs"
  by (cases xs) auto

lemma after_dir:
  assumes "segments_ok (Seg_dir name # xs)"
  shows "takeWhile name_char (show_segments xs) = []" "\<not> starts_with (CHR ''{'') (show_segments xs)"
proof -
  have "\<not> name_char (CHR ''%'')" by (simp add: name_char_def)
  moreover have "\<exists>c cs. t = c # cs" if "xs = Seg_text t # ys" for t ys
    using assms that by (cases t) (auto dest: segments_ok_tail)
  ultimately show "takeWhile name_char (show_segments xs) = []" "\<not> starts_with (CHR ''{'') (show_segments xs)"
    using assms by (cases xs; cases "hd xs"; fastforce simp: show_segments_def starts_with_def)+
qed

lemma ref_parse_flush:
  assumes "segments_ok xs" and "\<And>t ys. xs \<noteq> Seg_text t # ys"
  shows "ref_parse t (show_segments xs) = emit (flush_text t) False (ref_parse [] (show_segments xs))"
proof (cases xs)
  case Nil
  then show ?thesis by (simp add: show_segments_def ref_parse.simps emit_def flush_text_def)
next
  case (Cons y ys)
  note ok = segments_ok_tail [OF assms(1) [unfolded Cons]]
  have s: "show_segments xs = show_segment y @ show_segments ys" by (simp add: show_segments_def Cons)
  show ?thesis
  proof (cases y)
    case (Seg_text u)
    with assms(2) [of u ys] Cons show ?thesis by simp
  next
    case (Seg_dir name)
    with ref_parse_dir [OF _ _ after_dir [of name ys], of name] assms(1) ok s Cons show ?thesis
      by (simp add: flush_text_def)
  next
    case (Seg_fmt name fmt)
    with ref_parse_fmt [of name fmt] ok s show ?thesis by (simp add: flush_text_def)
  qed
qed

lemma ref_parse_segments:
  "segments_ok segs \<Longrightarrow> ref_parse [] (show_segments segs) = (map segment_entry segs, False)"
proof (induction segs)
  case Nil
  then show ?case by (simp add: show_segments_def ref_parse.simps flush_text_def)
next
  case (Cons x xs)
  note ok = segments_ok_tail [OF Cons.prems]
  with Cons.IH have IH: "ref_parse [] (show_segments xs) = (map segment_entry xs, False)" by simp
  have s: "show_segments (x # xs) = show_segment x @ show_segments xs" by (simp add: show_segments_def)
  show ?case
  proof (cases x)
    case (Seg_dir name)
    with ref_parse_dir [OF _ _ after_dir [of name xs], of name "[]"] Cons.prems ok IH s show ?thesis
      by (simp add: emit_def flush_text_def)
  next
    case (Seg_fmt name fmt)
    with ref_parse_fmt [of name fmt "[]"] ok IH s show ?thesis by (simp add: emit_def flush_text_def)
  next
    case (Seg_text t)
    have "ref_parse t (show_segments xs) = emit (flush_text t) False (ref_parse [] (show_segments xs))"
      using ref_parse_flush [of xs t] ok Cons.prems Seg_text by (cases xs; cases "hd xs"; auto)
    with Seg_text ok IH s ref_parse_text [of t "[]"] show ?thesis by (auto simp: emit_def flush_text_def)
  qed
qed

section \<open>Properties\<close>

lemma LogFormatter_new_eq:
  "LogFormatter_new p =
     \<lparr>m_pattern = p, m_items = map (fst \<circ> entry_item) (fst (ref_parse [] p)),
      m_isError = (snd (ref_parse [] p) \<or> (\<exists>e \<in> set (fst (ref_parse [] p)). snd (entry_item e)))\<rparr>"
  by (cases "ref_parse [] p") (simp add: LogFormatter_new_def init_loop_eq emit_def list_ex_iff)

text \<open>
  C30 (formatter_init_reference). The index-driven loops of \<open>LogFormatter::init\<close> compute the entries of the reference
  parser for every pattern, also for malformed ones, and always end; the formatter is marked as erroneous exactly when an
  opened format is not closed or a directive has no known name.
\<close>

theorem formatter_init_reference:
  "LogFormatter_new p =
     \<lparr>m_pattern = p, m_items = map (fst \<circ> entry_item) (fst (ref_parse [] p)),
      m_isError = (snd (ref_parse [] p) \<or> (\<exists>e \<in> set (fst (ref_parse [] p)). snd (entry_item e)))\<rparr>"
  by (rule LogFormatter_new_eq)

text \<open>The item a segment stands for, if its name is known.\<close>

fun segment_item :: "segment \<Rightarrow> format_item option" where
  "segment_item (Seg_text s) = Some (NormalStringFormatItem s)"
| "segment_item (Seg_dir name) = map_option (\<lambda>mk. mk []) (s_format_items name)"
| "segment_item (Seg_fmt name fmt) = map_option (\<lambda>mk. mk fmt) (s_format_items name)"

lemma entry_item_segment:
  "snd (entry_item (segment_entry x)) \<longleftrightarrow> segment_item x = None"
  "segment_item x = Some it \<Longrightarrow> fst (entry_item (segment_entry x)) = it"
  by (cases x; auto simp: entry_item_def split: option.splits)+

lemma entry_items_segments:
  "map segment_item segs = map Some its \<Longrightarrow> map (\<lambda>x. fst (entry_item (segment_entry x))) segs = its"
  by (induction segs arbitrary: its) (auto simp: entry_item_segment)

lemma format_items_concat:
  "list_all2 (\<lambda>i s. FormatItem_format date name level ev i = Inr s) is ts \<Longrightarrow>
   format_items date name level ev is = Inr (concat ts)"
  by (induction rule: list_all2_induct) simp_all


text \<open>The pattern every \<open>Logger\<close> starts with, and an event.\<close>

definition default_pattern :: string where
  "default_pattern = ''%d%T%t%T%N%T%F%T[%p]%T[%c]%T<%f:%l>%T%m%n''"

definition default_segments :: "segment list" where
  "default_segments =
     [Seg_dir ''d'', Seg_dir ''T'', Seg_dir ''t'', Seg_dir ''T'', Seg_dir ''N'', Seg_dir ''T'', Seg_dir ''F'',
      Seg_dir ''T'', Seg_text ''['', Seg_dir ''p'', Seg_text '']'', Seg_dir ''T'', Seg_text ''['', Seg_dir ''c'',
      Seg_text '']'', Seg_dir ''T'', Seg_text ''<'', Seg_dir ''f'', Seg_text '':'', Seg_dir ''l'', Seg_text ''>'',
      Seg_dir ''T'', Seg_dir ''m'', Seg_dir ''n'']"

definition demo_event :: log_event where
  "demo_event = \<lparr>m_file = ''a.cc'', m_line = 42, m_elapse = 0, m_threadId = 7, m_threadName = ''main'', m_fiberId = 3,
     m_time = 0, m_ss = ''hello'', m_logger = 0, m_level = LV_INFO\<rparr>"

lemma default_segments_ok: "segments_ok default_segments" "show_segments default_segments = default_pattern"
  by code_simp+


text \<open>The escape announced by the comment of \<open>init\<close> is not one: the second percent sign is a directive again.\<close>

lemma percent_escape_is_error:
  "m_isError (LogFormatter_new ''100%% done'')"
  by code_simp

lemma date_format_is_error:
  "m_isError (LogFormatter_new ''%d{%H:%M}'')"
  by code_simp

lemma level_roundtrip:
  "LogLevel_fromString (LogLevel_toString l) = (if l \<in> {LV_DEBUG .. LV_FATAL} then l else LV_UNKNOWN)"
proof -
  have "l \<in> {1 .. 5} \<longleftrightarrow> l = 1 \<or> l = 2 \<or> l = 3 \<or> l = 4 \<or> l = 5" by auto
  then show ?thesis by (auto simp: LogLevel_toString_def LogLevel_fromString_def)
qed

end
