(* ===== verification/Logger.thy ===== *)
theory Logger
  imports Log_Format Yaml "HOL-Library.AList"
begin

text \<open>
  Loggers, appenders and the logger manager of src/sylar/log.h and src/sylar/log.cc.

  Loggers and appenders are shared objects, held by address in \<open>log_world\<close>; \<open>lw_next\<close> is the next address an allocation returns. \<open>lw_names\<close> is
  \<open>LoggerManager::m_loggers\<close>, its list order standing for the iteration order of the hash table. \<open>lw_console\<close> is what the appenders write to
  \<open>std::cout\<close> (the diagnostics the code prints there besides are not part of it) and \<open>lw_files\<close> what the files contain once the streams are
  flushed. \<open>lw_can_open\<close> says which files can be opened for writing. A file stream is good (\<open>ap_ok\<close>) or failed, and open or
  not.
\<close>

datatype appender_kind = StdoutLogAppender | FileLogAppender string

record log_appender =
  ap_kind :: appender_kind
  ap_level :: log_level
  ap_formatter :: "log_formatter option"
  ap_ok :: bool
  ap_open :: bool

record logger =
  lg_name :: string
  lg_level :: log_level
  lg_appenders :: "nat list"
  lg_formatter :: "log_formatter option"
  lg_root :: "nat option"

record log_world =
  lw_loggers :: "nat \<Rightarrow> logger option"
  lw_appenders :: "nat \<Rightarrow> log_appender option"
  lw_next :: nat
  lw_names :: "(string \<times> nat) list"
  lw_root :: nat
  lw_global :: log_level
  lw_console :: string
  lw_files :: "string \<Rightarrow> string option"
  lw_can_open :: "string \<Rightarrow> bool"

section \<open>Objects\<close>

definition Appender_new :: "appender_kind \<Rightarrow> log_appender" where
  "Appender_new k = \<lparr>ap_kind = k, ap_level = LV_DEBUG, ap_formatter = None, ap_ok = True, ap_open = False\<rparr>"

definition Logger_new :: "string \<Rightarrow> logger" where
  "Logger_new name =
     \<lparr>lg_name = name, lg_level = LV_DEBUG, lg_appenders = [],
      lg_formatter = Some (LogFormatter_new default_pattern), lg_root = None\<rparr>"

definition logger_get :: "nat \<Rightarrow> log_world \<Rightarrow> logger result" where
  "logger_get l w = (case lw_loggers w l of None \<Rightarrow> Inl (Undefined ''destroyed Logger'') | Some lg \<Rightarrow> Inr lg)"

definition appender_get :: "nat \<Rightarrow> log_world \<Rightarrow> log_appender result" where
  "appender_get a w = (case lw_appenders w a of None \<Rightarrow> Inl (Undefined ''destroyed LogAppender'') | Some ap \<Rightarrow> Inr ap)"

definition logger_put :: "nat \<Rightarrow> logger \<Rightarrow> log_world \<Rightarrow> log_world" where
  "logger_put l lg w = w\<lparr>lw_loggers := (lw_loggers w)(l \<mapsto> lg)\<rparr>"

definition appender_put :: "nat \<Rightarrow> log_appender \<Rightarrow> log_world \<Rightarrow> log_world" where
  "appender_put a ap w = w\<lparr>lw_appenders := (lw_appenders w)(a \<mapsto> ap)\<rparr>"

definition alloc_logger :: "logger \<Rightarrow> log_world \<Rightarrow> nat \<times> log_world" where
  "alloc_logger lg w = (lw_next w, logger_put (lw_next w) lg (w\<lparr>lw_next := Suc (lw_next w)\<rparr>))"

definition alloc_appender :: "log_appender \<Rightarrow> log_world \<Rightarrow> nat \<times> log_world" where
  "alloc_appender ap w = (lw_next w, appender_put (lw_next w) ap (w\<lparr>lw_next := Suc (lw_next w)\<rparr>))"

section \<open>Operations of an appender and of a logger\<close>

definition Appender_setLevel :: "nat \<Rightarrow> log_level \<Rightarrow> log_world \<Rightarrow> log_world result" where
  "Appender_setLevel a level w = rbind (appender_get a w) (\<lambda>ap. Inr (appender_put a (ap\<lparr>ap_level := level\<rparr>) w))"

definition Appender_setFormatter :: "nat \<Rightarrow> log_formatter option \<Rightarrow> log_world \<Rightarrow> log_world result" where
  "Appender_setFormatter a f w = rbind (appender_get a w) (\<lambda>ap. Inr (appender_put a (ap\<lparr>ap_formatter := f\<rparr>) w))"

definition addAppender :: "nat \<Rightarrow> nat \<Rightarrow> log_world \<Rightarrow> log_world result" where
  "addAppender l a w =
     rbind (logger_get l w) (\<lambda>lg.
     rbind (appender_get a w) (\<lambda>ap.
       let ap1 = (if ap_formatter ap = None then ap\<lparr>ap_formatter := lg_formatter lg\<rparr> else ap)
       in Inr (logger_put l (lg\<lparr>lg_appenders := lg_appenders lg @ [a]\<rparr>) (appender_put a ap1 w))))"

definition delAppender :: "nat \<Rightarrow> nat \<Rightarrow> log_world \<Rightarrow> log_world result" where
  "delAppender l a w =
     rbind (logger_get l w) (\<lambda>lg. Inr (logger_put l (lg\<lparr>lg_appenders := remove1 a (lg_appenders lg)\<rparr>) w))"

definition clearAppenders :: "nat \<Rightarrow> log_world \<Rightarrow> log_world result" where
  "clearAppenders l w = rbind (logger_get l w) (\<lambda>lg. Inr (logger_put l (lg\<lparr>lg_appenders := []\<rparr>) w))"

definition Logger_setLevel :: "nat \<Rightarrow> log_level \<Rightarrow> log_world \<Rightarrow> log_world result" where
  "Logger_setLevel l level w = rbind (logger_get l w) (\<lambda>lg. Inr (logger_put l (lg\<lparr>lg_level := level\<rparr>) w))"

definition Logger_setFormatter :: "nat \<Rightarrow> log_formatter option \<Rightarrow> log_world \<Rightarrow> log_world result" where
  "Logger_setFormatter l f w = rbind (logger_get l w) (\<lambda>lg. Inr (logger_put l (lg\<lparr>lg_formatter := f\<rparr>) w))"

definition Logger_setFormatter_pattern :: "nat \<Rightarrow> string \<Rightarrow> log_world \<Rightarrow> log_world result" where
  "Logger_setFormatter_pattern l val w =
     (let new_val = LogFormatter_new val
      in if m_isError new_val then Inr w else Logger_setFormatter l (Some new_val) w)"

section \<open>Writing\<close>

text \<open>
  \<open>FileLogAppender::reopen\<close>: a good stream is closed (which fails it if it was not open); opening an open stream fails; a
  successful opening truncates the file and clears the state.
\<close>

definition reopen :: "string \<Rightarrow> log_appender \<Rightarrow> log_world \<Rightarrow> log_appender \<times> log_world" where
  "reopen filename ap w =
     (let ap1 = (if ap_ok ap then ap\<lparr>ap_open := False, ap_ok := ap_open ap\<rparr> else ap)
      in if \<not> ap_open ap1 \<and> lw_can_open w filename
         then (ap1\<lparr>ap_open := True, ap_ok := True\<rparr>, w\<lparr>lw_files := (lw_files w)(filename \<mapsto> '''')\<rparr>)
         else (ap1\<lparr>ap_ok := False\<rparr>, w))"

definition file_write :: "string \<Rightarrow> log_appender \<Rightarrow> string \<Rightarrow> log_world \<Rightarrow> log_world" where
  "file_write filename ap text w =
     (if ap_ok ap \<and> ap_open ap
      then w\<lparr>lw_files := (lw_files w)(filename \<mapsto>
        (case lw_files w filename of None \<Rightarrow> '''' | Some s \<Rightarrow> s) @ text)\<rparr>
      else w)"

definition formatter_get :: "log_appender \<Rightarrow> log_formatter result" where
  "formatter_get ap = (case ap_formatter ap of None \<Rightarrow> Inl (Null_deref ''m_formatter->format'') | Some f \<Rightarrow> Inr f)"

definition Appender_log :: "date_fun \<Rightarrow> log_level \<Rightarrow> log_event \<Rightarrow> nat \<Rightarrow> log_world \<Rightarrow> log_world result" where
  "Appender_log date level ev a w =
     rbind (appender_get a w) (\<lambda>ap.
       if level \<ge> ap_level ap \<and> level \<ge> lw_global w then
         rbind (logger_get (m_logger ev) w) (\<lambda>elg.
         case ap_kind ap of
           StdoutLogAppender \<Rightarrow>
             rbind (formatter_get ap) (\<lambda>f.
             rbind (LogFormatter_format date (lg_name elg) f level ev) (\<lambda>text.
               Inr (w\<lparr>lw_console := lw_console w @ text\<rparr>)))
         | FileLogAppender filename \<Rightarrow>
             (let (ap1, w1) = reopen filename ap w; w2 = appender_put a ap1 w1
              in rbind (formatter_get ap1) (\<lambda>f.
                 rbind (LogFormatter_format date (lg_name elg) f level ev) (\<lambda>text.
                   Inr (file_write filename ap1 text w2)))))
       else Inr w)"

fun log_appenders :: "date_fun \<Rightarrow> log_level \<Rightarrow> log_event \<Rightarrow> nat list \<Rightarrow> log_world \<Rightarrow> log_world result" where
  "log_appenders date level ev [] w = Inr w"
| "log_appenders date level ev (a # as) w = rbind (Appender_log date level ev a w) (log_appenders date level ev as)"

text \<open>\<open>Logger::log\<close>; \<open>None\<close> is a chain of root loggers that never ends.\<close>

partial_function (option) Logger_log ::
    "date_fun \<Rightarrow> nat \<Rightarrow> log_level \<Rightarrow> log_event \<Rightarrow> log_world \<Rightarrow> log_world result option" where
  [code]: "Logger_log date l level ev w =
     (case logger_get l w of
        Inl e \<Rightarrow> Some (Inl e)
      | Inr lg \<Rightarrow>
          if level \<ge> lg_level lg then
            if lg_appenders lg \<noteq> [] then Some (log_appenders date level ev (lg_appenders lg) w)
            else (case lg_root lg of
                    Some r \<Rightarrow> Logger_log date r level ev w
                  | None \<Rightarrow> Some (Inr w))
          else Some (Inr w))"

definition Logger_debug :: "date_fun \<Rightarrow> nat \<Rightarrow> log_event \<Rightarrow> log_world \<Rightarrow> log_world result option" where
  "Logger_debug date l ev w = Logger_log date l LV_DEBUG ev w"

definition Logger_info :: "date_fun \<Rightarrow> nat \<Rightarrow> log_event \<Rightarrow> log_world \<Rightarrow> log_world result option" where
  "Logger_info date l ev w = Logger_log date l LV_INFO ev w"

definition Logger_warn :: "date_fun \<Rightarrow> nat \<Rightarrow> log_event \<Rightarrow> log_world \<Rightarrow> log_world result option" where
  "Logger_warn date l ev w = Logger_log date l LV_WARN ev w"

definition Logger_error :: "date_fun \<Rightarrow> nat \<Rightarrow> log_event \<Rightarrow> log_world \<Rightarrow> log_world result option" where
  "Logger_error date l ev w = Logger_log date l LV_ERROR ev w"

definition Logger_fatal :: "date_fun \<Rightarrow> nat \<Rightarrow> log_event \<Rightarrow> log_world \<Rightarrow> log_world result option" where
  "Logger_fatal date l ev w = Logger_log date l LV_FATAL ev w"

text \<open>\<open>LogEventWrap\<close>: its destructor logs the event to the event's own logger. The macro tests the level first.\<close>

definition LogEventWrap_delete :: "date_fun \<Rightarrow> log_event \<Rightarrow> log_world \<Rightarrow> log_world result option" where
  "LogEventWrap_delete date ev w = Logger_log date (m_logger ev) (m_level ev) ev w"

definition SYLAR_LOG_LEVEL :: "date_fun \<Rightarrow> nat \<Rightarrow> log_level \<Rightarrow> log_event \<Rightarrow> log_world \<Rightarrow> log_world result option" where
  "SYLAR_LOG_LEVEL date l level ev w =
     (case logger_get l w of
        Inl e \<Rightarrow> Some (Inl e)
      | Inr lg \<Rightarrow>
          if lg_level lg \<le> level then LogEventWrap_delete date (ev\<lparr>m_logger := l, m_level := level\<rparr>) w
          else Some (Inr w))"

definition SYLAR_LOG_FMT_LEVEL ::
    "date_fun \<Rightarrow> nat \<Rightarrow> log_level \<Rightarrow> string option \<Rightarrow> log_event \<Rightarrow> log_world \<Rightarrow> log_world result option" where
  "SYLAR_LOG_FMT_LEVEL date l level buf ev w =
     (case logger_get l w of
        Inl e \<Rightarrow> Some (Inl e)
      | Inr lg \<Rightarrow>
          if lg_level lg \<le> level
          then LogEventWrap_delete date (LogEvent_format buf (ev\<lparr>m_logger := l, m_level := level\<rparr>)) w
          else Some (Inr w))"

definition Filter :: "log_level \<Rightarrow> log_world \<Rightarrow> log_world" where
  "Filter level w = w\<lparr>lw_global := level\<rparr>"

section \<open>The manager\<close>

definition getLogger :: "string \<Rightarrow> log_world \<Rightarrow> nat \<times> log_world" where
  "getLogger loggerName w =
     (case map_of (lw_names w) loggerName of
        Some l \<Rightarrow> (l, w)
      | None \<Rightarrow>
          (let (l, w1) = alloc_logger ((Logger_new loggerName)\<lparr>lg_root := Some (lw_root w)\<rparr>) w
           in (l, w1\<lparr>lw_names := AList.update loggerName l (lw_names w1)\<rparr>)))"

definition addLogger :: "string \<Rightarrow> nat \<Rightarrow> log_world \<Rightarrow> bool \<times> log_world" where
  "addLogger name l w = (True, w\<lparr>lw_names := AList.update name l (lw_names w)\<rparr>)"

definition getRoot :: "log_world \<Rightarrow> nat" where
  "getRoot w = lw_root w"

definition LoggerManager_new :: "(string \<Rightarrow> bool) \<Rightarrow> log_world result" where
  "LoggerManager_new can_open =
     (let w0 = \<lparr>lw_loggers = Map.empty, lw_appenders = Map.empty, lw_next = 0, lw_names = [], lw_root = 0,
                lw_global = LV_DEBUG, lw_console = '''', lw_files = Map.empty, lw_can_open = can_open\<rparr>;
          (r, w1) = alloc_logger (Logger_new ''root'') w0;
          (a, w2) = alloc_appender (Appender_new StdoutLogAppender) (w1\<lparr>lw_root := r\<rparr>)
      in rbind (addAppender r a w2) (\<lambda>w3. Inr (w3\<lparr>lw_names := AList.update ''root'' r (lw_names w3)\<rparr>)))"

section \<open>Descriptions\<close>

definition fmt_entry :: "log_formatter option \<Rightarrow> (string \<times> yaml) list" where
  "fmt_entry f = (case f of None \<Rightarrow> [] | Some g \<Rightarrow> [(''formatter'', Y_scalar (m_pattern g))])"

definition Appender_toYaml :: "log_appender \<Rightarrow> yaml" where
  "Appender_toYaml ap =
     Y_map
       ((case ap_kind ap of
           StdoutLogAppender \<Rightarrow> [(''type'', Y_scalar ''StdoutLogAppender'')]
         | FileLogAppender f \<Rightarrow> [(''type'', Y_scalar ''StdoutLogAppender''), (''file'', Y_scalar f)]) @
        [(''level'', Y_scalar (LogLevel_toString (ap_level ap)))] @ fmt_entry (ap_formatter ap))"

definition Logger_toYamlString :: "yaml_load \<Rightarrow> yaml_dump \<Rightarrow> nat \<Rightarrow> log_world \<Rightarrow> string result" where
  "Logger_toYamlString load dump l w =
     rbind (logger_get l w) (\<lambda>lg.
     rbind (rmap (\<lambda>a. rbind (appender_get a w) (\<lambda>ap.
                        opt_result ''YAML::ParserException'' (load (dump (Appender_toYaml ap))))) (lg_appenders lg)) (\<lambda>ns.
       Inr (dump (Y_map
         ([(''name'', Y_scalar (lg_name lg)), (''level'', Y_scalar (LogLevel_toString (lg_level lg)))] @
          fmt_entry (lg_formatter lg) @ (if ns = [] then [] else [(''appenders'', Y_seq ns)]))))))"

definition LoggerManager_toYamlString :: "yaml_load \<Rightarrow> yaml_dump \<Rightarrow> log_world \<Rightarrow> string result" where
  "LoggerManager_toYamlString load dump w =
     rbind (rmap (\<lambda>(_, l). rbind (Logger_toYamlString load dump l w) (\<lambda>s.
                              opt_result ''YAML::ParserException'' (load s))) (lw_names w)) (\<lambda>ns.
       Inr (dump (y_list ns)))"

section \<open>What a log call writes\<close>

definition passes :: "log_level \<Rightarrow> log_world \<Rightarrow> log_appender \<Rightarrow> bool" where
  "passes level w ap \<longleftrightarrow> level \<ge> ap_level ap \<and> level \<ge> lw_global w"

text \<open>The appenders of a list that pass the level and write to the console, or to a given file that can be opened.\<close>

definition console_target :: "log_level \<Rightarrow> log_world \<Rightarrow> nat \<Rightarrow> bool" where
  "console_target level w a =
     (case lw_appenders w a of None \<Rightarrow> False | Some ap \<Rightarrow> passes level w ap \<and> ap_kind ap = StdoutLogAppender)"

definition file_target :: "log_level \<Rightarrow> log_world \<Rightarrow> string \<Rightarrow> nat \<Rightarrow> bool" where
  "file_target level w fn a =
     (case lw_appenders w a of None \<Rightarrow> False
      | Some ap \<Rightarrow> passes level w ap \<and> ap_kind ap = FileLogAppender fn \<and> lw_can_open w fn)"

text \<open>An appender that can be used: it has a formatter, and its stream is not failed while open.\<close>

definition usable :: "log_world \<Rightarrow> nat \<Rightarrow> bool" where
  "usable w a \<longleftrightarrow> (\<exists>ap. lw_appenders w a = Some ap \<and> ap_formatter ap \<noteq> None \<and> (ap_open ap \<longrightarrow> ap_ok ap))"

text \<open>Two worlds that differ only in what was written and in the state of streams.\<close>

definition same_objects :: "log_world \<Rightarrow> log_world \<Rightarrow> bool" where
  "same_objects w w' \<longleftrightarrow> lw_loggers w' = lw_loggers w \<and> lw_next w' = lw_next w \<and> lw_names w' = lw_names w \<and>
     lw_root w' = lw_root w \<and> lw_global w' = lw_global w \<and> lw_can_open w' = lw_can_open w \<and>
     (\<forall>a. map_option (\<lambda>ap. (ap_kind ap, ap_level ap, ap_formatter ap)) (lw_appenders w' a) =
        map_option (\<lambda>ap. (ap_kind ap, ap_level ap, ap_formatter ap)) (lw_appenders w a)) \<and>
     (\<forall>a. usable w a \<longrightarrow> usable w' a)"

lemma same_objects_refl [simp]: "same_objects w w"
  by (simp add: same_objects_def)

lemma same_objects_trans: "same_objects w w' \<Longrightarrow> same_objects w' w'' \<Longrightarrow> same_objects w w''"
  by (simp add: same_objects_def)



lemma same_objects_usable: "same_objects w w' \<Longrightarrow> usable w a \<Longrightarrow> usable w' a"
  by (simp add: same_objects_def)

lemma same_objects_targets:
  assumes "same_objects w w'"
  shows "console_target level w' a = console_target level w a" "file_target level w' fn a = file_target level w fn a"
proof -
  have "map_option (\<lambda>ap. (ap_kind ap, ap_level ap, ap_formatter ap)) (lw_appenders w' a) =
      map_option (\<lambda>ap. (ap_kind ap, ap_level ap, ap_formatter ap)) (lw_appenders w a)"
    "lw_global w' = lw_global w" "lw_can_open w' = lw_can_open w"
    using assms unfolding same_objects_def by blast+
  then show "console_target level w' a = console_target level w a" "file_target level w' fn a = file_target level w fn a"
    by (cases "lw_appenders w a"; cases "lw_appenders w' a"; simp add: console_target_def file_target_def passes_def)+
qed

text \<open>What formatting an event for an appender gives.\<close>

definition texts :: "date_fun \<Rightarrow> log_level \<Rightarrow> log_event \<Rightarrow> log_world \<Rightarrow> (nat \<Rightarrow> string) \<Rightarrow> nat \<Rightarrow> bool" where
  "texts date level ev w T a \<longleftrightarrow>
     (\<exists>ap f elg. lw_appenders w a = Some ap \<and> ap_formatter ap = Some f \<and> lw_loggers w (m_logger ev) = Some elg \<and>
        LogFormatter_format date (lg_name elg) f level ev = Inr (T a))"

lemma same_objects_texts:
  assumes "same_objects w w'" "texts date level ev w T a"
  shows "texts date level ev w' T a"
proof -
  have "map_option (\<lambda>ap. (ap_kind ap, ap_level ap, ap_formatter ap)) (lw_appenders w' a) =
      map_option (\<lambda>ap. (ap_kind ap, ap_level ap, ap_formatter ap)) (lw_appenders w a)"
    "lw_loggers w' = lw_loggers w"
    using assms(1) unfolding same_objects_def by blast+
  with assms(2) show ?thesis
    by (cases "lw_appenders w' a") (auto simp: texts_def)
qed

lemma Appender_log_step:
  assumes "usable w a" "texts date level ev w T a"
  obtains w' where "Appender_log date level ev a w = Inr w'" "same_objects w w'"
    "lw_console w' = lw_console w @ (if console_target level w a then T a else [])"
    "lw_files w' = (\<lambda>fn. if file_target level w fn a then Some (T a) else lw_files w fn)"
proof -
  from assms obtain ap f elg where ap: "lw_appenders w a = Some ap" "ap_formatter ap = Some f"
    "ap_open ap \<longrightarrow> ap_ok ap" "lw_loggers w (m_logger ev) = Some elg"
    "LogFormatter_format date (lg_name elg) f level ev = Inr (T a)"
    by (auto simp: usable_def texts_def)
  note d = Appender_log_def appender_get_def logger_get_def formatter_get_def console_target_def file_target_def passes_def
  show ?thesis
  proof (cases "level \<ge> ap_level ap \<and> level \<ge> lw_global w")
    case False
    then show ?thesis using ap by (intro that [of w]) (auto simp: d)
  next
    case True
    show ?thesis
    proof (cases "ap_kind ap")
      case StdoutLogAppender
      then show ?thesis using ap True
        by (intro that [of "w\<lparr>lw_console := lw_console w @ T a\<rparr>"]) (auto simp: d same_objects_def usable_def)
    next
      case (FileLogAppender fn)
      let ?ap = "fst (reopen fn ap w)" and ?w = "snd (reopen fn ap w)"
      let ?r = "file_write fn ?ap (T a) (appender_put a ?ap ?w)"
      have f: "ap_formatter ?ap = Some f" "ap_kind ?ap = ap_kind ap" "ap_level ?ap = ap_level ap" "ap_open ?ap \<longrightarrow> ap_ok ?ap"
        "ap_ok ?ap = lw_can_open w fn" "ap_open ?ap = lw_can_open w fn"
        using ap by (auto simp: reopen_def Let_def)
      have g: "?w = w\<lparr>lw_files := if lw_can_open w fn then (lw_files w)(fn \<mapsto> '''') else lw_files w\<rparr>"
        using ap by (auto simp: reopen_def Let_def)
      have "Appender_log date level ev a w = Inr ?r"
        using ap True FileLogAppender f(1) by (simp add: d split_def Let_def)
      moreover have "same_objects w ?r"
        using ap f by (auto simp: same_objects_def file_write_def appender_put_def usable_def g)
      moreover have "lw_console ?r = lw_console w @ (if console_target level w a then T a else [])"
        using ap FileLogAppender by (simp add: d file_write_def appender_put_def g)
      moreover have "lw_files ?r = (\<lambda>fn'. if file_target level w fn' a then Some (T a) else lw_files w fn')"
        using ap True FileLogAppender f by (auto simp: d file_write_def appender_put_def fun_eq_iff g)
      ultimately show ?thesis by (rule that)
    qed
  qed
qed


lemma log_appenders_delivers:
  assumes "\<And>a. a \<in> set as \<Longrightarrow> usable w a \<and> texts date level ev w T a"
  obtains w' where "log_appenders date level ev as w = Inr w'" "same_objects w w'"
    "lw_console w' = lw_console w @ concat (map T (filter (console_target level w) as))"
    "\<And>fn. lw_files w' fn =
       (case rev (filter (file_target level w fn) as) of [] \<Rightarrow> lw_files w fn | a # _ \<Rightarrow> Some (T a))"
  using assms
proof (induction as arbitrary: w thesis)
  case Nil
  then show ?case by (simp add: same_objects_def)
next
  case (Cons a as)
  obtain w1 where w1: "Appender_log date level ev a w = Inr w1" "same_objects w w1"
    "lw_console w1 = lw_console w @ (if console_target level w a then T a else [])"
    "lw_files w1 = (\<lambda>fn. if file_target level w fn a then Some (T a) else lw_files w fn)"
    using Appender_log_step [of w a date level ev T] Cons.prems(2) [of a] by auto
  have "usable w1 b \<and> texts date level ev w1 T b" if "b \<in> set as" for b
    using Cons.prems(2) [of b] that same_objects_texts [OF w1(2)] same_objects_usable [OF w1(2)] by simp
  then obtain w2 where w2: "log_appenders date level ev as w1 = Inr w2" "same_objects w1 w2"
    "lw_console w2 = lw_console w1 @ concat (map T (filter (console_target level w) as))"
    "\<And>fn. lw_files w2 fn =
       (case rev (filter (file_target level w fn) as) of [] \<Rightarrow> lw_files w1 fn | a # _ \<Rightarrow> Some (T a))"
    using Cons.IH [of w1] unfolding same_objects_targets [OF w1(2)] by blast
  show ?case
  proof (rule Cons.prems(1) [of w2])
    show "lw_files w2 fn =
       (case rev (filter (file_target level w fn) (a # as)) of [] \<Rightarrow> lw_files w fn | a # _ \<Rightarrow> Some (T a))" for fn
      by (cases "rev (filter (file_target level w fn) as)") (simp_all add: w1(4) w2(4))
  qed (use w1 w2 same_objects_trans in auto)
qed


text \<open>
  C29 (log_delivery). When a logger with appenders accepts a level, every appender formats the event once: the console receives,
  in the order of the appenders, the texts of the console appenders whose own level and the global level let the event pass; a file
  holds the text of the last such file appender and nothing of what was there before, because each call reopens the file with
  truncation; files that cannot be opened keep their content, and no logger, name or level changes.
\<close>

theorem log_delivery:
  assumes "lw_loggers w l = Some lg" "level \<ge> lg_level lg" "lg_appenders lg \<noteq> []"
    and "\<And>a. a \<in> set (lg_appenders lg) \<Longrightarrow> usable w a \<and> texts date level ev w T a"
  shows "\<exists>w'. Logger_log date l level ev w = Some (Inr w') \<and> same_objects w w' \<and>
    lw_console w' = lw_console w @ concat (map T (filter (console_target level w) (lg_appenders lg))) \<and>
    (\<forall>fn. lw_files w' fn =
       (case rev (filter (file_target level w fn) (lg_appenders lg)) of [] \<Rightarrow> lw_files w fn | a # _ \<Rightarrow> Some (T a)))"
proof -
  obtain w' where w': "log_appenders date level ev (lg_appenders lg) w = Inr w'" "same_objects w w'"
    "lw_console w' = lw_console w @ concat (map T (filter (console_target level w) (lg_appenders lg)))"
    "\<And>fn. lw_files w' fn =
       (case rev (filter (file_target level w fn) (lg_appenders lg)) of [] \<Rightarrow> lw_files w fn | a # _ \<Rightarrow> Some (T a))"
    using log_appenders_delivers [of "lg_appenders lg" w date level ev T] assms(4) by blast
  have "Logger_log date l level ev w = Some (Inr w')"
    using assms(1-3) w'(1) by (subst Logger_log.simps) (simp add: logger_get_def)
  then show ?thesis using w'(2-4) by blast
qed


definition sample_event :: log_event where
  "sample_event = \<lparr>m_file = ''main.cc'', m_line = 7, m_elapse = 0, m_threadId = 3, m_threadName = ''io'', m_fiberId = 1,
     m_time = 0, m_ss = ''hi'', m_logger = 0, m_level = LV_INFO\<rparr>"

definition sample_world :: log_world where
  "sample_world =
     (let f = \<lparr>m_pattern = ''%p %m'', m_items = [LevelFormatItem, NormalStringFormatItem '' '', MessageFormatItem], m_isError = False\<rparr>;
          ap = (\<lambda>k v. Some \<lparr>ap_kind = k, ap_level = v, ap_formatter = Some f, ap_ok = True, ap_open = False\<rparr>)
      in \<lparr>lw_loggers = [0 \<mapsto> \<lparr>lg_name = ''root'', lg_level = LV_DEBUG, lg_appenders = [1, 2, 3, 4], lg_formatter = Some f, lg_root = None\<rparr>],
          lw_appenders = (\<lambda>a. if a = 1 then ap StdoutLogAppender LV_DEBUG else if a = 2 then ap (FileLogAppender ''a.log'') LV_INFO
             else if a = 3 then ap (FileLogAppender ''locked.log'') LV_INFO
             else if a = 4 then ap (FileLogAppender ''err.log'') LV_ERROR else None),
          lw_next = 5, lw_names = [(''root'', 0)], lw_root = 0, lw_global = LV_DEBUG, lw_console = ''> '',
          lw_files = [''a.log'' \<mapsto> ''old''], lw_can_open = (\<lambda>fn. fn \<noteq> ''locked.log'')\<rparr>)"

lemma log_delivery_witness:
  "\<exists>w'. Logger_log (\<lambda>_ _. None) 0 LV_INFO sample_event sample_world = Some (Inr w') \<and>
     lw_console w' = ''> INFO hi'' \<and> lw_files w' ''a.log'' = Some ''INFO hi'' \<and>
     lw_files w' ''locked.log'' = None \<and> lw_files w' ''err.log'' = None"
proof -
  let ?lg = "the (lw_loggers sample_world 0)"
  have lg: "lw_loggers sample_world 0 = Some ?lg" "LV_INFO \<ge> lg_level ?lg" "lg_appenders ?lg = [1, 2, 3, 4]"
    by (simp_all add: sample_world_def Let_def)
  have "usable sample_world a \<and> texts (\<lambda>_ _. None) LV_INFO sample_event sample_world (\<lambda>_. ''INFO hi'') a"
    if "a \<in> set (lg_appenders ?lg)" for a
    using that unfolding lg(3)
    by (auto simp: sample_world_def sample_event_def usable_def texts_def LogFormatter_format_def LogLevel_toString_def Let_def)
  from log_delivery [OF lg(1,2) _ this] show ?thesis
    by (simp add: lg(3)) (auto simp: console_target_def file_target_def passes_def sample_world_def Let_def)
qed


section \<open>The logging system as a whole\<close>

text \<open>
  The states the logging system reaches from its initialisation by calls of its operations on objects that exist; a formatter
  that is installed is not null.
\<close>

inductive log_reachable :: "date_fun \<Rightarrow> log_world \<Rightarrow> bool" for date where
  lr_new: "LoggerManager_new can_open = Inr w \<Longrightarrow> log_reachable date w"
| lr_new_logger: "log_reachable date w \<Longrightarrow> alloc_logger (Logger_new name) w = (l, w') \<Longrightarrow> log_reachable date w'"
| lr_new_appender: "log_reachable date w \<Longrightarrow> alloc_appender (Appender_new k) w = (a, w') \<Longrightarrow> log_reachable date w'"
| lr_appender_level: "log_reachable date w \<Longrightarrow> Appender_setLevel a level w = Inr w' \<Longrightarrow> log_reachable date w'"
| lr_appender_formatter: "log_reachable date w \<Longrightarrow> Appender_setFormatter a (Some f) w = Inr w' \<Longrightarrow> log_reachable date w'"
| lr_add: "log_reachable date w \<Longrightarrow> addAppender l a w = Inr w' \<Longrightarrow> log_reachable date w'"
| lr_del: "log_reachable date w \<Longrightarrow> delAppender l a w = Inr w' \<Longrightarrow> log_reachable date w'"
| lr_clear: "log_reachable date w \<Longrightarrow> clearAppenders l w = Inr w' \<Longrightarrow> log_reachable date w'"
| lr_level: "log_reachable date w \<Longrightarrow> Logger_setLevel l level w = Inr w' \<Longrightarrow> log_reachable date w'"
| lr_formatter: "log_reachable date w \<Longrightarrow> Logger_setFormatter l (Some f) w = Inr w' \<Longrightarrow> log_reachable date w'"
| lr_pattern: "log_reachable date w \<Longrightarrow> Logger_setFormatter_pattern l p w = Inr w' \<Longrightarrow> log_reachable date w'"
| lr_filter: "log_reachable date w \<Longrightarrow> log_reachable date (Filter level w)"
| lr_getLogger: "log_reachable date w \<Longrightarrow> getLogger name w = (l, w') \<Longrightarrow> log_reachable date w'"
| lr_addLogger: "log_reachable date w \<Longrightarrow> lw_loggers w l \<noteq> None \<Longrightarrow> addLogger name l w = (r, w') \<Longrightarrow> log_reachable date w'"
| lr_log: "log_reachable date w \<Longrightarrow> Logger_log date l level ev w = Some (Inr w') \<Longrightarrow> log_reachable date w'"

text \<open>What holds of every reachable state.\<close>

definition logger_ok :: "log_world \<Rightarrow> logger \<Rightarrow> bool" where
  "logger_ok w lg \<longleftrightarrow> lg_formatter lg \<noteq> None \<and> (lg_root lg = None \<or> lg_root lg = Some (lw_root w)) \<and>
     (\<forall>a \<in> set (lg_appenders lg). usable w a)"

definition appender_ok :: "log_appender \<Rightarrow> bool" where
  "appender_ok ap \<longleftrightarrow> (ap_open ap \<longrightarrow> ap_ok ap)"

definition log_wf :: "log_world \<Rightarrow> bool" where
  "log_wf w \<longleftrightarrow> (\<forall>l lg. lw_loggers w l = Some lg \<longrightarrow> l < lw_next w \<and> logger_ok w lg) \<and>
     (\<forall>a ap. lw_appenders w a = Some ap \<longrightarrow> a < lw_next w \<and> appender_ok ap) \<and>
     (\<exists>rt. lw_loggers w (lw_root w) = Some rt \<and> lg_root rt = None) \<and>
     (\<forall>n l. map_of (lw_names w) n = Some l \<longrightarrow> lw_loggers w l \<noteq> None)"

lemma usable_iff: "usable w a \<longleftrightarrow> (\<exists>ap. lw_appenders w a = Some ap \<and> ap_formatter ap \<noteq> None \<and> appender_ok ap)"
  by (simp add: usable_def appender_ok_def)

lemma log_wf_logger: "log_wf w \<Longrightarrow> lw_loggers w l = Some lg \<Longrightarrow> l < lw_next w \<and> logger_ok w lg"
  by (simp add: log_wf_def)

lemma logger_put_wf:
  assumes "log_wf w" "l < lw_next w" "logger_ok w lg" "l = lw_root w \<Longrightarrow> lg_root lg = None"
  shows "log_wf (logger_put l lg w)"
  using assms unfolding log_wf_def logger_put_def logger_ok_def usable_def by auto

lemma appender_put_wf:
  assumes "log_wf w" "a < lw_next w" "appender_ok ap" "usable w a \<Longrightarrow> ap_formatter ap \<noteq> None"
  shows "log_wf (appender_put a ap w)"
proof -
  have u: "usable (appender_put a ap w) b" if "usable w b" for b
    using that assms(3,4) by (auto simp: usable_iff appender_put_def)
  have "logger_ok (appender_put a ap w) lg" if "logger_ok w lg" for lg
    using that u by (simp add: logger_ok_def appender_put_def)
  then show ?thesis using assms(1-3) by (simp add: log_wf_def appender_put_def)
qed

lemma next_wf: "log_wf w \<Longrightarrow> log_wf (w\<lparr>lw_next := Suc (lw_next w)\<rparr>)"
  by (auto simp: log_wf_def logger_ok_def usable_def less_Suc_eq)

lemma alloc_wf:
  assumes "log_wf w" "lg_formatter lg \<noteq> None" "lg_root lg = None \<or> lg_root lg = Some (lw_root w)" "lg_appenders lg = []"
  shows "log_wf (snd (alloc_logger lg w))"
proof -
  have "lw_root w < lw_next w" using assms(1) by (auto simp: log_wf_def)
  then show ?thesis
    using assms logger_put_wf [OF next_wf [OF assms(1)], of "lw_next w" lg] by (simp add: alloc_logger_def logger_ok_def)
qed


lemma fresh_address:
  assumes "log_wf w"
  shows "lw_appenders w (lw_next w) = None" "lw_loggers w (lw_next w) = None"
  using assms by (cases "lw_appenders w (lw_next w)"; cases "lw_loggers w (lw_next w)"; auto simp: log_wf_def)+

lemma alloc_appender_wf:
  assumes "log_wf w" "alloc_appender (Appender_new k) w = (a, w')"
  shows "log_wf w'"
proof -
  have "log_wf (appender_put (lw_next w) (Appender_new k) (w\<lparr>lw_next := Suc (lw_next w)\<rparr>))"
    by (rule appender_put_wf [OF next_wf [OF assms(1)]])
       (use fresh_address [OF assms(1)] in \<open>simp_all add: appender_ok_def Appender_new_def usable_def\<close>)
  then show ?thesis using assms(2) by (auto simp: alloc_appender_def)
qed

lemma log_wf_output [simp]:
  "log_wf (w\<lparr>lw_files := fs\<rparr>) = log_wf w" "log_wf (w\<lparr>lw_console := c\<rparr>) = log_wf w" "log_wf (Filter level w) = log_wf w"
  by (simp_all add: log_wf_def logger_ok_def usable_def Filter_def)


lemma names_wf:
  assumes "log_wf w" "lw_loggers w l \<noteq> None"
  shows "log_wf (w\<lparr>lw_names := AList.update n l (lw_names w)\<rparr>)"
  using assms by (auto simp: log_wf_def logger_ok_def usable_def update_conv')

lemma logger_update_wf:
  assumes "log_wf w" "lw_loggers w l = Some lg" "lg_root lg' = lg_root lg" "lg_formatter lg' \<noteq> None"
    and "\<And>a. a \<in> set (lg_appenders lg') \<Longrightarrow> usable w a"
  shows "log_wf (logger_put l lg' w)"
proof (rule logger_put_wf)
  show "logger_ok w lg'" using assms by (auto simp: log_wf_def logger_ok_def)
  show "lg_root lg' = None" if "l = lw_root w" using assms that by (auto simp: log_wf_def)
qed (use assms in \<open>simp_all add: log_wf_def\<close>)

lemma logger_ops_wf:
  assumes "log_wf w"
  shows "delAppender l a w = Inr w' \<Longrightarrow> log_wf w'"
    and "clearAppenders l w = Inr w' \<Longrightarrow> log_wf w'"
    and "Logger_setLevel l level w = Inr w' \<Longrightarrow> log_wf w'"
    and "Logger_setFormatter l (Some f) w = Inr w' \<Longrightarrow> log_wf w'"
proof -
  have ok: "logger_ok w lg" if "lw_loggers w l = Some lg" for lg using assms that by (simp add: log_wf_def)
  note d = rbind_Inr_iff logger_get_def
  show "delAppender l a w = Inr w' \<Longrightarrow> log_wf w'"
    using ok set_remove1_subset
    by (fastforce simp: delAppender_def d logger_ok_def split: option.splits intro: logger_update_wf [OF assms])
  show "clearAppenders l w = Inr w' \<Longrightarrow> log_wf w'"
    using ok by (fastforce simp: clearAppenders_def d logger_ok_def split: option.splits intro: logger_update_wf [OF assms])
  show "Logger_setLevel l level w = Inr w' \<Longrightarrow> log_wf w'"
    using ok by (fastforce simp: Logger_setLevel_def d logger_ok_def split: option.splits intro: logger_update_wf [OF assms])
  show "Logger_setFormatter l (Some f) w = Inr w' \<Longrightarrow> log_wf w'"
    using ok by (fastforce simp: Logger_setFormatter_def d logger_ok_def split: option.splits intro: logger_update_wf [OF assms])
qed

lemma appender_ops_wf:
  assumes "log_wf w"
  shows "Appender_setLevel a level w = Inr w' \<Longrightarrow> log_wf w'"
    and "Appender_setFormatter a (Some f) w = Inr w' \<Longrightarrow> log_wf w'"
proof -
  have ok: "a < lw_next w" "appender_ok ap" if "lw_appenders w a = Some ap" for ap
    using assms that by (simp_all add: log_wf_def)
  note d = rbind_Inr_iff appender_get_def
  show "Appender_setLevel a level w = Inr w' \<Longrightarrow> log_wf w'"
    using ok by (auto simp: Appender_setLevel_def d usable_iff appender_ok_def split: option.splits
      intro!: appender_put_wf [OF assms])
  show "Appender_setFormatter a (Some f) w = Inr w' \<Longrightarrow> log_wf w'"
    using ok by (auto simp: Appender_setFormatter_def d usable_iff appender_ok_def split: option.splits
      intro!: appender_put_wf [OF assms])
qed

lemma addAppender_wf:
  assumes "log_wf w" "addAppender l a w = Inr w'"
  shows "log_wf w'"
proof -
  from assms(2) obtain lg ap ap1 where lg: "lw_loggers w l = Some lg" and ap: "lw_appenders w a = Some ap"
    and ap1: "ap1 = (if ap_formatter ap = None then ap\<lparr>ap_formatter := lg_formatter lg\<rparr> else ap)"
    and w': "w' = logger_put l (lg\<lparr>lg_appenders := lg_appenders lg @ [a]\<rparr>) (appender_put a ap1 w)"
    by (auto simp: addAppender_def rbind_Inr_iff logger_get_def appender_get_def Let_def split: option.splits)
  have ok: "logger_ok w lg" "a < lw_next w" "appender_ok ap" using assms(1) lg ap by (auto simp: log_wf_def)
  then have a1: "appender_ok ap1" "ap_formatter ap1 \<noteq> None" by (auto simp: ap1 appender_ok_def logger_ok_def)
  let ?w = "appender_put a ap1 w"
  have wf: "log_wf ?w" by (rule appender_put_wf [OF assms(1) ok(2) a1(1)]) (rule a1(2))
  have u: "usable ?w b" if "usable w b \<or> b = a" for b
    using that a1 by (auto simp: usable_iff appender_put_def)
  show ?thesis unfolding w'
    by (rule logger_update_wf [OF wf, of _ lg]) (use lg ok u in \<open>auto simp: appender_put_def logger_ok_def\<close>)
qed


lemma getLogger_wf:
  assumes "log_wf w" "getLogger name w = (l, w')"
  shows "log_wf w'"
proof (cases "map_of (lw_names w) name")
  case None
  let ?lg = "(Logger_new name)\<lparr>lg_root := Some (lw_root w)\<rparr>"
  have "log_wf (snd (alloc_logger ?lg w))"
    by (rule alloc_wf [OF assms(1)]) (simp_all add: Logger_new_def)
  moreover have "lw_loggers (snd (alloc_logger ?lg w)) (fst (alloc_logger ?lg w)) \<noteq> None"
    by (simp add: alloc_logger_def logger_put_def)
  moreover have "w' = (snd (alloc_logger ?lg w))
      \<lparr>lw_names := AList.update name (fst (alloc_logger ?lg w)) (lw_names (snd (alloc_logger ?lg w)))\<rparr>"
    using assms(2) None by (auto simp: getLogger_def split_def Let_def)
  ultimately show ?thesis using names_wf by metis
qed (use assms in \<open>simp add: getLogger_def\<close>)

lemma Appender_log_wf:
  assumes "log_wf w" "Appender_log date level ev a w = Inr w'"
  shows "log_wf w'"
proof -
  obtain ap where ap: "lw_appenders w a = Some ap"
    using assms(2) by (auto simp: Appender_log_def rbind_Inr_iff appender_get_def split: option.splits)
  then have ok: "a < lw_next w" "appender_ok ap" using assms(1) by (simp_all add: log_wf_def)
  show ?thesis
  proof (cases "level \<ge> ap_level ap \<and> level \<ge> lw_global w")
    case True
    show ?thesis
    proof (cases "ap_kind ap")
      case StdoutLogAppender
      then show ?thesis using assms ap True by (auto simp: Appender_log_def appender_get_def rbind_Inr_iff)
    next
      case (FileLogAppender fn)
      let ?ap = "fst (reopen fn ap w)" and ?w = "snd (reopen fn ap w)"
      have r: "appender_ok ?ap" "ap_formatter ?ap = ap_formatter ap"
        using ok by (auto simp: reopen_def Let_def appender_ok_def)
      have "\<exists>fs. ?w = w\<lparr>lw_files := fs\<rparr>"
        by (auto simp: reopen_def Let_def intro: exI [of _ "lw_files w"])
      then obtain fs where fs: "?w = w\<lparr>lw_files := fs\<rparr>" by blast
      have "log_wf (appender_put a ?ap ?w)"
        by (rule appender_put_wf) (use assms(1) ok r ap in \<open>auto simp: fs usable_iff\<close>)
      moreover have "\<exists>text. w' = file_write fn ?ap text (appender_put a ?ap ?w)"
        using assms ap True FileLogAppender by (auto simp: Appender_log_def appender_get_def rbind_Inr_iff split_def Let_def)
      ultimately show ?thesis by (auto simp: file_write_def)
    qed
  qed (use assms ap in \<open>auto simp: Appender_log_def appender_get_def\<close>)
qed

lemma log_appenders_wf: "log_wf w \<Longrightarrow> log_appenders date level ev as w = Inr w' \<Longrightarrow> log_wf w'"
  by (induction as arbitrary: w) (auto simp: rbind_Inr_iff intro: Appender_log_wf)

text \<open>The appenders a call reaches: those of the logger, or of the root logger when it has none.\<close>

definition effective_appenders :: "log_world \<Rightarrow> logger \<Rightarrow> log_level \<Rightarrow> nat list" where
  "effective_appenders w lg level =
     (if level < lg_level lg then []
      else if lg_appenders lg \<noteq> [] then lg_appenders lg
      else case lg_root lg of
             None \<Rightarrow> []
           | Some r \<Rightarrow> (case lw_loggers w r of
                          None \<Rightarrow> []
                        | Some rt \<Rightarrow> if level < lg_level rt then [] else lg_appenders rt))"

lemma Logger_log_effective:
  assumes "log_wf w" "lw_loggers w l = Some lg"
  shows "Logger_log date l level ev w = Some (log_appenders date level ev (effective_appenders w lg level) w)"
proof -
  from assms(1) obtain rt where rt: "lw_loggers w (lw_root w) = Some rt" "lg_root rt = None" by (auto simp: log_wf_def)
  have "Logger_log date (lw_root w) level ev w =
      Some (log_appenders date level ev (if level < lg_level rt then [] else lg_appenders rt) w)"
    using rt by (subst Logger_log.simps) (simp add: logger_get_def)
  moreover have "lg_root lg = None \<or> lg_root lg = Some (lw_root w)"
    using log_wf_logger [OF assms] by (simp add: logger_ok_def)
  ultimately show ?thesis
    using assms(2) rt by (subst Logger_log.simps) (auto simp: logger_get_def effective_appenders_def)
qed

lemma effective_usable:
  assumes "log_wf w" "lw_loggers w l = Some lg" "a \<in> set (effective_appenders w lg level)"
  shows "usable w a"
proof -
  have ok: "usable w b" if "lw_loggers w k = Some lk" "b \<in> set (lg_appenders lk)" for k lk b
    using log_wf_logger [OF assms(1) that(1)] that(2) by (simp add: logger_ok_def)
  from assms(3) obtain k lk where "lw_loggers w k = Some lk" "a \<in> set (lg_appenders lk)"
    using assms(2) by (auto simp: effective_appenders_def split: if_splits option.splits dest: sym)
  then show ?thesis by (rule ok)
qed


lemma LoggerManager_new_wf:
  assumes "LoggerManager_new can_open = Inr w"
  shows "log_wf w"
proof -
  have "w = \<lparr>lw_loggers = [0 \<mapsto> (Logger_new ''root'')\<lparr>lg_appenders := [1]\<rparr>],
      lw_appenders = [1 \<mapsto> (Appender_new StdoutLogAppender)\<lparr>ap_formatter := lg_formatter (Logger_new ''root'')\<rparr>],
      lw_next = 2, lw_names = [(''root'', 0)], lw_root = 0, lw_global = LV_DEBUG, lw_console = '''', lw_files = Map.empty,
      lw_can_open = can_open\<rparr>"
    using assms
    by (auto simp: LoggerManager_new_def alloc_logger_def alloc_appender_def addAppender_def logger_get_def appender_get_def
        logger_put_def appender_put_def Let_def Appender_new_def Logger_new_def)
  then show ?thesis by (simp add: log_wf_def logger_ok_def usable_def appender_ok_def Appender_new_def Logger_new_def)
qed

lemma Logger_log_wf:
  assumes "log_wf w" "Logger_log date l level ev w = Some (Inr w')"
  shows "log_wf w'"
proof (cases "lw_loggers w l")
  case None
  then show ?thesis using assms by (subst (asm) Logger_log.simps) (simp add: logger_get_def)
next
  case (Some lg)
  then show ?thesis using assms Logger_log_effective [OF assms(1) Some] log_appenders_wf by simp
qed

lemma log_reachable_wf: "log_reachable date w \<Longrightarrow> log_wf w"
proof (induction rule: log_reachable.induct)
  case (lr_new_logger w name l w')
  then show ?case using alloc_wf [of w "Logger_new name"] by (simp add: Logger_new_def)
next
  case (lr_new_appender w k a w')
  then show ?case using alloc_appender_wf by blast
next
  case (lr_pattern w l p w')
  then show ?case by (auto simp: Logger_setFormatter_pattern_def Let_def logger_ops_wf(4) split: if_splits)
next
  case (lr_addLogger w l name r w')
  then show ?case by (auto simp: addLogger_def intro: names_wf)
next
  case (lr_filter w level)
  then show ?case by simp
qed (blast intro: LoggerManager_new_wf appender_ops_wf addAppender_wf logger_ops_wf getLogger_wf Logger_log_wf)+


lemma LogFormatter_format_total:
  assumes "\<And>f t. date f t \<noteq> None"
  shows "\<exists>s. LogFormatter_format date name f level ev = Inr s"
proof -
  have i: "\<exists>s. FormatItem_format date name level ev i = Inr s" for i
    using assms by (cases i) (auto split: option.splits)
  have "\<exists>s. format_items date name level ev is = Inr s" for "is"
  proof (induction "is")
    case (Cons j js)
    then show ?case using i [of j] by auto
  qed simp
  then show ?thesis by (simp add: LogFormatter_format_def)
qed

lemma log_call_wf:
  assumes wf: "log_wf w" and l: "lw_loggers w l = Some lg" and ev: "lw_loggers w (m_logger ev) \<noteq> None"
    and date: "\<And>f t. date f t \<noteq> None"
  shows "\<exists>w'. Logger_log date l level ev w = Some (Inr w') \<and> log_wf w' \<and> same_objects w w' \<and>
    log_appenders date level ev (effective_appenders w lg level) w = Inr w'"
proof -
  let ?as = "effective_appenders w lg level"
  let ?T = "\<lambda>a. projr (LogFormatter_format date (lg_name (the (lw_loggers w (m_logger ev))))
      (the (ap_formatter (the (lw_appenders w a)))) level ev)"
  have t: "Inr (projr (LogFormatter_format date n f level ev)) = LogFormatter_format date n f level ev" for n f
    using LogFormatter_format_total [of date n f level ev] date by auto
  have "usable w a \<and> texts date level ev w ?T a" if "a \<in> set ?as" for a
  proof -
    have u: "usable w a" using effective_usable [OF wf l that] .
    then show ?thesis using ev by (auto simp: texts_def usable_def t)
  qed
  then obtain w' where "log_appenders date level ev ?as w = Inr w'" "same_objects w w'"
    by (rule log_appenders_delivers)
  moreover from this have "log_wf w'" using log_appenders_wf [OF wf] by blast
  ultimately show ?thesis using Logger_log_effective [OF wf l, of date level ev] by simp
qed

text \<open>
  C28 (log_call_returns). In every state the logging system reaches, a log call on an existing logger returns without a null
  pointer or a destroyed object, provided dates can be formatted; it writes through the logger's own appenders or, when it has
  none, the root logger's, and leaves a well-formed state. The chain of root loggers never loops.
\<close>

theorem log_call_returns:
  assumes "log_reachable date w" "lw_loggers w l = Some lg" "lw_loggers w (m_logger ev) \<noteq> None"
    and "\<And>f t. date f t \<noteq> None"
  shows "\<exists>w'. Logger_log date l level ev w = Some (Inr w') \<and> log_wf w' \<and> same_objects w w' \<and>
    log_appenders date level ev (effective_appenders w lg level) w = Inr w'"
  using log_call_wf [OF log_reachable_wf [OF assms(1)] assms(2,3)] assms(4) by blast

text \<open>
  Theorem (named_logger_reaches_root). Asking the manager for a name it does not know registers a new logger under that name: asking
  again gives the same object and changes nothing, no other logger is touched, and until appenders are added to it, what is logged
  to it at DEBUG or above is written exactly as the root logger would write it.
\<close>

theorem named_logger_reaches_root:
  assumes "log_reachable date w" "map_of (lw_names w) name = None" "getLogger name w = (l, w')"
  shows "getLogger name w' = (l, w') \<and> lw_loggers w l = None \<and>
    (\<forall>k. k \<noteq> l \<longrightarrow> lw_loggers w' k = lw_loggers w k) \<and>
    (\<forall>n. n \<noteq> name \<longrightarrow> map_of (lw_names w') n = map_of (lw_names w) n) \<and>
    (\<forall>level ev. level \<ge> LV_DEBUG \<longrightarrow> Logger_log date l level ev w' = Logger_log date (getRoot w') level ev w')"
proof -
  have wf: "log_wf w" using assms(1) by (rule log_reachable_wf)
  let ?lg = "(Logger_new name)\<lparr>lg_root := Some (lw_root w)\<rparr>"
  from assms(2,3) have l: "l = lw_next w" and w': "lw_loggers w' = (lw_loggers w)(l \<mapsto> ?lg)"
    "lw_names w' = AList.update name l (lw_names w)" "lw_root w' = lw_root w"
    by (auto simp: getLogger_def alloc_logger_def logger_put_def)
  have "lw_loggers w l = None"
    using wf unfolding l by (cases "lw_loggers w (lw_next w)") (auto simp: log_wf_def)
  moreover have "getLogger name w' = (l, w')" by (simp add: getLogger_def w' update_conv')
  moreover have "Logger_log date l level ev w' = Logger_log date (getRoot w') level ev w'" if "level \<ge> LV_DEBUG" for level ev
    using that by (subst Logger_log.simps) (simp add: logger_get_def w' Logger_new_def getRoot_def)
  ultimately show ?thesis by (simp add: w' update_conv')
qed


definition fresh_world :: log_world where
  "fresh_world = \<lparr>lw_loggers = [0 \<mapsto> (Logger_new ''root'')\<lparr>lg_appenders := [1]\<rparr>],
     lw_appenders = [1 \<mapsto> (Appender_new StdoutLogAppender)\<lparr>ap_formatter := lg_formatter (Logger_new ''root'')\<rparr>],
     lw_next = 2, lw_names = [(''root'', 0)], lw_root = 0, lw_global = LV_DEBUG, lw_console = '''', lw_files = Map.empty,
     lw_can_open = (\<lambda>_. True)\<rparr>"

lemma fresh_world_reachable: "log_reachable date fresh_world"
proof (rule lr_new)
  show "LoggerManager_new (\<lambda>_. True) = Inr fresh_world"
    by (simp add: fresh_world_def LoggerManager_new_def alloc_logger_def alloc_appender_def addAppender_def logger_get_def
        appender_get_def logger_put_def appender_put_def Let_def Appender_new_def Logger_new_def)
qed

lemma log_call_returns_witness:
  "\<exists>w'. Logger_log (\<lambda>_ _. Some ''now'') 0 LV_INFO sample_event fresh_world = Some (Inr w') \<and> log_wf w'"
  using log_call_returns [OF fresh_world_reachable [of "\<lambda>_ _. Some ''now''"], of 0 "(Logger_new ''root'')\<lparr>lg_appenders := [1]\<rparr>"
      sample_event LV_INFO]
  by (auto simp: fresh_world_def sample_event_def)

lemma named_logger_reaches_root_witness:
  "let (l, w') = getLogger ''net'' fresh_world in
     getLogger ''net'' w' = (l, w') \<and>
     Logger_log (\<lambda>_ _. Some ''now'') l LV_WARN sample_event w' = Logger_log (\<lambda>_ _. Some ''now'') (getRoot w') LV_WARN sample_event w'"
  using named_logger_reaches_root [OF fresh_world_reachable [of "\<lambda>_ _. Some ''now''"], of "''net''"
      "fst (getLogger ''net'' fresh_world)" "snd (getLogger ''net'' fresh_world)"]
  by (simp add: split_def fresh_world_def)

end
