(* ===== verification/Log_Config.thy ===== *)
theory Log_Config
  imports Logger Ordered_Set
begin

text \<open>
  The configuration of loggers in src/sylar/log.cc: the definitions \<open>LogAppenderDefine\<close> and \<open>LogDefine\<close>, their casts from and to YAML
  text, and the listener that applies a changed set of definitions to the logger manager. \<open>std::set<LogDefine>\<close> is an ordered set
  of Ordered_Set under \<open>operator<\<close>, which compares names only. The messages the casts print for incomplete entries are left out.
\<close>

section \<open>Definitions\<close>

record log_appender_define =
  lad_type :: int
  lad_level :: log_level
  lad_formatter :: string
  lad_file :: string

record log_define =
  ld_name :: string
  ld_level :: log_level
  ld_formatter :: string
  ld_appenders :: "log_appender_define list"

text \<open>\<open>operator<\<close> of \<open>std::string\<close>: lexicographic on unsigned bytes.\<close>

fun str_less :: "string \<Rightarrow> string \<Rightarrow> bool" where
  "str_less _ [] = False"
| "str_less [] (_ # _) = True"
| "str_less (x # xs) (y # ys) =
     ((of_char x :: nat) < of_char y \<or> (of_char x :: nat) = of_char y \<and> str_less xs ys)"

definition LogDefine_less :: "log_define \<Rightarrow> log_define \<Rightarrow> bool" where
  "LogDefine_less a b = str_less (ld_name a) (ld_name b)"

definition LogAppenderDefine_eq :: "log_appender_define \<Rightarrow> log_appender_define \<Rightarrow> bool" where
  "LogAppenderDefine_eq a b \<longleftrightarrow> lad_type a = lad_type b \<and> lad_level a = lad_level b \<and>
     lad_formatter a = lad_formatter b \<and> lad_file a = lad_file b"

definition LogDefine_eq :: "log_define \<Rightarrow> log_define \<Rightarrow> bool" where
  "LogDefine_eq a b \<longleftrightarrow> ld_name a = ld_name b \<and> ld_level a = ld_level b \<and> ld_formatter a = ld_formatter b \<and>
     list_all2 LogAppenderDefine_eq (ld_appenders a) (ld_appenders b)"

section \<open>Reading definitions\<close>

text \<open>
  \<open>n[key].IsDefined() ? n[key].as<std::string>() : d\<close>, and \<open>n["appenders"][x]\<close> for \<open>x\<close> below \<open>n["appenders"].size()\<close>: the elements of a
  sequence, or the entries of a map whose key is the number; a missing entry is undefined.
\<close>

definition field_str :: "yaml_as_str \<Rightarrow> string \<Rightarrow> string \<Rightarrow> yaml \<Rightarrow> string result" where
  "field_str as_str k d n = rbind (y_get k n) (\<lambda>m. case m of None \<Rightarrow> Inr d | Some x \<Rightarrow> as_str x)"

definition y_entries :: "yaml \<Rightarrow> yaml option list" where
  "y_entries n =
     (case n of
        Y_seq ns \<Rightarrow> map Some ns
      | Y_map kvs \<Rightarrow> map (\<lambda>x. map_of kvs (show_nat x)) [0 ..< length kvs]
      | _ \<Rightarrow> [])"

definition appender_define_of :: "yaml_as_str \<Rightarrow> yaml option \<Rightarrow> log_appender_define option result" where
  "appender_define_of as_str u =
     (case u of
        None \<Rightarrow> Inr None
      | Some a \<Rightarrow>
          rbind (y_get ''type'' a) (\<lambda>t. case t of
            None \<Rightarrow> Inr None
          | Some tn \<Rightarrow>
              rbind (as_str tn) (\<lambda>type.
                if type = ''FileLogAppender'' then
                  rbind (y_get ''file'' a) (\<lambda>f. case f of
                    None \<Rightarrow> Inr None
                  | Some fn \<Rightarrow>
                      rbind (as_str fn) (\<lambda>file.
                      rbind (field_str as_str ''formatter'' '''' a) (\<lambda>fm.
                        Inr (Some \<lparr>lad_type = 1, lad_level = LV_UNKNOWN, lad_formatter = fm, lad_file = file\<rparr>))))
                else if type = ''StdoutLogAppender'' then
                  Inr (Some \<lparr>lad_type = 2, lad_level = LV_UNKNOWN, lad_formatter = '''', lad_file = ''''\<rparr>)
                else Inr None)))"

definition appender_defines_of :: "yaml_as_str \<Rightarrow> yaml \<Rightarrow> log_appender_define list result" where
  "appender_defines_of as_str n =
     rbind (y_get ''appenders'' n) (\<lambda>m. case m of
       None \<Rightarrow> Inr []
     | Some aps \<Rightarrow> rbind (rmap (appender_define_of as_str) (y_entries aps)) (\<lambda>xs. Inr (List.map_filter id xs)))"

definition log_define_of :: "yaml_as_str \<Rightarrow> yaml \<Rightarrow> log_define option result" where
  "log_define_of as_str n =
     rbind (y_get ''name'' n) (\<lambda>m. case m of
       None \<Rightarrow> Inr None
     | Some nn \<Rightarrow>
         rbind (as_str nn) (\<lambda>name.
         rbind (field_str as_str ''level'' '''' n) (\<lambda>level.
         rbind (field_str as_str ''formatter'' '''' n) (\<lambda>fm.
         rbind (appender_defines_of as_str n) (\<lambda>aps.
           Inr (Some \<lparr>ld_name = name, ld_level = LogLevel_fromString level, ld_formatter = fm, ld_appenders = aps\<rparr>))))))"

definition cast_to_log_defines :: "yaml_load \<Rightarrow> yaml_as_str \<Rightarrow> string \<Rightarrow> log_define list result" where
  "cast_to_log_defines load as_str v =
     rbind (opt_result ''YAML::ParserException'' (load v)) (\<lambda>node.
     rbind (y_elems node) (\<lambda>ns.
     rbind (rmap (log_define_of as_str) ns) (\<lambda>ds.
       Inr (foldl (\<lambda>s d. ss_insert LogDefine_less d s) [] (List.map_filter id ds)))))"

section \<open>Writing definitions\<close>

definition str_entry :: "string \<Rightarrow> string \<Rightarrow> (string \<times> yaml) list" where
  "str_entry k s = (if s = [] then [] else [(k, Y_scalar s)])"

definition appender_node :: "log_appender_define \<Rightarrow> yaml" where
  "appender_node a =
     Y_map
       ((if lad_type a = 1 then [(''type'', Y_scalar ''FileLogAppender''), (''file'', Y_scalar (lad_file a))]
         else if lad_type a = 2 then [(''type'', Y_scalar ''StdoutLogAppender'')]
         else []) @
        str_entry ''formatter'' (lad_formatter a) @ [(''level'', Y_scalar (LogLevel_toString (lad_level a)))])"

definition define_node :: "log_define \<Rightarrow> yaml" where
  "define_node d =
     Y_map
       ([(''name'', Y_scalar (ld_name d)), (''level'', Y_scalar (LogLevel_toString (ld_level d)))] @
        str_entry ''formatter'' (ld_formatter d) @
        (if ld_appenders d = [] then []
         else [(''appenders'', foldl y_push_back Y_null (map appender_node (ld_appenders d)))]))"

definition cast_from_log_defines :: "yaml_dump \<Rightarrow> log_define list \<Rightarrow> string" where
  "cast_from_log_defines dump v = dump (foldl y_push_back Y_null (map define_node v))"

section \<open>Applying definitions\<close>

fun add_defined :: "nat \<Rightarrow> log_appender_define list \<Rightarrow> log_world \<Rightarrow> log_world result" where
  "add_defined l [] w = Inr w"
| "add_defined l (a # as) w =
     (if lad_type a = 1 \<or> lad_type a = 2 then
        (let (p, w1) = alloc_appender (Appender_new (if lad_type a = 1 then FileLogAppender (lad_file a) else StdoutLogAppender)) w
         in rbind (Appender_setLevel p (lad_level a) w1) (\<lambda>w2.
            rbind (addAppender l p w2) (add_defined l as)))
      else Inl (Null_deref ''ap->setLevel''))"

definition apply_define :: "log_define list \<Rightarrow> log_define \<Rightarrow> log_world \<Rightarrow> log_world result" where
  "apply_define old i w =
     rbind (case ss_find LogDefine_less i old of
              None \<Rightarrow> Inr (alloc_logger (Logger_new (ld_name i)) w)
            | Some j \<Rightarrow> if \<not> LogDefine_eq i j then Inr (getLogger (ld_name i) w) else Inl (Null_deref ''logger->setLevel''))
       (\<lambda>(l, w1).
          rbind (Logger_setLevel l (ld_level i) w1) (\<lambda>w2.
          rbind (if ld_formatter i \<noteq> [] then Logger_setFormatter_pattern l (ld_formatter i) w2 else Inr w2) (\<lambda>w3.
          rbind (add_defined l (ld_appenders i) w3) (\<lambda>w4.
            Inr (snd (addLogger (ld_name i) l w4))))))"

fun apply_defines :: "log_define list \<Rightarrow> log_define list \<Rightarrow> log_world \<Rightarrow> log_world result" where
  "apply_defines old [] w = Inr w"
| "apply_defines old (i # is) w = rbind (apply_define old i w) (apply_defines old is)"

definition remove_define :: "log_define list \<Rightarrow> log_define \<Rightarrow> log_world \<Rightarrow> log_world result" where
  "remove_define new i w =
     (if ss_find LogDefine_less i new = None then
        (let (l, w1) = getLogger (ld_name i) w
         in rbind (Logger_setLevel l 100 w1) (clearAppenders l))
      else Inr w)"

fun remove_defines :: "log_define list \<Rightarrow> log_define list \<Rightarrow> log_world \<Rightarrow> log_world result" where
  "remove_defines new [] w = Inr w"
| "remove_defines new (i # is) w = rbind (remove_define new i w) (remove_defines new is)"

text \<open>The listener; \<open>ev\<close> carries the position, thread and time of its own message.\<close>

definition log_listener ::
    "date_fun \<Rightarrow> log_event \<Rightarrow> log_define list \<Rightarrow> log_define list \<Rightarrow> log_world \<Rightarrow> log_world result option" where
  "log_listener date ev old_value new_value w =
     map_option (\<lambda>r. rbind r (\<lambda>w1. rbind (apply_defines old_value new_value w1) (remove_defines new_value old_value)))
       (SYLAR_LOG_LEVEL date (getRoot w) LV_INFO (ev\<lparr>m_ss := ''one_logger_conf_changed''\<rparr>) w)"

section \<open>The order of definitions\<close>

interpretation string_order: strict_total_order str_less
proof unfold_locales
  fix x y z :: string
  show "\<not> str_less x x" by (induction x) auto
  show tr: "str_less x y \<Longrightarrow> str_less y z \<Longrightarrow> str_less x z" for x y z
  proof (induction x y arbitrary: z rule: str_less.induct)
    case (2 v va)
    then show ?case by (cases z) auto
  next
    case (3 x xs y ys)
    then show ?case by (cases z) auto
  qed simp
  show tot: "x \<noteq> y \<Longrightarrow> str_less x y \<or> str_less y x" for x y
    by (induction x y rule: str_less.induct) (auto simp: neq_Nil_conv dest: nat_neq_iff [THEN iffD1])
  show "str_less x z \<Longrightarrow> str_less x y \<or> str_less y z"
    using tot [of x y] tot [of y z] tr [of y x z] by auto
qed

interpretation define_order: strict_weak_order LogDefine_less
  using string_order.transitive string_order.neg_transitive by unfold_locales (auto simp: LogDefine_less_def)

lemma LogDefine_less_names: "LogDefine_less a b \<or> LogDefine_less b a \<longleftrightarrow> ld_name a \<noteq> ld_name b"
  using string_order.total by (auto simp: LogDefine_less_def)

lemma LogDefine_eq_iff: "LogDefine_eq a b \<longleftrightarrow> a = b"
proof -
  have "LogAppenderDefine_eq = (=)" by (auto simp: LogAppenderDefine_eq_def fun_eq_iff)
  then show ?thesis by (auto simp: LogDefine_eq_def list.rel_eq)
qed


lemma define_unique:
  "sorted_wrt LogDefine_less ds \<Longrightarrow> x \<in> set ds \<Longrightarrow> y \<in> set ds \<Longrightarrow> ld_name x = ld_name y \<Longrightarrow> x = y"
  by (induction ds) (auto simp: LogDefine_less_def)

lemma find_define:
  assumes "sorted_wrt LogDefine_less ds"
  shows "ss_find LogDefine_less d ds = None \<longleftrightarrow> ld_name d \<notin> ld_name ` set ds"
    and "d \<in> set ds \<Longrightarrow> ss_find LogDefine_less d ds = Some d"
proof -
  show *: "ss_find LogDefine_less d ds = None \<longleftrightarrow> ld_name d \<notin> ld_name ` set ds"
    using define_order.ss_find_None_iff [OF assms, of d] LogDefine_less_names by (auto simp: image_iff)
  show "ss_find LogDefine_less d ds = Some d" if "d \<in> set ds"
  proof -
    have "ss_find LogDefine_less d ds \<noteq> None" using * that by auto
    then obtain y where y: "ss_find LogDefine_less d ds = Some y" by blast
    have "y \<in> set ds" "ld_name d = ld_name y"
      using define_order.ss_find_Some_mem [OF y] LogDefine_less_names by auto
    then show ?thesis using define_unique [OF assms that] y by simp
  qed
qed

section \<open>Writing and reading again\<close>

lemma insert_last: "sorted_wrt LogDefine_less (ds @ [d]) \<Longrightarrow> ss_insert LogDefine_less d ds = ds @ [d]"
  by (induction ds) auto

lemma insert_sorted: "sorted_wrt LogDefine_less ds \<Longrightarrow> foldl (\<lambda>s d. ss_insert LogDefine_less d s) [] ds = ds"
proof (induction ds rule: rev_induct)
  case (snoc d ds)
  then show ?case using insert_last [of ds d] by (simp add: sorted_wrt_append)
qed simp

lemma map_filter_Some [simp]: "List.map_filter id (map Some xs) = xs"
  by (induction xs) (simp_all add: map_filter_simps)

lemma rmap_map: "rmap f (map g xs) = rmap (\<lambda>x. f (g x)) xs"
  by (induction xs) simp_all

text \<open>The definitions a cast from text produces.\<close>

definition appender_loaded :: "log_appender_define \<Rightarrow> bool" where
  "appender_loaded a \<longleftrightarrow> lad_level a = LV_UNKNOWN \<and>
     (lad_type a = 1 \<or> lad_type a = 2 \<and> lad_formatter a = '''' \<and> lad_file a = '''')"

definition define_loaded :: "log_define \<Rightarrow> bool" where
  "define_loaded d \<longleftrightarrow> ld_level d \<in> {LV_UNKNOWN .. LV_FATAL} \<and> (\<forall>a \<in> set (ld_appenders d). appender_loaded a)"

lemma appender_define_of_loaded: "appender_define_of as_str u = Inr (Some a) \<Longrightarrow> appender_loaded a"
  by (auto simp: appender_define_of_def appender_loaded_def rbind_Inr_iff split: option.splits if_splits)

lemma rmap_Inr_mem: "rmap f xs = Inr ys \<Longrightarrow> y \<in> set ys \<Longrightarrow> \<exists>x \<in> set xs. f x = Inr y"
  by (induction xs arbitrary: ys) (auto simp: rbind_Inr_iff)

lemma map_filter_id_mem: "x \<in> set (List.map_filter id ys) \<longleftrightarrow> Some x \<in> set ys"
  by (induction ys) (auto simp: map_filter_simps split: option.splits)

lemma appender_defines_of_loaded:
  "appender_defines_of as_str n = Inr aps \<Longrightarrow> a \<in> set aps \<Longrightarrow> appender_loaded a"
  by (auto simp: appender_defines_of_def rbind_Inr_iff map_filter_id_mem split: option.splits
      dest!: rmap_Inr_mem appender_define_of_loaded)

lemma log_define_of_loaded:
  assumes "log_define_of as_str n = Inr (Some d)"
  shows "define_loaded d"
proof -
  have "LogLevel_fromString s \<in> {LV_UNKNOWN .. LV_FATAL}" for s by (simp add: LogLevel_fromString_def)
  then show ?thesis using assms appender_defines_of_loaded
    by (auto simp: log_define_of_def define_loaded_def rbind_Inr_iff split: option.splits)
qed

lemma cast_to_log_defines_loaded:
  assumes "cast_to_log_defines load as_str v = Inr ds"
  shows "sorted_wrt LogDefine_less ds" "\<forall>d \<in> set ds. define_loaded d"
proof -
  from assms obtain ns xs where xs: "rmap (log_define_of as_str) ns = Inr xs"
    and ds: "ds = foldl (\<lambda>s d. ss_insert LogDefine_less d s) [] (List.map_filter id xs)"
    by (auto simp: cast_to_log_defines_def rbind_Inr_iff)
  have "sorted_wrt LogDefine_less (foldl (\<lambda>s d. ss_insert LogDefine_less d s) s es)"
    if "sorted_wrt LogDefine_less s" for s es
    using that by (induction es arbitrary: s) (simp_all add: define_order.sorted_ss_insert)
  then show "sorted_wrt LogDefine_less ds" by (simp add: ds)
  have "set (foldl (\<lambda>s d. ss_insert LogDefine_less d s) s es) \<subseteq> set s \<union> set es" for s es
  proof (induction es arbitrary: s)
    case (Cons e es)
    then show ?case using define_order.set_ss_insert_subset [of e s] by fastforce
  qed simp
  then have "set ds \<subseteq> set (List.map_filter id xs)" using ds by fastforce
  then show "\<forall>d \<in> set ds. define_loaded d"
    using rmap_Inr_mem [OF xs] log_define_of_loaded by (fastforce simp: map_filter_id_mem)
qed


text \<open>What the emitted text is required to give back: the node it was emitted from, and scalars as their text.\<close>

definition yaml_faithful :: "yaml_load \<Rightarrow> yaml_dump \<Rightarrow> yaml_as_str \<Rightarrow> yaml \<Rightarrow> bool" where
  "yaml_faithful load dump as_str n \<longleftrightarrow> load (dump n) = Some n \<and> (\<forall>s. as_str (Y_scalar s) = Inr s)"

lemma appender_define_of_node:
  assumes "\<And>s. as_str (Y_scalar s) = Inr s" "appender_loaded a"
  shows "appender_define_of as_str (Some (appender_node a)) = Inr (Some a)"
  using assms
  by (cases a) (auto simp: appender_define_of_def appender_node_def appender_loaded_def y_get_def field_str_def str_entry_def)

lemma y_entries_list [simp]: "xs \<noteq> [] \<Longrightarrow> y_entries (y_list xs) = map Some xs"
  by (simp add: y_entries_def y_list_def)

lemma log_define_of_node:
  assumes as_str: "\<And>s. as_str (Y_scalar s) = Inr s" and d: "define_loaded d"
  shows "log_define_of as_str (define_node d) = Inr (Some d)"
proof -
  have "appender_defines_of as_str (define_node d) = Inr (ld_appenders d)"
  proof (cases "ld_appenders d = []")
    case False
    have "rmap (appender_define_of as_str) (map Some (map appender_node (ld_appenders d))) = Inr (map Some (ld_appenders d))"
      unfolding rmap_map
      by (rule rmap_Inr) (use d in \<open>simp add: define_loaded_def appender_define_of_node [OF as_str]\<close>)
    with False show ?thesis
      by (simp add: appender_defines_of_def define_node_def y_get_def str_entry_def foldl_push_back)
  qed (simp add: appender_defines_of_def define_node_def y_get_def str_entry_def)
  moreover have "LogLevel_fromString (LogLevel_toString (ld_level d)) = ld_level d"
    using d unfolding level_roundtrip by (auto simp: define_loaded_def)
  moreover have "y_get ''name'' (define_node d) = Inr (Some (Y_scalar (ld_name d)))"
    by (simp add: define_node_def y_get_def)
  moreover have "field_str as_str ''level'' '''' (define_node d) = Inr (LogLevel_toString (ld_level d))"
    by (simp add: define_node_def y_get_def field_str_def as_str)
  moreover have "field_str as_str ''formatter'' '''' (define_node d) = Inr (ld_formatter d)"
    by (simp add: define_node_def y_get_def field_str_def str_entry_def as_str)
  ultimately show ?thesis by (simp add: log_define_of_def as_str)
qed

text \<open>
  C37 (log_defines_roundtrip). A set of logger definitions that was read from YAML text is the same set after it is written out
  and read again, provided the YAML library reads back the document it emitted.
\<close>

theorem log_defines_roundtrip:
  assumes "cast_to_log_defines load as_str v = Inr ds"
    and "yaml_faithful load dump as_str (y_list (map define_node ds))"
  shows "cast_to_log_defines load as_str (cast_from_log_defines dump ds) = Inr ds"
proof -
  note ds = cast_to_log_defines_loaded [OF assms(1)]
  have "rmap (log_define_of as_str) (map define_node ds) = Inr (map Some ds)"
    unfolding rmap_map
    by (rule rmap_Inr) (use assms(2) ds(2) in \<open>simp add: yaml_faithful_def log_define_of_node\<close>)
  then show ?thesis
    using assms(2) insert_sorted [OF ds(1)]
    by (simp add: cast_to_log_defines_def cast_from_log_defines_def yaml_faithful_def foldl_push_back)
qed


definition sample_text_node :: yaml where
  "sample_text_node =
     Y_seq [Y_map [(''name'', Y_scalar ''net''), (''level'', Y_scalar ''info''),
       (''appenders'', Y_seq [Y_map [(''type'', Y_scalar ''FileLogAppender''), (''file'', Y_scalar ''n.log'')], Y_map [(''type'', Y_scalar ''Pipe'')]])],
       Y_map [(''level'', Y_scalar ''warn'')]]"

definition sample_defines :: "log_define list" where
  "sample_defines = [\<lparr>ld_name = ''net'', ld_level = LV_INFO, ld_formatter = '''',
     ld_appenders = [\<lparr>lad_type = 1, lad_level = LV_UNKNOWN, lad_formatter = '''', lad_file = ''n.log''\<rparr>]\<rparr>]"

definition sample_load :: yaml_load where
  "sample_load s = (if s = ''in'' then Some sample_text_node else Some (y_list (map define_node sample_defines)))"

definition sample_as_str :: yaml_as_str where
  "sample_as_str n = (case n of Y_scalar s \<Rightarrow> Inr s | _ \<Rightarrow> Inl (Throws ''YAML::BadConversion''))"

lemma log_defines_roundtrip_witness:
  "cast_to_log_defines sample_load sample_as_str ''in'' = Inr sample_defines \<and>
   cast_to_log_defines sample_load sample_as_str (cast_from_log_defines (\<lambda>_. ''out'') sample_defines) = Inr sample_defines"
proof -
  have r: "cast_to_log_defines sample_load sample_as_str ''in'' = Inr sample_defines" by code_simp
  moreover have "yaml_faithful sample_load (\<lambda>_. ''out'') sample_as_str (y_list (map define_node sample_defines))"
    by (simp add: yaml_faithful_def sample_load_def sample_as_str_def)
  ultimately show ?thesis using log_defines_roundtrip by blast
qed


section \<open>What the listener does\<close>

definition define_formatter :: "log_define \<Rightarrow> log_formatter" where
  "define_formatter d =
     (let f = LogFormatter_new (ld_formatter d)
      in if ld_formatter d = [] \<or> m_isError f then LogFormatter_new default_pattern else f)"

definition defined_appender :: "log_formatter option \<Rightarrow> log_appender_define \<Rightarrow> log_appender" where
  "defined_appender f a =
     \<lparr>ap_kind = (if lad_type a = 1 then FileLogAppender (lad_file a) else StdoutLogAppender), ap_level = lad_level a,
      ap_formatter = f, ap_ok = True, ap_open = False\<rparr>"

text \<open>The definition is registered in \<open>w\<close> as a logger object that \<open>w0\<close> did not have.\<close>

definition define_applied :: "log_world \<Rightarrow> log_world \<Rightarrow> log_define \<Rightarrow> bool" where
  "define_applied w0 w d \<longleftrightarrow>
     (\<exists>l lg. map_of (lw_names w) (ld_name d) = Some l \<and> lw_loggers w l = Some lg \<and> lw_loggers w0 l = None \<and>
        lg_name lg = ld_name d \<and> lg_level lg = ld_level d \<and> lg_formatter lg = Some (define_formatter d) \<and> lg_root lg = None \<and>
        map (lw_appenders w) (lg_appenders lg) = map (\<lambda>a. Some (defined_appender (Some (define_formatter d)) a)) (ld_appenders d))"

text \<open>\<open>w'\<close> has the objects of \<open>w\<close> unchanged, and the names outside \<open>N\<close>.\<close>

definition extends :: "string set \<Rightarrow> log_world \<Rightarrow> log_world \<Rightarrow> bool" where
  "extends N w w' \<longleftrightarrow> lw_loggers w \<subseteq>\<^sub>m lw_loggers w' \<and> lw_appenders w \<subseteq>\<^sub>m lw_appenders w' \<and>
     (\<forall>n. n \<notin> N \<longrightarrow> map_of (lw_names w') n = map_of (lw_names w) n) \<and>
     lw_root w' = lw_root w \<and> lw_console w' = lw_console w \<and> lw_files w' = lw_files w"

lemma extends_trans: "extends N w w' \<Longrightarrow> extends N' w' w'' \<Longrightarrow> extends (N \<union> N') w w''"
  unfolding extends_def by (auto intro: map_le_trans)

lemma add_defined_spec:
  assumes "log_wf w" "lw_loggers w l = Some lg" "\<forall>a \<in> set as. lad_type a = 1 \<or> lad_type a = 2"
  shows "\<exists>w' ps. add_defined l as w = Inr w' \<and> log_wf w' \<and> 
     lw_loggers w' = (lw_loggers w)(l \<mapsto> lg\<lparr>lg_appenders := lg_appenders lg @ ps\<rparr>) \<and>
     lw_appenders w \<subseteq>\<^sub>m lw_appenders w' \<and> map (lw_appenders w') ps = map (\<lambda>a. Some (defined_appender (lg_formatter lg) a)) as \<and>
     lw_names w' = lw_names w \<and> lw_root w' = lw_root w \<and> lw_console w' = lw_console w \<and> lw_files w' = lw_files w"
  using assms
proof (induction as arbitrary: w lg)
  case Nil
  then show ?case by (auto intro!: exI [of _ "[]"])
next
  case (Cons a as)
  let ?p = "lw_next w" and ?ap = "defined_appender (lg_formatter lg) a"
  let ?w = "w\<lparr>lw_next := Suc ?p, lw_appenders := (lw_appenders w)(?p \<mapsto> ?ap),
      lw_loggers := (lw_loggers w)(l \<mapsto> lg\<lparr>lg_appenders := lg_appenders lg @ [?p]\<rparr>)\<rparr>"
  let ?k = "if lad_type a = 1 then FileLogAppender (lad_file a) else StdoutLogAppender"
  let ?w1 = "appender_put ?p (Appender_new ?k) (w\<lparr>lw_next := Suc ?p\<rparr>)"
  let ?w2 = "appender_put ?p ((Appender_new ?k)\<lparr>ap_level := lad_level a\<rparr>) ?w1"
  have 1: "alloc_appender (Appender_new ?k) w = (?p, ?w1)" by (simp add: alloc_appender_def)
  have 2: "Appender_setLevel ?p (lad_level a) ?w1 = Inr ?w2"
    by (simp add: Appender_setLevel_def appender_get_def appender_put_def)
  have 3: "addAppender l ?p ?w2 = Inr ?w"
    using Cons.prems by (simp add: addAppender_def appender_get_def logger_get_def appender_put_def logger_put_def
        Appender_new_def defined_appender_def)
  have wf: "log_wf ?w"
    using alloc_appender_wf [OF Cons.prems(1) 1] appender_ops_wf(1) [OF _ 2] addAppender_wf [OF _ 3] by blast
  have step: "add_defined l (a # as) w = add_defined l as ?w"
    using Cons.prems 1 2 3 by simp
  have "\<exists>w' ps. add_defined l as ?w = Inr w' \<and> log_wf w' \<and>
     lw_loggers w' = (lw_loggers w)(l \<mapsto> lg\<lparr>lg_appenders := lg_appenders lg @ ?p # ps\<rparr>) \<and>
     (lw_appenders w)(?p \<mapsto> ?ap) \<subseteq>\<^sub>m lw_appenders w' \<and>
     map (lw_appenders w') ps = map (\<lambda>a. Some (defined_appender (lg_formatter lg) a)) as \<and>
     lw_names w' = lw_names w \<and> lw_root w' = lw_root w \<and> lw_console w' = lw_console w \<and> lw_files w' = lw_files w"
    using Cons.IH [OF wf, of "lg\<lparr>lg_appenders := lg_appenders lg @ [?p]\<rparr>"] Cons.prems(3)
    by (simp del: fun_upd_apply add: fun_upd_same)
  then obtain w' ps where w': "add_defined l as ?w = Inr w'" "log_wf w'"
    "lw_loggers w' = (lw_loggers w)(l \<mapsto> lg\<lparr>lg_appenders := lg_appenders lg @ ?p # ps\<rparr>)"
    "(lw_appenders w)(?p \<mapsto> ?ap) \<subseteq>\<^sub>m lw_appenders w'"
    "map (lw_appenders w') ps = map (\<lambda>a. Some (defined_appender (lg_formatter lg) a)) as"
    "lw_names w' = lw_names w" "lw_root w' = lw_root w" "lw_console w' = lw_console w" "lw_files w' = lw_files w"
    by blast
  have "lw_appenders w \<subseteq>\<^sub>m (lw_appenders w)(?p \<mapsto> ?ap)"
    using fresh_address(1) [OF Cons.prems(1)] by (auto simp: map_le_def)
  then have "lw_appenders w \<subseteq>\<^sub>m lw_appenders w'" using w'(4) by (rule map_le_trans)
  moreover have "lw_appenders w' ?p = Some ?ap" using w'(4) by (auto simp: map_le_def)
  ultimately show ?case unfolding step using w' by (intro exI [of _ w'] exI [of _ "?p # ps"]) simp
qed


lemma apply_define_new:
  assumes "log_wf w" "ss_find LogDefine_less d old = None" "\<forall>a \<in> set (ld_appenders d). lad_type a = 1 \<or> lad_type a = 2"
  shows "\<exists>w'. apply_define old d w = Inr w' \<and> log_wf w' \<and> define_applied w w' d \<and> extends {ld_name d} w w'"
proof -
  let ?l = "lw_next w"
  let ?w1 = "logger_put ?l (Logger_new (ld_name d)) (w\<lparr>lw_next := Suc ?l\<rparr>)"
  let ?lg = "(Logger_new (ld_name d))\<lparr>lg_level := ld_level d, lg_formatter := Some (define_formatter d)\<rparr>"
  let ?w3 = "logger_put ?l ?lg (w\<lparr>lw_next := Suc ?l\<rparr>)"
  have 1: "alloc_logger (Logger_new (ld_name d)) w = (?l, ?w1)" by (simp add: alloc_logger_def)
  obtain w2 where 2: "Logger_setLevel ?l (ld_level d) ?w1 = Inr w2"
    "w2 = logger_put ?l ((Logger_new (ld_name d))\<lparr>lg_level := ld_level d\<rparr>) ?w1"
    by (simp add: Logger_setLevel_def logger_get_def logger_put_def)
  have 3: "(if ld_formatter d \<noteq> [] then Logger_setFormatter_pattern ?l (ld_formatter d) w2 else Inr w2) = Inr ?w3"
    by (auto simp: 2(2) Logger_setFormatter_pattern_def Logger_setFormatter_def logger_get_def logger_put_def define_formatter_def
        Logger_new_def Let_def)
  have "log_wf ?w1" using alloc_wf [OF assms(1), of "Logger_new (ld_name d)"] 1 by (simp add: Logger_new_def)
  then have "log_wf w2" using logger_ops_wf(3) 2(1) by blast
  then have "log_wf ?w3" using 3 logger_ops_wf(4) by (auto simp: Logger_setFormatter_pattern_def Let_def split: if_splits)
  moreover have "lw_loggers ?w3 ?l = Some ?lg" by (simp add: logger_put_def)
  ultimately obtain w4 ps where w4: "add_defined ?l (ld_appenders d) ?w3 = Inr w4" "log_wf w4"
    "lw_loggers w4 = (lw_loggers ?w3)(?l \<mapsto> ?lg\<lparr>lg_appenders := ps\<rparr>)" "lw_appenders w \<subseteq>\<^sub>m lw_appenders w4"
    "map (lw_appenders w4) ps = map (\<lambda>a. Some (defined_appender (Some (define_formatter d)) a)) (ld_appenders d)"
    "lw_names w4 = lw_names w" "lw_root w4 = lw_root w" "lw_console w4 = lw_console w" "lw_files w4 = lw_files w"
    using add_defined_spec [of ?w3 ?l ?lg "ld_appenders d"] assms(3) by (auto simp: Logger_new_def logger_put_def)
  let ?w' = "snd (addLogger (ld_name d) ?l w4)"
  have "apply_define old d w = Inr ?w'"
    using assms(2) 1 2(1) 3 w4(1) by (simp add: apply_define_def)
  moreover have "log_wf ?w'" using names_wf [OF w4(2), of ?l] w4(3) by (simp add: addLogger_def)
  moreover have "define_applied w ?w' d"
    using w4(3,5) fresh_address(2) [OF assms(1)] by (simp add: define_applied_def addLogger_def update_conv' Logger_new_def)
  moreover have "extends {ld_name d} w ?w'"
    using w4 fresh_address(2) [OF assms(1)]
    by (auto simp: extends_def addLogger_def update_conv' logger_put_def map_le_def)
  ultimately show ?thesis by blast
qed


lemma define_applied_extends:
  assumes "define_applied w0 w d" "extends N w w'" "ld_name d \<notin> N"
  shows "define_applied w0 w' d"
proof -
  from assms(1) obtain l lg where l: "map_of (lw_names w) (ld_name d) = Some l" "lw_loggers w l = Some lg"
    "lw_loggers w0 l = None" "lg_name lg = ld_name d" "lg_level lg = ld_level d"
    "lg_formatter lg = Some (define_formatter d)" "lg_root lg = None"
    "map (lw_appenders w) (lg_appenders lg) = map (\<lambda>a. Some (defined_appender (Some (define_formatter d)) a)) (ld_appenders d)"
    by (auto simp: define_applied_def)
  have "lw_appenders w p \<noteq> None" if "p \<in> set (lg_appenders lg)" for p
  proof -
    have "lw_appenders w p \<in> set (map (lw_appenders w) (lg_appenders lg))" using that by simp
    then show ?thesis unfolding l(8) by auto
  qed
  then have "map (lw_appenders w') (lg_appenders lg) = map (lw_appenders w) (lg_appenders lg)"
    using assms(2) by (auto simp: extends_def map_le_def dom_def)
  moreover have "lw_loggers w' l = Some lg" "map_of (lw_names w') (ld_name d) = Some l"
    using assms(2,3) l(1,2) by (auto simp: extends_def map_le_def dom_def)
  ultimately show ?thesis using l by (auto simp: define_applied_def)
qed

lemma define_applied_base: "define_applied w1 w d \<Longrightarrow> extends N w0 w1 \<Longrightarrow> define_applied w0 w d"
proof -
  assume d: "define_applied w1 w d" and e: "extends N w0 w1"
  have "lw_loggers w0 l = None" if "lw_loggers w1 l = None" for l
    using e that by (cases "lw_loggers w0 l") (auto simp: extends_def map_le_def dom_def)
  then show ?thesis using d unfolding define_applied_def by blast
qed

lemma apply_defines_new:
  assumes "log_wf w" "sorted_wrt LogDefine_less new" "\<forall>d \<in> set new. ss_find LogDefine_less d old = None"
    and "\<forall>d \<in> set new. \<forall>a \<in> set (ld_appenders d). lad_type a = 1 \<or> lad_type a = 2"
  shows "\<exists>w'. apply_defines old new w = Inr w' \<and> log_wf w' \<and> (\<forall>d \<in> set new. define_applied w w' d) \<and>
    extends (ld_name ` set new) w w'"
  using assms
proof (induction new arbitrary: w)
  case Nil
  then show ?case by (simp add: extends_def)
next
  case (Cons d ds)
  obtain w1 where w1: "apply_define old d w = Inr w1" "log_wf w1" "define_applied w w1 d" "extends {ld_name d} w w1"
    using apply_define_new [of w d old] Cons.prems by auto
  obtain w2 where w2: "apply_defines old ds w1 = Inr w2" "log_wf w2" "\<forall>d \<in> set ds. define_applied w1 w2 d"
    "extends (ld_name ` set ds) w1 w2"
    using Cons.IH [OF w1(2)] Cons.prems by auto
  have "ld_name d \<notin> ld_name ` set ds" using Cons.prems(2) by (auto simp: LogDefine_less_def)
  then have "define_applied w w2 d" using define_applied_extends [OF w1(3) w2(4)] by blast
  moreover have "\<forall>d \<in> set ds. define_applied w w2 d" using w2(3) define_applied_base [OF _ w1(4)] by blast
  moreover have "extends (ld_name ` set (d # ds)) w w2" using extends_trans [OF w1(4) w2(4)] by simp
  ultimately show ?case using w1(1) w2(1,2) by simp
qed

text \<open>A logger that accepts no event of the library's levels and has no appenders.\<close>

definition silenced :: "log_world \<Rightarrow> string \<Rightarrow> bool" where
  "silenced w n \<longleftrightarrow> (\<exists>l lg. map_of (lw_names w) n = Some l \<and> lw_loggers w l = Some lg \<and> lg_level lg = 100 \<and> lg_appenders lg = [])"

text \<open>Removing loggers: names stay, and loggers outside \<open>L\<close> do not change.\<close>

definition retires :: "nat set \<Rightarrow> log_world \<Rightarrow> log_world \<Rightarrow> bool" where
  "retires L w w' \<longleftrightarrow> map_of (lw_names w) \<subseteq>\<^sub>m map_of (lw_names w') \<and> lw_appenders w' = lw_appenders w \<and>
     (\<forall>n l. map_of (lw_names w') n = Some l \<longrightarrow> map_of (lw_names w) n = Some l \<or> lw_loggers w l = None) \<and>
     lw_root w' = lw_root w \<and> lw_console w' = lw_console w \<and> lw_files w' = lw_files w \<and>
     (\<forall>l lg. lw_loggers w l = Some lg \<longrightarrow>
        lw_loggers w' l = Some lg \<or> l \<in> L \<and> lw_loggers w' l = Some (lg\<lparr>lg_level := 100, lg_appenders := []\<rparr>))"

lemma remove_define_spec:
  assumes "log_wf w" "ss_find LogDefine_less d new = None"
  shows "\<exists>w'. remove_define new d w = Inr w' \<and> log_wf w' \<and> silenced w' (ld_name d) \<and>
    retires {l. map_of (lw_names w) (ld_name d) = Some l} w w'"
proof -
  obtain l w1 where g: "getLogger (ld_name d) w = (l, w1)" by (cases "getLogger (ld_name d) w")
  have wf1: "log_wf w1" by (rule getLogger_wf [OF assms(1) g])
  have n: "map_of (lw_names w1) (ld_name d) = Some l" "map_of (lw_names w) \<subseteq>\<^sub>m map_of (lw_names w1)"
    "lw_appenders w1 = lw_appenders w" "lw_root w1 = lw_root w" "lw_console w1 = lw_console w" "lw_files w1 = lw_files w"
    "lw_loggers w \<subseteq>\<^sub>m lw_loggers w1" "lw_loggers w l = None \<or> map_of (lw_names w) (ld_name d) = Some l"
    using g fresh_address(2) [OF assms(1)]
    by (auto simp: getLogger_def alloc_logger_def logger_put_def update_conv' map_le_def Let_def split: option.splits)
  have new: "map_of (lw_names w) m = Some k \<or> lw_loggers w k = None" if "map_of (lw_names w1) m = Some k" for m k
    using g that fresh_address(2) [OF assms(1)]
    by (auto simp: getLogger_def alloc_logger_def logger_put_def update_conv' split: option.splits if_splits)
  have "lw_loggers w1 l \<noteq> None" using wf1 n(1) unfolding log_wf_def by blast
  then obtain lg where lg: "lw_loggers w1 l = Some lg" by blast
  let ?w' = "logger_put l (lg\<lparr>lg_level := 100, lg_appenders := []\<rparr>) w1"
  obtain w2 where w2: "Logger_setLevel l 100 w1 = Inr w2" "clearAppenders l w2 = Inr ?w'"
    using lg by (auto simp: Logger_setLevel_def clearAppenders_def logger_get_def logger_put_def)
  have "remove_define new d w = Inr ?w'" using assms(2) g w2 by (simp add: remove_define_def)
  moreover have "log_wf ?w'" using logger_ops_wf(2,3) wf1 w2 by blast
  moreover have "silenced ?w' (ld_name d)" using n(1) by (simp add: silenced_def logger_put_def)
  moreover have "retires {l. map_of (lw_names w) (ld_name d) = Some l} w ?w'"
    using n lg new by (auto simp: retires_def logger_put_def map_le_def dom_def)
  ultimately show ?thesis by blast
qed


lemma retires_logger:
  "retires L w w' \<Longrightarrow> lw_loggers w l = Some lg \<Longrightarrow>
   lw_loggers w' l = Some lg \<or> l \<in> L \<and> lw_loggers w' l = Some (lg\<lparr>lg_level := 100, lg_appenders := []\<rparr>)"
  by (simp add: retires_def)

lemma retires_name:
  "retires L w w' \<Longrightarrow> map_of (lw_names w') n = Some l \<Longrightarrow> map_of (lw_names w) n = Some l \<or> lw_loggers w l = None"
  by (simp add: retires_def)

lemma retires_trans:
  assumes r: "retires L w w'" and r': "retires L' w' w''"
  shows "retires (L \<union> L') w w''"
proof -
  note k = retires_logger [OF r] and k' = retires_logger [OF r']
  have "lw_loggers w'' l = Some lg \<or> l \<in> L \<union> L' \<and> lw_loggers w'' l = Some (lg\<lparr>lg_level := 100, lg_appenders := []\<rparr>)"
    if "lw_loggers w l = Some lg" for l lg
    using k [OF that] k' by fastforce
  moreover have "map_of (lw_names w) n = Some l \<or> lw_loggers w l = None" if "map_of (lw_names w'') n = Some l" for n l
  proof -
    have "map_of (lw_names w') n = Some l \<or> lw_loggers w' l = None" using r' that by (simp add: retires_def)
    moreover have "lw_loggers w l = None" if "lw_loggers w' l = None" using k [of l] that by (cases "lw_loggers w l") auto
    moreover have "map_of (lw_names w) n = Some l \<or> lw_loggers w l = None" if "map_of (lw_names w') n = Some l"
      using r that by (simp add: retires_def)
    ultimately show ?thesis by (elim disjE) simp_all
  qed
  moreover have "map_of (lw_names w) \<subseteq>\<^sub>m map_of (lw_names w'')" using r r' by (auto simp: retires_def intro: map_le_trans)
  ultimately show ?thesis using r r' unfolding retires_def by simp
qed

lemma retires_mono: "retires L w w' \<Longrightarrow> L \<subseteq> L' \<Longrightarrow> retires L' w w'"
  by (simp add: retires_def) (meson subsetD)

lemma silenced_retires: "silenced w n \<Longrightarrow> retires L w w' \<Longrightarrow> silenced w' n"
proof -
  assume "silenced w n" and r: "retires L w w'"
  then obtain l lg where l: "map_of (lw_names w) n = Some l" "lw_loggers w l = Some lg" "lg_level lg = 100" "lg_appenders lg = []"
    by (auto simp: silenced_def)
  have "map_of (lw_names w') n = Some l" using r l(1) by (auto simp: retires_def map_le_def dom_def)
  moreover have "lw_loggers w' l = Some lg \<or> lw_loggers w' l = Some (lg\<lparr>lg_level := 100, lg_appenders := []\<rparr>)"
    using r l(2) by (auto simp: retires_def)
  ultimately show ?thesis using l(3,4) by (auto simp: silenced_def)
qed

text \<open>The loggers registered under the names of definitions.\<close>

definition loggers_of :: "log_world \<Rightarrow> log_define list \<Rightarrow> nat set" where
  "loggers_of w ds = {l. \<exists>d \<in> set ds. map_of (lw_names w) (ld_name d) = Some l}"

lemma remove_defines_spec:
  assumes "log_wf w" "\<forall>d \<in> set ds. ss_find LogDefine_less d new = None"
  shows "\<exists>w'. remove_defines new ds w = Inr w' \<and> log_wf w' \<and> (\<forall>d \<in> set ds. silenced w' (ld_name d)) \<and>
    retires (loggers_of w ds \<union> - dom (lw_loggers w)) w w'"
  using assms
proof (induction ds arbitrary: w)
  case Nil
  then show ?case by (simp add: retires_def)
next
  case (Cons d ds)
  obtain w1 where w1: "remove_define new d w = Inr w1" "log_wf w1" "silenced w1 (ld_name d)"
    "retires {l. map_of (lw_names w) (ld_name d) = Some l} w w1"
    using remove_define_spec [of w d new] Cons.prems by auto
  obtain w2 where w2: "remove_defines new ds w1 = Inr w2" "log_wf w2" "\<forall>d \<in> set ds. silenced w2 (ld_name d)"
    "retires (loggers_of w1 ds \<union> - dom (lw_loggers w1)) w1 w2"
    using Cons.IH [OF w1(2)] Cons.prems by auto
  have "dom (lw_loggers w) \<subseteq> dom (lw_loggers w1)" using retires_logger [OF w1(4)] by (force simp: dom_def)
  moreover have "loggers_of w1 ds \<subseteq> loggers_of w (d # ds) \<union> - dom (lw_loggers w)"
    using retires_name [OF w1(4)] by (fastforce simp: loggers_of_def)
  moreover have "{l. map_of (lw_names w) (ld_name d) = Some l} \<subseteq> loggers_of w (d # ds)" by (auto simp: loggers_of_def)
  ultimately have "{l. map_of (lw_names w) (ld_name d) = Some l} \<union> (loggers_of w1 ds \<union> - dom (lw_loggers w1))
      \<subseteq> loggers_of w (d # ds) \<union> - dom (lw_loggers w)" by blast
  with retires_trans [OF w1(4) w2(4)] have "retires (loggers_of w (d # ds) \<union> - dom (lw_loggers w)) w w2"
    by (rule retires_mono)
  moreover have "silenced w2 (ld_name d)" using w1(3) w2(4) by (rule silenced_retires)
  ultimately show ?case using w1(1) w2(1-3) by simp
qed


lemma define_applied_retires:
  assumes d: "define_applied w0 w1 d" and r: "retires L w1 w2" and L: "L \<subseteq> dom (lw_loggers w0) \<union> - dom (lw_loggers w1)"
  shows "define_applied w0 w2 d"
proof -
  from d obtain l lg where l: "map_of (lw_names w1) (ld_name d) = Some l" "lw_loggers w1 l = Some lg"
    "lw_loggers w0 l = None" "lg_name lg = ld_name d" "lg_level lg = ld_level d"
    "lg_formatter lg = Some (define_formatter d)" "lg_root lg = None"
    "map (lw_appenders w1) (lg_appenders lg) = map (\<lambda>a. Some (defined_appender (Some (define_formatter d)) a)) (ld_appenders d)"
    by (auto simp: define_applied_def)
  have "l \<notin> L" using L l(2,3) by auto
  then have "lw_loggers w2 l = Some lg" using retires_logger [OF r l(2)] by blast
  moreover have "map_of (lw_names w2) (ld_name d) = Some l" "lw_appenders w2 = lw_appenders w1"
    using r l(1) by (auto simp: retires_def map_le_def dom_def)
  ultimately show ?thesis using l by (auto simp: define_applied_def)
qed

lemma listener_message:
  assumes "log_wf w" "\<And>f t. date f t \<noteq> None"
  shows "\<exists>w'. SYLAR_LOG_LEVEL date (getRoot w) level ev w = Some (Inr w') \<and> log_wf w' \<and> same_objects w w'"
proof -
  from assms(1) obtain rt where rt: "lw_loggers w (lw_root w) = Some rt" by (auto simp: log_wf_def)
  show ?thesis
  proof (cases "lg_level rt \<le> level")
    case True
    then show ?thesis
      using rt log_call_wf [OF assms(1) rt, of "ev\<lparr>m_logger := lw_root w, m_level := level\<rparr>" date level] assms(2)
      by (auto simp: SYLAR_LOG_LEVEL_def LogEventWrap_delete_def getRoot_def logger_get_def)
  next
    case False
    then show ?thesis using rt assms(1) by (simp add: SYLAR_LOG_LEVEL_def getRoot_def logger_get_def)
  qed
qed

lemma listener_applies:
  assumes "log_wf w" and "\<And>f t. date f t \<noteq> None"
    and "sorted_wrt LogDefine_less old" "sorted_wrt LogDefine_less new" "ld_name ` set old \<inter> ld_name ` set new = {}"
    and "\<forall>d \<in> set new. \<forall>a \<in> set (ld_appenders d). lad_type a = 1 \<or> lad_type a = 2"
  shows "\<exists>w'. log_listener date ev old new w = Some (Inr w') \<and> log_wf w' \<and> getRoot w' = getRoot w \<and>
    (\<forall>d \<in> set new. define_applied w w' d) \<and> (\<forall>d \<in> set old. silenced w' (ld_name d)) \<and>
    (\<forall>l lg. lw_loggers w l = Some lg \<and> l \<notin> loggers_of w old \<longrightarrow> lw_loggers w' l = Some lg)"
proof -
  let ?ev = "ev\<lparr>m_ss := ''one_logger_conf_changed''\<rparr>"
  obtain w0 where w0: "SYLAR_LOG_LEVEL date (getRoot w) LV_INFO ?ev w = Some (Inr w0)" "log_wf w0" "same_objects w w0"
    using listener_message [OF assms(1), of date LV_INFO ?ev] assms(2) by blast
  then have same: "lw_loggers w0 = lw_loggers w" "lw_names w0 = lw_names w" "lw_root w0 = lw_root w" by (simp_all add: same_objects_def)
  have new: "\<forall>d \<in> set new. ss_find LogDefine_less d old = None" and old: "\<forall>d \<in> set old. ss_find LogDefine_less d new = None"
    using assms(5) by (auto simp: find_define(1) [OF assms(3)] find_define(1) [OF assms(4)])
  obtain w1 where w1: "apply_defines old new w0 = Inr w1" "log_wf w1" "\<forall>d \<in> set new. define_applied w0 w1 d"
    "extends (ld_name ` set new) w0 w1"
    using apply_defines_new [OF w0(2) assms(4) new assms(6)] by blast
  obtain w2 where w2: "remove_defines new old w1 = Inr w2" "log_wf w2" "\<forall>d \<in> set old. silenced w2 (ld_name d)"
    "retires (loggers_of w1 old \<union> - dom (lw_loggers w1)) w1 w2"
    using remove_defines_spec [OF w1(2) old] by blast
  have L: "loggers_of w1 old = loggers_of w old"
    using w1(4) assms(5) same(2) by (force simp: loggers_of_def extends_def)
  have "loggers_of w old \<subseteq> dom (lw_loggers w0)"
    using w0(2) same(2) by (auto simp: loggers_of_def log_wf_def)
  then have "\<forall>d \<in> set new. define_applied w0 w2 d"
    using define_applied_retires [OF _ w2(4)] w1(3) L by blast
  then have "\<forall>d \<in> set new. define_applied w w2 d" by (simp add: define_applied_def same(1))
  moreover have "lw_loggers w2 l = Some lg" if "lw_loggers w l = Some lg" "l \<notin> loggers_of w old" for l lg
  proof -
    have l1: "lw_loggers w1 l = Some lg" using w1(4) that(1) same(1) by (auto simp: extends_def map_le_def dom_def)
    then show ?thesis using retires_logger [OF w2(4) l1] that(2) L by auto
  qed
  moreover have "getRoot w2 = getRoot w" using w1(4) w2(4) same(3) by (simp add: extends_def retires_def getRoot_def)
  moreover have "log_listener date ev old new w = Some (Inr w2)"
    using w0(1) w1(1) w2(1) by (simp add: log_listener_def)
  ultimately show ?thesis using w2(2,3) by blast
qed


text \<open>
  C32 (log_config_applied). When no name occurs both in the old and in the new definitions, the listener returns (a definition kept
  unchanged crashes it, see \<open>unchanged_define_crashes\<close>; for a changed one it adds the new appenders to the old ones): every new
  definition is registered under its name as a fresh logger with its level, its pattern (the default one when the pattern is empty
  or malformed) and its appenders, which all carry that pattern; every old definition's name leads to a logger that accepts no
  level and has no appenders; and every other logger, the root logger included, is what it was. In particular a definition named
  "root" does not change the logger that \<open>SYLAR_LOGGER_ROOT()\<close> returns, and a configured logger has no root to fall back to.
\<close>

theorem log_config_applied:
  assumes "log_reachable date w" and "\<And>f t. date f t \<noteq> None"
    and "sorted_wrt LogDefine_less old" "sorted_wrt LogDefine_less new" "ld_name ` set old \<inter> ld_name ` set new = {}"
    and "\<forall>d \<in> set new. \<forall>a \<in> set (ld_appenders d). lad_type a = 1 \<or> lad_type a = 2"
  shows "\<exists>w'. log_listener date ev old new w = Some (Inr w') \<and> log_wf w' \<and> getRoot w' = getRoot w \<and>
    (\<forall>d \<in> set new. define_applied w w' d) \<and> (\<forall>d \<in> set old. silenced w' (ld_name d)) \<and>
    (\<forall>l lg. lw_loggers w l = Some lg \<and> l \<notin> loggers_of w old \<longrightarrow> lw_loggers w' l = Some lg)"
  using listener_applies [OF log_reachable_wf [OF assms(1)], of date old new ev] assms(2-6) by blast

definition sample_old :: "log_define list" where
  "sample_old = [\<lparr>ld_name = ''db'', ld_level = LV_WARN, ld_formatter = '''', ld_appenders = []\<rparr>]"

lemma log_config_applied_witness:
  "\<exists>w'. log_listener (\<lambda>_ _. Some ''now'') sample_event sample_old sample_defines fresh_world = Some (Inr w') \<and>
     (\<forall>d \<in> set sample_defines. define_applied fresh_world w' d) \<and> silenced w' ''db'' \<and>
     lw_loggers w' 0 = lw_loggers fresh_world 0"
proof -
  have "sorted_wrt LogDefine_less sample_old" "sorted_wrt LogDefine_less sample_defines"
    "ld_name ` set sample_old \<inter> ld_name ` set sample_defines = {}"
    "\<forall>d \<in> set sample_defines. \<forall>a \<in> set (ld_appenders d). lad_type a = 1 \<or> lad_type a = 2"
    by (simp_all add: sample_old_def sample_defines_def)
  from log_config_applied [OF fresh_world_reachable [of "\<lambda>_ _. Some ''now''"] _ this, of sample_event]
  show ?thesis
    by (auto simp: sample_old_def loggers_of_def fresh_world_def)
qed

lemma apply_defines_distinct:
  assumes "sorted_wrt LogDefine_less old" "d \<in> set old"
  shows "apply_defines old new w = Inr w' \<Longrightarrow> d \<notin> set new"
proof (induction new arbitrary: w)
  case (Cons e es)
  have "e \<noteq> d"
    using Cons.prems find_define(2) [OF assms] by (auto simp: rbind_Inr_iff apply_define_def LogDefine_eq_iff)
  with Cons show ?case by (auto simp: rbind_Inr_iff)
qed simp

text \<open>
  Theorem (unchanged_define_crashes). A definition that is the same in the old and in the new set makes the listener fail: it never
  assigns a logger to the local pointer in that case and then uses it. Changing one of two configured loggers is enough.
\<close>

theorem unchanged_define_crashes:
  assumes "sorted_wrt LogDefine_less old" "d \<in> set old" "d \<in> set new"
  shows "\<exists>e. apply_defines old new w = Inl e"
  using apply_defines_distinct [OF assms(1,2), of new w] assms(3) by (cases "apply_defines old new w") auto

lemma unchanged_define_crashes_witness:
  "\<exists>e. apply_defines sample_defines (sample_old @ sample_defines) fresh_world = Inl e"
  using unchanged_define_crashes [of sample_defines "hd sample_defines" "sample_old @ sample_defines" fresh_world]
  by (simp add: sample_defines_def)

end
