(* ===== verification/Locks.thy ===== *)
theory Locks
  imports Prelude
begin

text \<open>
  The locks of src/sylar/thread.h: \<open>Mutex\<close>, \<open>Spin_Mutex\<close> and \<open>RWMutex\<close> with their scoped guards.

  The pthread objects behave as POSIX documents: a mutex has at most one owner, a read-write lock any number of readers or
  one writer. Acquiring is a partial operation, \<open>None\<close> when the caller has to wait in the present state (a thread that
  waits for itself waits forever); releasing what the caller does not hold is undefined. A guard is its flag \<open>m_locked\<close>; the
  mutex it refers to is part of the shared state.
\<close>

section \<open>Mutexes\<close>

type_synonym tid = int

type_synonym mutex = "tid option"

definition Mutex_lock :: "tid \<Rightarrow> mutex \<Rightarrow> mutex option" where
  "Mutex_lock t m = (case m of None \<Rightarrow> Some (Some t) | Some _ \<Rightarrow> None)"

definition Mutex_unlock :: "tid \<Rightarrow> mutex \<Rightarrow> mutex result" where
  "Mutex_unlock t m = (if m = Some t then Inr None else Inl (Undefined ''unlock of a mutex that is not held''))"

definition Spin_Mutex_lock :: "tid \<Rightarrow> mutex \<Rightarrow> mutex option" where
  "Spin_Mutex_lock t m = (case m of None \<Rightarrow> Some (Some t) | Some _ \<Rightarrow> None)"

definition Spin_Mutex_unlock :: "tid \<Rightarrow> mutex \<Rightarrow> mutex result" where
  "Spin_Mutex_unlock t m = (if m = Some t then Inr None else Inl (Undefined ''unlock of a lock that is not held''))"

text \<open>
  Constructors and destructors. POSIX leaves the destruction of a mutex that somebody holds undefined, and likewise of the two other
  kinds of locks.
\<close>

definition Mutex_new :: mutex where
  "Mutex_new = None"

definition Mutex_delete :: "mutex \<Rightarrow> unit result" where
  "Mutex_delete m = (if m = None then Inr () else Inl (Undefined ''destruction of a mutex that is held''))"

definition Spin_Mutex_new :: mutex where
  "Spin_Mutex_new = None"

definition Spin_Mutex_delete :: "mutex \<Rightarrow> unit result" where
  "Spin_Mutex_delete m = (if m = None then Inr () else Inl (Undefined ''destruction of a lock that is held''))"

record rwmutex =
  rw_readers :: "tid list"
  rw_writer :: "tid option"

definition RWMutex_new :: rwmutex where
  "RWMutex_new = \<lparr>rw_readers = [], rw_writer = None\<rparr>"

definition RWMutex_rdlock :: "tid \<Rightarrow> rwmutex \<Rightarrow> rwmutex option" where
  "RWMutex_rdlock t m = (if rw_writer m = None then Some (m\<lparr>rw_readers := t # rw_readers m\<rparr>) else None)"

definition RWMutex_wrlock :: "tid \<Rightarrow> rwmutex \<Rightarrow> rwmutex option" where
  "RWMutex_wrlock t m =
     (if rw_writer m = None \<and> rw_readers m = [] then Some (m\<lparr>rw_writer := Some t\<rparr>) else None)"

definition RWMutex_unlock :: "tid \<Rightarrow> rwmutex \<Rightarrow> rwmutex result" where
  "RWMutex_unlock t m =
     (if rw_writer m = Some t then Inr (m\<lparr>rw_writer := None\<rparr>)
      else if t \<in> set (rw_readers m) then Inr (m\<lparr>rw_readers := remove1 t (rw_readers m)\<rparr>)
      else Inl (Undefined ''unlock of a lock that is not held''))"

definition RWMutex_delete :: "rwmutex \<Rightarrow> unit result" where
  "RWMutex_delete m =
     (if rw_writer m = None \<and> rw_readers m = [] then Inr () else Inl (Undefined ''destruction of a lock that is held''))"

section \<open>Guards\<close>

text \<open>\<open>ScopedLockImpl<T>\<close>, for a \<open>T\<close> with \<open>lock\<close> and \<open>unlock\<close>.\<close>

definition ScopedLockImpl_new :: "(tid \<Rightarrow> 'm \<Rightarrow> 'm option) \<Rightarrow> tid \<Rightarrow> 'm \<Rightarrow> (bool \<times> 'm) option" where
  "ScopedLockImpl_new lock t m = map_option (\<lambda>m1. (True, m1)) (lock t m)"

definition ScopedLockImpl_lock :: "(tid \<Rightarrow> 'm \<Rightarrow> 'm option) \<Rightarrow> tid \<Rightarrow> bool \<times> 'm \<Rightarrow> (bool \<times> 'm) option" where
  "ScopedLockImpl_lock lock t = (\<lambda>(m_locked, m).
     if \<not> m_locked then map_option (\<lambda>m1. (True, m1)) (lock t m) else Some (m_locked, m))"

definition ScopedLockImpl_unlock :: "(tid \<Rightarrow> 'm \<Rightarrow> 'm result) \<Rightarrow> tid \<Rightarrow> bool \<times> 'm \<Rightarrow> (bool \<times> 'm) result" where
  "ScopedLockImpl_unlock unlock t = (\<lambda>(m_locked, m).
     if m_locked then rbind (unlock t m) (\<lambda>m1. Inr (False, m1)) else Inr (m_locked, m))"

definition ScopedLockImpl_delete :: "(tid \<Rightarrow> 'm \<Rightarrow> 'm result) \<Rightarrow> tid \<Rightarrow> bool \<times> 'm \<Rightarrow> 'm result" where
  "ScopedLockImpl_delete unlock t s = rbind (ScopedLockImpl_unlock unlock t s) (\<lambda>(_, m). Inr m)"

definition ReadScopedLockImpl_new :: "tid \<Rightarrow> rwmutex \<Rightarrow> (bool \<times> rwmutex) option" where
  "ReadScopedLockImpl_new t m = map_option (\<lambda>m1. (True, m1)) (RWMutex_rdlock t m)"

definition ReadScopedLockImpl_lock :: "tid \<Rightarrow> bool \<times> rwmutex \<Rightarrow> (bool \<times> rwmutex) option" where
  "ReadScopedLockImpl_lock t = (\<lambda>(m_locked, m).
     if \<not> m_locked then map_option (\<lambda>m1. (True, m1)) (RWMutex_rdlock t m) else Some (m_locked, m))"

definition ReadScopedLockImpl_unlock :: "tid \<Rightarrow> bool \<times> rwmutex \<Rightarrow> (bool \<times> rwmutex) result" where
  "ReadScopedLockImpl_unlock t = (\<lambda>(m_locked, m).
     if m_locked then rbind (RWMutex_unlock t m) (\<lambda>m1. Inr (False, m1)) else Inr (m_locked, m))"

definition ReadScopedLockImpl_delete :: "tid \<Rightarrow> bool \<times> rwmutex \<Rightarrow> rwmutex result" where
  "ReadScopedLockImpl_delete t s = rbind (ReadScopedLockImpl_unlock t s) (\<lambda>(_, m). Inr m)"

definition WriteScopedLockImpl_new :: "tid \<Rightarrow> rwmutex \<Rightarrow> (bool \<times> rwmutex) option" where
  "WriteScopedLockImpl_new t m = map_option (\<lambda>m1. (True, m1)) (RWMutex_wrlock t m)"

definition WriteScopedLockImpl_lock :: "tid \<Rightarrow> bool \<times> rwmutex \<Rightarrow> (bool \<times> rwmutex) option" where
  "WriteScopedLockImpl_lock t = (\<lambda>(m_locked, m).
     if \<not> m_locked then map_option (\<lambda>m1. (True, m1)) (RWMutex_wrlock t m) else Some (m_locked, m))"

definition WriteScopedLockImpl_unlock :: "tid \<Rightarrow> bool \<times> rwmutex \<Rightarrow> (bool \<times> rwmutex) result" where
  "WriteScopedLockImpl_unlock t = (\<lambda>(m_locked, m).
     if m_locked then rbind (RWMutex_unlock t m) (\<lambda>m1. Inr (False, m1)) else Inr (m_locked, m))"

definition WriteScopedLockImpl_delete :: "tid \<Rightarrow> bool \<times> rwmutex \<Rightarrow> rwmutex result" where
  "WriteScopedLockImpl_delete t s = rbind (WriteScopedLockImpl_unlock t s) (\<lambda>(_, m). Inr m)"

section \<open>The contract of a lock and its guard\<close>

text \<open>
  \<open>holds t m\<close> counts how often thread \<open>t\<close> holds \<open>m\<close>. The life of a guard of thread \<open>t\<close> is its construction, any number of
  \<open>lock\<close> and \<open>unlock\<close> calls, and its destruction; in between, the other threads acquire and release as they like.
\<close>

inductive guard_step ::
    "(tid \<Rightarrow> 'm \<Rightarrow> nat) \<Rightarrow> (tid \<Rightarrow> 'm \<Rightarrow> 'm option) set \<Rightarrow> (tid \<Rightarrow> 'm \<Rightarrow> 'm result)
     \<Rightarrow> (tid \<Rightarrow> bool \<times> 'm \<Rightarrow> (bool \<times> 'm) option) \<Rightarrow> (tid \<Rightarrow> bool \<times> 'm \<Rightarrow> (bool \<times> 'm) result)
     \<Rightarrow> tid \<Rightarrow> bool \<times> 'm \<Rightarrow> bool \<times> 'm \<Rightarrow> bool"
  for holds acqs release glock gunlock t where
  gs_lock: "glock t s = Some s' \<Longrightarrow> guard_step holds acqs release glock gunlock t s s'"
| gs_unlock: "gunlock t s = Inr s' \<Longrightarrow> guard_step holds acqs release glock gunlock t s s'"
| gs_other_acquire: "u \<noteq> t \<Longrightarrow> acq \<in> acqs \<Longrightarrow> acq u m = Some m' \<Longrightarrow>
    guard_step holds acqs release glock gunlock t (b, m) (b, m')"
| gs_other_release: "u \<noteq> t \<Longrightarrow> 0 < holds u m \<Longrightarrow> release u m = Inr m' \<Longrightarrow>
    guard_step holds acqs release glock gunlock t (b, m) (b, m')"

text \<open>
  A guard is balanced if, whatever happened since its construction, its flag says whether it holds the mutex, \<open>unlock\<close> and the
  destructor are defined, and the destructor leaves its thread with what it held before the construction.
\<close>

definition balanced ::
    "(tid \<Rightarrow> 'm \<Rightarrow> nat) \<Rightarrow> (tid \<Rightarrow> 'm \<Rightarrow> 'm option) set \<Rightarrow> (tid \<Rightarrow> 'm \<Rightarrow> 'm result)
     \<Rightarrow> (tid \<Rightarrow> 'm \<Rightarrow> (bool \<times> 'm) option) \<Rightarrow> (tid \<Rightarrow> bool \<times> 'm \<Rightarrow> (bool \<times> 'm) option)
     \<Rightarrow> (tid \<Rightarrow> bool \<times> 'm \<Rightarrow> (bool \<times> 'm) result) \<Rightarrow> (tid \<Rightarrow> bool \<times> 'm \<Rightarrow> 'm result) \<Rightarrow> bool" where
  "balanced holds acqs release new glock gunlock delete \<longleftrightarrow>
     (\<forall>t m s b m1. new t m = Some s \<longrightarrow>
        (guard_step holds acqs release glock gunlock t)\<^sup>*\<^sup>* s (b, m1) \<longrightarrow>
        holds t m1 = holds t m + (if b then 1 else 0) \<and>
        (\<exists>m2. gunlock t (b, m1) = Inr (False, m2)) \<and>
        (\<exists>m2. delete t (b, m1) = Inr m2 \<and> holds t m2 = holds t m))"

locale lockable =
  fixes holds :: "tid \<Rightarrow> 'm \<Rightarrow> nat"
    and acqs :: "(tid \<Rightarrow> 'm \<Rightarrow> 'm option) set"
    and release :: "tid \<Rightarrow> 'm \<Rightarrow> 'm result"
  assumes acquire_holds: "acq \<in> acqs \<Longrightarrow> acq t m = Some m' \<Longrightarrow> holds u m' = holds u m + (if u = t then 1 else 0)"
    and release_held: "0 < holds t m \<Longrightarrow>
      \<exists>m'. release t m = Inr m' \<and> (\<forall>u. holds u m' = holds u m - (if u = t then 1 else 0))"
begin

lemma release_holds:
  "0 < holds t m \<Longrightarrow> release t m = Inr m' \<Longrightarrow> holds u m' = holds u m - (if u = t then 1 else 0)"
  using release_held [of t m] by auto

end

locale scoped_guard = lockable +
  fixes acquire :: "tid \<Rightarrow> 'a \<Rightarrow> 'a option"
    and new :: "tid \<Rightarrow> 'a \<Rightarrow> (bool \<times> 'a) option"
    and glock :: "tid \<Rightarrow> bool \<times> 'a \<Rightarrow> (bool \<times> 'a) option"
    and gunlock :: "tid \<Rightarrow> bool \<times> 'a \<Rightarrow> (bool \<times> 'a) result"
    and delete :: "tid \<Rightarrow> bool \<times> 'a \<Rightarrow> 'a result"
  assumes acquire_acqs [simp]: "acquire \<in> acqs"
    and new_eq: "new t m = map_option (\<lambda>m1. (True, m1)) (acquire t m)"
    and glock_eq: "glock t (b, m) = (if b then Some (b, m) else map_option (\<lambda>m1. (True, m1)) (acquire t m))"
    and gunlock_eq: "gunlock t (b, m) = (if b then rbind (release t m) (\<lambda>m1. Inr (False, m1)) else Inr (b, m))"
    and delete_eq: "delete t (b, m) = rbind (gunlock t (b, m)) (\<lambda>(_, m1). Inr m1)"
begin

lemma step_holds:
  assumes "guard_step holds acqs release glock gunlock t s s'" and "holds t (snd s) = n + (if fst s then 1 else 0)"
  shows "holds t (snd s') = n + (if fst s' then 1 else 0)"
  using assms
proof (induction rule: guard_step.induct)
  case (gs_lock s s')
  then show ?case by (cases s) (auto simp: glock_eq acquire_holds [OF acquire_acqs] split: if_splits)
next
  case (gs_unlock s s')
  then show ?case
    using release_holds [of t "snd s"] by (cases s) (auto simp: gunlock_eq result_simps split: if_splits)
qed (auto simp: acquire_holds release_holds)

lemma life_holds:
  assumes "new t m = Some s" and "(guard_step holds acqs release glock gunlock t)\<^sup>*\<^sup>* s s'"
  shows "holds t (snd s') = holds t m + (if fst s' then 1 else 0)"
  using assms(2)
proof (induction rule: rtranclp_induct)
  case base
  then show ?case using assms(1) by (auto simp: new_eq acquire_holds [OF acquire_acqs])
next
  case (step y z)
  then show ?case using step_holds by blast
qed

lemma is_balanced: "balanced holds acqs release new glock gunlock delete"
  unfolding balanced_def
proof (intro allI impI)
  fix t m s b m1
  assume "new t m = Some s" and "(guard_step holds acqs release glock gunlock t)\<^sup>*\<^sup>* s (b, m1)"
  then have h: "holds t m1 = holds t m + (if b then 1 else 0)" using life_holds by fastforce
  show "holds t m1 = holds t m + (if b then 1 else 0) \<and> (\<exists>m2. gunlock t (b, m1) = Inr (False, m2)) \<and>
      (\<exists>m2. delete t (b, m1) = Inr m2 \<and> holds t m2 = holds t m)"
    using h release_held [of t m1] by (cases b) (auto simp: gunlock_eq delete_eq)
qed

end

definition mutex_holds :: "tid \<Rightarrow> mutex \<Rightarrow> nat" where
  "mutex_holds t m = (if m = Some t then 1 else 0)"

definition rw_holds :: "tid \<Rightarrow> rwmutex \<Rightarrow> nat" where
  "rw_holds t m = count_list (rw_readers m) t + (if rw_writer m = Some t then 1 else 0)"

lemma count_list_remove1: "count_list (remove1 x xs) y = count_list xs y - (if x = y then 1 else 0)"
proof (induction xs)
  case (Cons a xs)
  then show ?case by (cases "x \<in> set xs") (auto simp: count_list_0_iff remove1_idem Suc_diff_le Suc_le_eq neq0_conv)
qed simp

lemma RWMutex_unlock_held:
  "0 < rw_holds t m \<Longrightarrow>
   \<exists>m'. RWMutex_unlock t m = Inr m' \<and> (\<forall>u. rw_holds u m' = rw_holds u m - (if u = t then 1 else 0))"
  by (auto simp: RWMutex_unlock_def rw_holds_def count_list_remove1 count_list_0_iff neq0_conv [symmetric] simp del: neq0_conv
      split: if_splits)

interpretation mutex_guard: scoped_guard mutex_holds "{Mutex_lock}" Mutex_unlock Mutex_lock "ScopedLockImpl_new Mutex_lock"
    "ScopedLockImpl_lock Mutex_lock" "ScopedLockImpl_unlock Mutex_unlock" "ScopedLockImpl_delete Mutex_unlock"
  by unfold_locales
    (auto simp: mutex_holds_def Mutex_lock_def Mutex_unlock_def ScopedLockImpl_new_def ScopedLockImpl_lock_def
      ScopedLockImpl_unlock_def ScopedLockImpl_delete_def split: option.splits if_splits)

interpretation spin_guard: scoped_guard mutex_holds "{Spin_Mutex_lock}" Spin_Mutex_unlock Spin_Mutex_lock
    "ScopedLockImpl_new Spin_Mutex_lock" "ScopedLockImpl_lock Spin_Mutex_lock"
    "ScopedLockImpl_unlock Spin_Mutex_unlock" "ScopedLockImpl_delete Spin_Mutex_unlock"
  by unfold_locales
    (auto simp: mutex_holds_def Spin_Mutex_lock_def Spin_Mutex_unlock_def ScopedLockImpl_new_def
      ScopedLockImpl_lock_def ScopedLockImpl_unlock_def ScopedLockImpl_delete_def split: option.splits if_splits)

interpretation rw: lockable rw_holds "{RWMutex_rdlock, RWMutex_wrlock}" RWMutex_unlock
proof unfold_locales
  show "\<exists>m'. RWMutex_unlock t m = Inr m' \<and> (\<forall>u. rw_holds u m' = rw_holds u m - (if u = t then 1 else 0))"
    if "0 < rw_holds t m" for t m using that by (rule RWMutex_unlock_held)
qed (auto simp: rw_holds_def RWMutex_rdlock_def RWMutex_wrlock_def split: if_splits)

interpretation read_guard: scoped_guard rw_holds "{RWMutex_rdlock, RWMutex_wrlock}" RWMutex_unlock RWMutex_rdlock
    ReadScopedLockImpl_new ReadScopedLockImpl_lock ReadScopedLockImpl_unlock ReadScopedLockImpl_delete
  by unfold_locales
    (auto simp: ReadScopedLockImpl_new_def ReadScopedLockImpl_lock_def ReadScopedLockImpl_unlock_def
      ReadScopedLockImpl_delete_def)

interpretation write_guard: scoped_guard rw_holds "{RWMutex_rdlock, RWMutex_wrlock}" RWMutex_unlock RWMutex_wrlock
    WriteScopedLockImpl_new WriteScopedLockImpl_lock WriteScopedLockImpl_unlock WriteScopedLockImpl_delete
  by unfold_locales
    (auto simp: WriteScopedLockImpl_new_def WriteScopedLockImpl_lock_def WriteScopedLockImpl_unlock_def
      WriteScopedLockImpl_delete_def)

section \<open>The life of a lock\<close>

text \<open>
  All guards of one lock, by any threads: each has its kind, its thread and its flag. They come and go in any order.
\<close>

type_synonym 'g guards = "('g \<times> tid \<times> bool) list"

inductive guards_step ::
    "('g \<Rightarrow> tid \<Rightarrow> 'm \<Rightarrow> (bool \<times> 'm) option) \<Rightarrow> ('g \<Rightarrow> tid \<Rightarrow> bool \<times> 'm \<Rightarrow> (bool \<times> 'm) option)
     \<Rightarrow> ('g \<Rightarrow> tid \<Rightarrow> bool \<times> 'm \<Rightarrow> (bool \<times> 'm) result) \<Rightarrow> ('g \<Rightarrow> tid \<Rightarrow> bool \<times> 'm \<Rightarrow> 'm result)
     \<Rightarrow> 'g guards \<times> 'm \<Rightarrow> 'g guards \<times> 'm \<Rightarrow> bool"
  for new glock gunlock delete where
  gl_new: "new g t m = Some (b, m') \<Longrightarrow> guards_step new glock gunlock delete (gs, m) ((g, t, b) # gs, m')"
| gl_lock: "glock g t (b, m) = Some (b', m') \<Longrightarrow>
    guards_step new glock gunlock delete (xs @ (g, t, b) # ys, m) (xs @ (g, t, b') # ys, m')"
| gl_unlock: "gunlock g t (b, m) = Inr (b', m') \<Longrightarrow>
    guards_step new glock gunlock delete (xs @ (g, t, b) # ys, m) (xs @ (g, t, b') # ys, m')"
| gl_delete: "delete g t (b, m) = Inr m' \<Longrightarrow>
    guards_step new glock gunlock delete (xs @ (g, t, b) # ys, m) (xs @ ys, m')"

text \<open>
  The life of a lock is safe if, from its construction on, \<open>unlock\<close> and the destructor of every guard are defined, and the
  lock may be destroyed exactly when no guard that is left holds it.
\<close>

definition safe_life ::
    "('g \<Rightarrow> tid \<Rightarrow> 'm \<Rightarrow> (bool \<times> 'm) option) \<Rightarrow> ('g \<Rightarrow> tid \<Rightarrow> bool \<times> 'm \<Rightarrow> (bool \<times> 'm) option)
     \<Rightarrow> ('g \<Rightarrow> tid \<Rightarrow> bool \<times> 'm \<Rightarrow> (bool \<times> 'm) result) \<Rightarrow> ('g \<Rightarrow> tid \<Rightarrow> bool \<times> 'm \<Rightarrow> 'm result)
     \<Rightarrow> ('m \<Rightarrow> unit result) \<Rightarrow> 'm \<Rightarrow> bool" where
  "safe_life new glock gunlock delete destroy m0 \<longleftrightarrow>
     (\<forall>gs m. (guards_step new glock gunlock delete)\<^sup>*\<^sup>* ([], m0) (gs, m) \<longrightarrow>
        (\<forall>(g, t, b) \<in> set gs. (\<exists>m1. gunlock g t (b, m) = Inr (False, m1)) \<and> (\<exists>m1. delete g t (b, m) = Inr m1)) \<and>
        (destroy m = Inr () \<longleftrightarrow> (\<forall>(g, t, b) \<in> set gs. \<not> b)))"

definition held_by :: "'g guards \<Rightarrow> tid \<Rightarrow> nat" where
  "held_by gs t = length (filter (\<lambda>(g, u, b). u = t \<and> b) gs)"

lemma held_by_simps [simp]:
  "held_by [] t = 0" "held_by (xs @ ys) t = held_by xs t + held_by ys t"
  "held_by ((g, u, b) # gs) t = (if u = t \<and> b then 1 else 0) + held_by gs t"
  by (simp_all add: held_by_def)

lemma held_by_pos: "0 < held_by gs t \<longleftrightarrow> (\<exists>g. (g, t, True) \<in> set gs)"
  by (auto simp: held_by_def filter_empty_conv)

locale lock_object = lockable +
  fixes acquire :: "'g \<Rightarrow> tid \<Rightarrow> 'a \<Rightarrow> 'a option"
    and new :: "'g \<Rightarrow> tid \<Rightarrow> 'a \<Rightarrow> (bool \<times> 'a) option"
    and glock :: "'g \<Rightarrow> tid \<Rightarrow> bool \<times> 'a \<Rightarrow> (bool \<times> 'a) option"
    and gunlock :: "'g \<Rightarrow> tid \<Rightarrow> bool \<times> 'a \<Rightarrow> (bool \<times> 'a) result"
    and delete :: "'g \<Rightarrow> tid \<Rightarrow> bool \<times> 'a \<Rightarrow> 'a result"
    and destroy :: "'a \<Rightarrow> unit result"
    and m0 :: 'a
  assumes guard: "scoped_guard holds acqs release (acquire g) (new g) (glock g) (gunlock g) (delete g)"
    and free_new: "holds t m0 = 0"
    and destroy_iff: "destroy m = Inr () \<longleftrightarrow> (\<forall>t. holds t m = 0)"
begin

lemmas guard_eqs =
  scoped_guard.new_eq [OF guard] scoped_guard.glock_eq [OF guard] scoped_guard.gunlock_eq [OF guard] scoped_guard.delete_eq [OF guard]

lemma acquired: "acquire g t m = Some m' \<Longrightarrow> holds u m' = holds u m + (if u = t then 1 else 0)"
  by (rule acquire_holds [OF scoped_guard.acquire_acqs [OF guard]])

lemma step_held:
  assumes "guards_step new glock gunlock delete s s'" and "\<forall>t. holds t (snd s) = held_by (fst s) t"
  shows "\<forall>t. holds t (snd s') = held_by (fst s') t"
  using assms
proof (induction rule: guards_step.induct)
  case (gl_new g t m b m' gs)
  then show ?case by (auto simp: guard_eqs acquired)
next
  case (gl_lock g t b m b' m' xs ys)
  then show ?case by (auto simp: guard_eqs acquired split: if_splits)
next
  case (gl_unlock g t b m b' m' xs ys)
  then have "0 < holds t m" if b using that by simp
  then have "b \<Longrightarrow> release t m = Inr m' \<Longrightarrow> holds u m' = holds u m - (if u = t then 1 else 0)" for u
    using release_holds by blast
  with gl_unlock show ?case by (auto simp: guard_eqs result_simps split: if_splits)
next
  case (gl_delete g t b m m' xs ys)
  then have "0 < holds t m" if b using that by simp
  then have "b \<Longrightarrow> release t m = Inr m' \<Longrightarrow> holds u m' = holds u m - (if u = t then 1 else 0)" for u
    using release_holds by blast
  with gl_delete show ?case by (auto simp: guard_eqs result_simps split: if_splits)
qed

lemma is_safe: "safe_life new glock gunlock delete destroy m0"
  unfolding safe_life_def
proof (intro allI impI)
  fix gs m
  assume r: "(guards_step new glock gunlock delete)\<^sup>*\<^sup>* ([], m0) (gs, m)"
  have "\<forall>t. holds t (snd s) = held_by (fst s) t" if "(guards_step new glock gunlock delete)\<^sup>*\<^sup>* ([], m0) s" for s
    using that
  proof (induction rule: rtranclp_induct)
    case base
    then show ?case by (simp add: free_new)
  next
    case (step y z)
    then show ?case using step_held by blast
  qed
  from this [OF r] have h: "holds t m = held_by gs t" for t by simp
  have "(\<exists>m1. gunlock g t (b, m) = Inr (False, m1)) \<and> (\<exists>m1. delete g t (b, m) = Inr m1)" if "(g, t, b) \<in> set gs" for g t b
  proof (cases b)
    case True
    then have "0 < holds t m" using that by (auto simp: h held_by_pos)
    then obtain m1 where "release t m = Inr m1" using release_held by blast
    then show ?thesis using True by (simp add: guard_eqs)
  qed (simp add: guard_eqs)
  moreover have "destroy m = Inr () \<longleftrightarrow> (\<forall>(g, t, b) \<in> set gs. \<not> b)"
    unfolding destroy_iff h using held_by_pos [of gs] by (fastforce simp: neq0_conv [symmetric] simp del: neq0_conv)
  ultimately show "(\<forall>(g, t, b) \<in> set gs. (\<exists>m1. gunlock g t (b, m) = Inr (False, m1)) \<and> (\<exists>m1. delete g t (b, m) = Inr m1)) \<and>
      (destroy m = Inr () \<longleftrightarrow> (\<forall>(g, t, b) \<in> set gs. \<not> b))" by blast
qed

end

text \<open>The two kinds of guards of a read-write lock; a mutex has one.\<close>

datatype rw_kind = Reading | Writing

definition rw_acquire :: "rw_kind \<Rightarrow> tid \<Rightarrow> rwmutex \<Rightarrow> rwmutex option" where
  "rw_acquire g = (case g of Reading \<Rightarrow> RWMutex_rdlock | Writing \<Rightarrow> RWMutex_wrlock)"

definition rw_guard_new :: "rw_kind \<Rightarrow> tid \<Rightarrow> rwmutex \<Rightarrow> (bool \<times> rwmutex) option" where
  "rw_guard_new g = (case g of Reading \<Rightarrow> ReadScopedLockImpl_new | Writing \<Rightarrow> WriteScopedLockImpl_new)"

definition rw_guard_lock :: "rw_kind \<Rightarrow> tid \<Rightarrow> bool \<times> rwmutex \<Rightarrow> (bool \<times> rwmutex) option" where
  "rw_guard_lock g = (case g of Reading \<Rightarrow> ReadScopedLockImpl_lock | Writing \<Rightarrow> WriteScopedLockImpl_lock)"

definition rw_guard_unlock :: "rw_kind \<Rightarrow> tid \<Rightarrow> bool \<times> rwmutex \<Rightarrow> (bool \<times> rwmutex) result" where
  "rw_guard_unlock g = (case g of Reading \<Rightarrow> ReadScopedLockImpl_unlock | Writing \<Rightarrow> WriteScopedLockImpl_unlock)"

definition rw_guard_delete :: "rw_kind \<Rightarrow> tid \<Rightarrow> bool \<times> rwmutex \<Rightarrow> rwmutex result" where
  "rw_guard_delete g = (case g of Reading \<Rightarrow> ReadScopedLockImpl_delete | Writing \<Rightarrow> WriteScopedLockImpl_delete)"

interpretation mutex_object: lock_object mutex_holds "{Mutex_lock}" Mutex_unlock "\<lambda>_ :: unit. Mutex_lock"
    "\<lambda>_. ScopedLockImpl_new Mutex_lock" "\<lambda>_. ScopedLockImpl_lock Mutex_lock" "\<lambda>_. ScopedLockImpl_unlock Mutex_unlock"
    "\<lambda>_. ScopedLockImpl_delete Mutex_unlock" Mutex_delete Mutex_new
  by (intro lock_object.intro lock_object_axioms.intro)
    (auto simp: mutex_guard.lockable_axioms mutex_guard.scoped_guard_axioms Mutex_new_def Mutex_delete_def mutex_holds_def)

interpretation spin_object: lock_object mutex_holds "{Spin_Mutex_lock}" Spin_Mutex_unlock "\<lambda>_ :: unit. Spin_Mutex_lock"
    "\<lambda>_. ScopedLockImpl_new Spin_Mutex_lock" "\<lambda>_. ScopedLockImpl_lock Spin_Mutex_lock"
    "\<lambda>_. ScopedLockImpl_unlock Spin_Mutex_unlock" "\<lambda>_. ScopedLockImpl_delete Spin_Mutex_unlock" Spin_Mutex_delete Spin_Mutex_new
  by (intro lock_object.intro lock_object_axioms.intro)
    (auto simp: spin_guard.lockable_axioms spin_guard.scoped_guard_axioms Spin_Mutex_new_def Spin_Mutex_delete_def mutex_holds_def)

interpretation rw_object: lock_object rw_holds "{RWMutex_rdlock, RWMutex_wrlock}" RWMutex_unlock rw_acquire rw_guard_new
    rw_guard_lock rw_guard_unlock rw_guard_delete RWMutex_delete RWMutex_new
proof (intro lock_object.intro lock_object_axioms.intro)
  show "scoped_guard rw_holds {RWMutex_rdlock, RWMutex_wrlock} RWMutex_unlock (rw_acquire g) (rw_guard_new g) (rw_guard_lock g)
      (rw_guard_unlock g) (rw_guard_delete g)" for g
    by (cases g) (simp_all add: rw_acquire_def rw_guard_new_def rw_guard_lock_def rw_guard_unlock_def rw_guard_delete_def
        read_guard.scoped_guard_axioms write_guard.scoped_guard_axioms)
  show "RWMutex_delete m = Inr () \<longleftrightarrow> (\<forall>t. rw_holds t m = 0)" for m
    by (cases "rw_readers m"; cases "rw_writer m") (auto simp: RWMutex_delete_def rw_holds_def)
qed (simp_all add: rw.lockable_axioms RWMutex_new_def rw_holds_def)

section \<open>Properties\<close>

text \<open>
  C38 (guards_balanced). The four guards of the sources are balanced, under every interleaving with other threads.
\<close>

theorem guards_balanced:
  "balanced mutex_holds {Mutex_lock} Mutex_unlock (ScopedLockImpl_new Mutex_lock) (ScopedLockImpl_lock Mutex_lock)
     (ScopedLockImpl_unlock Mutex_unlock) (ScopedLockImpl_delete Mutex_unlock) \<and>
   balanced mutex_holds {Spin_Mutex_lock} Spin_Mutex_unlock (ScopedLockImpl_new Spin_Mutex_lock)
     (ScopedLockImpl_lock Spin_Mutex_lock) (ScopedLockImpl_unlock Spin_Mutex_unlock)
     (ScopedLockImpl_delete Spin_Mutex_unlock) \<and>
   balanced rw_holds {RWMutex_rdlock, RWMutex_wrlock} RWMutex_unlock ReadScopedLockImpl_new ReadScopedLockImpl_lock
     ReadScopedLockImpl_unlock ReadScopedLockImpl_delete \<and>
   balanced rw_holds {RWMutex_rdlock, RWMutex_wrlock} RWMutex_unlock WriteScopedLockImpl_new WriteScopedLockImpl_lock
     WriteScopedLockImpl_unlock WriteScopedLockImpl_delete"
  using mutex_guard.is_balanced spin_guard.is_balanced read_guard.is_balanced write_guard.is_balanced by blast

text \<open>
  C39 (locks_live_safely). A mutex, spin lock or read-write lock that is used through the guards of the sources only, by any threads and in
  any order, is never unlocked by a thread that does not hold it, and when its destructor runs after those of its guards (or after they have let
  go), nobody holds it; a guard that still holds it makes the destructor undefined.
\<close>

theorem locks_live_safely:
  "safe_life (\<lambda>_ :: unit. ScopedLockImpl_new Mutex_lock) (\<lambda>_. ScopedLockImpl_lock Mutex_lock)
     (\<lambda>_. ScopedLockImpl_unlock Mutex_unlock) (\<lambda>_. ScopedLockImpl_delete Mutex_unlock) Mutex_delete Mutex_new \<and>
   safe_life (\<lambda>_ :: unit. ScopedLockImpl_new Spin_Mutex_lock) (\<lambda>_. ScopedLockImpl_lock Spin_Mutex_lock)
     (\<lambda>_. ScopedLockImpl_unlock Spin_Mutex_unlock) (\<lambda>_. ScopedLockImpl_delete Spin_Mutex_unlock) Spin_Mutex_delete Spin_Mutex_new \<and>
   safe_life rw_guard_new rw_guard_lock rw_guard_unlock rw_guard_delete RWMutex_delete RWMutex_new"
  using mutex_object.is_safe spin_object.is_safe rw_object.is_safe by blast

text \<open>The states of a read-write lock under any use by any threads.\<close>

inductive rw_step :: "rwmutex \<Rightarrow> rwmutex \<Rightarrow> bool" where
  rw_rd: "RWMutex_rdlock t m = Some m' \<Longrightarrow> rw_step m m'"
| rw_wr: "RWMutex_wrlock t m = Some m' \<Longrightarrow> rw_step m m'"
| rw_un: "RWMutex_unlock t m = Inr m' \<Longrightarrow> rw_step m m'"

text \<open>
  Theorem (rw_exclusion). While a thread holds a write lock, no other thread holds the lock in any mode; and while anybody holds
  it, in particular the caller itself for reading, a write lock has to wait.
\<close>

theorem rw_exclusion:
  assumes "rw_step\<^sup>*\<^sup>* RWMutex_new m"
  shows "(rw_writer m = Some t \<longrightarrow> rw_holds t m = 1 \<and> (\<forall>u. u \<noteq> t \<longrightarrow> rw_holds u m = 0)) \<and>
    (0 < rw_holds u m \<longrightarrow> RWMutex_wrlock t m = None)"
proof -
  have "rw_writer m \<noteq> None \<longrightarrow> rw_readers m = []"
    using assms
  proof (induction rule: rtranclp_induct)
    case base
    then show ?case by (simp add: RWMutex_new_def)
  next
    case (step m m')
    from step(2,3) show ?case
      by (cases rule: rw_step.cases)
        (auto simp: RWMutex_rdlock_def RWMutex_wrlock_def RWMutex_unlock_def split: if_splits)
  qed
  then show ?thesis
    by (auto simp: rw_holds_def RWMutex_wrlock_def split: if_splits)
qed

theorem rw_exclusion_witness:
  "\<exists>m. rw_step\<^sup>*\<^sup>* RWMutex_new m \<and> rw_holds 7 m = 1 \<and> rw_holds 8 m = 0 \<and> RWMutex_wrlock 8 m = None"
proof -
  let ?m = "RWMutex_new\<lparr>rw_writer := Some 7\<rparr>"
  have "rw_step RWMutex_new ?m"
    by (rule rw_wr [of 7]) (simp add: RWMutex_wrlock_def RWMutex_new_def)
  then have r: "rw_step\<^sup>*\<^sup>* RWMutex_new ?m" by simp
  have "rw_holds 7 ?m = 1" "rw_holds 8 ?m = 0" "RWMutex_wrlock 8 ?m = None"
    using rw_exclusion [OF r, of 7 7] rw_exclusion [OF r, of 8 7] by simp_all
  with r show ?thesis by blast
qed

end
