(* ===== verification/Threads.thy ===== *)
theory Threads
  imports Prelude
begin

text \<open>
  \<open>Semaphore\<close> and \<open>Thread\<close> of src/sylar/thread.h and src/sylar/thread.cc.

  The constructor of \<open>Thread\<close> starts a POSIX thread that runs \<open>Thread::run\<close> on the object under construction and waits on a semaphore
  until \<open>run\<close> has taken what it needs. The answers of the system calls are arguments: \<open>rt\<close> is zero for success. A \<open>sem_wait\<close>
  on a zero semaphore waits (\<open>None\<close>).
\<close>

section \<open>Semaphores\<close>

definition Semaphore_new :: "int \<Rightarrow> nat \<Rightarrow> nat result" where
  "Semaphore_new rt count = (if rt \<noteq> 0 then Inl (Throws ''Sem_init error.'') else Inr count)"

definition Semaphore_wait :: "int \<Rightarrow> nat \<Rightarrow> nat result option" where
  "Semaphore_wait rt sem =
     (if rt \<noteq> 0 then Some (Inl (Throws ''Sem_wait error.''))
      else if sem = 0 then None else Some (Inr (sem - 1)))"

definition Semaphore_notify :: "int \<Rightarrow> nat \<Rightarrow> nat result" where
  "Semaphore_notify rt sem = (if rt \<noteq> 0 then Inl (Throws ''Sem_post error.'') else Inr (sem + 1))"

section \<open>Thread objects\<close>

record 'cb thread =
  th_id :: int
  th_handle :: nat
  th_cb :: "'cb option"
  th_name :: string
  th_sem :: nat

record thread_tls =
  t_thread :: "nat option"
  t_thread_name :: string

definition tls_start :: thread_tls where
  "tls_start = \<lparr>t_thread = None, t_thread_name = ''UNKNOWN''\<rparr>"

text \<open>The constructor up to \<open>m_semaphore.wait()\<close>; \<open>handle\<close> is what \<open>pthread_create\<close> stores in \<open>m_thread\<close>.\<close>

definition Thread_create :: "int \<Rightarrow> nat \<Rightarrow> 'cb option \<Rightarrow> string \<Rightarrow> 'cb thread result" where
  "Thread_create rt handle cb name =
     rbind (Semaphore_new 0 0) (\<lambda>sem.
       if rt \<noteq> 0 then Inl (Throws ''pthread_create error'')
       else Inr \<lparr>th_id = 0, th_handle = handle, th_cb = cb,
                  th_name = (if name = [] then ''UNKNOWN'' else name), th_sem = sem\<rparr>)"

definition Thread_GetThis :: "thread_tls \<Rightarrow> nat option" where
  "Thread_GetThis tls = t_thread tls"

definition Thread_GetName :: "thread_tls \<Rightarrow> string" where
  "Thread_GetName tls = t_thread_name tls"

text \<open>\<open>heap\<close> holds the live \<open>Thread\<close> objects by address.\<close>

definition Thread_SetName ::
    "string \<Rightarrow> thread_tls \<times> (nat \<Rightarrow> 'cb thread option) \<Rightarrow> (thread_tls \<times> (nat \<Rightarrow> 'cb thread option)) result" where
  "Thread_SetName name = (\<lambda>(tls, heap).
     case t_thread tls of
       None \<Rightarrow> Inr (tls\<lparr>t_thread_name := name\<rparr>, heap)
     | Some a \<Rightarrow>
         (case heap a of
            None \<Rightarrow> Inl (Undefined ''t_thread of a destroyed Thread'')
          | Some th \<Rightarrow> Inr (tls\<lparr>t_thread_name := name\<rparr>, heap(a \<mapsto> th\<lparr>th_name := name\<rparr>))))"

text \<open>The destructor answers whether it detaches the thread.\<close>

definition Thread_delete :: "'cb thread \<Rightarrow> bool" where
  "Thread_delete th = (th_handle th \<noteq> 0)"

text \<open>\<open>join\<close> answers whether it calls \<open>pthread_join\<close>, which returns \<open>rt\<close>.\<close>

definition Thread_join :: "int \<Rightarrow> 'cb thread \<Rightarrow> (bool \<times> 'cb thread) result" where
  "Thread_join rt th =
     (if th_handle th \<noteq> 0 then
        if rt \<noteq> 0 then Inl (Throws ''pthread_join error'') else Inr (True, th\<lparr>th_handle := 0\<rparr>)
      else Inr (False, th))"

text \<open>
  \<open>Thread::run\<close> in three parts: up to the swap of the callback, the notification, and the call. It also
  gives the system the first 15 characters of the name.
\<close>

definition run_prepare :: "nat \<Rightarrow> int \<Rightarrow> 'cb thread \<Rightarrow> 'cb option \<times> thread_tls \<times> string \<times> 'cb thread" where
  "run_prepare a tid th =
     (th_cb th, \<lparr>t_thread = Some a, t_thread_name = th_name th\<rparr>, take 15 (th_name th),
      th\<lparr>th_id := tid, th_cb := None\<rparr>)"

definition run_notify :: "int \<Rightarrow> 'cb thread \<Rightarrow> 'cb thread result" where
  "run_notify rt th = rbind (Semaphore_notify rt (th_sem th)) (\<lambda>sem. Inr (th\<lparr>th_sem := sem\<rparr>))"

definition run_call :: "'cb option \<Rightarrow> 'cb result" where
  "run_call cb = (case cb of None \<Rightarrow> Inl (Throws ''bad_function_call'') | Some f \<Rightarrow> Inr f)"

section \<open>Starting a thread\<close>

datatype creator_pc = C_wait | C_returned | C_threw

datatype 'cb run_pc = R_begin | R_notify "'cb option" | R_call "'cb option"

record 'cb start_state =
  st_obj :: "'cb thread option"
  st_creator :: creator_pc
  st_run :: "'cb run_pc"
  st_tls :: thread_tls
  st_os_name :: string

text \<open>
  The creating thread, the new thread \<open>tid\<close> and the owner of the object at \<open>a\<close>, who may destroy it once the constructor has
  returned. A constructor that throws ends the life of the object.
\<close>

inductive start_step :: "nat \<Rightarrow> int \<Rightarrow> 'cb start_state \<Rightarrow> 'cb start_state \<Rightarrow> bool" for a tid where
  start_begin: "st_run s = R_begin \<Longrightarrow> st_obj s = Some th \<Longrightarrow> run_prepare a tid th = (cb, tls, osn, th1) \<Longrightarrow>
    start_step a tid s (s\<lparr>st_obj := Some th1, st_run := R_notify cb, st_tls := tls, st_os_name := osn\<rparr>)"
| start_post: "st_run s = R_notify cb \<Longrightarrow> st_obj s = Some th \<Longrightarrow> run_notify 0 th = Inr th1 \<Longrightarrow>
    start_step a tid s (s\<lparr>st_obj := Some th1, st_run := R_call cb\<rparr>)"
| new_returns: "st_creator s = C_wait \<Longrightarrow> st_obj s = Some th \<Longrightarrow> Semaphore_wait 0 (th_sem th) = Some (Inr n) \<Longrightarrow>
    start_step a tid s (s\<lparr>st_obj := Some (th\<lparr>th_sem := n\<rparr>), st_creator := C_returned\<rparr>)"
| new_throws: "st_creator s = C_wait \<Longrightarrow> st_obj s = Some th \<Longrightarrow> Semaphore_wait rt (th_sem th) = Some (Inl e) \<Longrightarrow>
    start_step a tid s (s\<lparr>st_obj := None, st_creator := C_threw\<rparr>)"
| owner_deletes: "st_creator s = C_returned \<Longrightarrow> start_step a tid s (s\<lparr>st_obj := None\<rparr>)"

definition start_init :: "'cb thread \<Rightarrow> 'cb start_state" where
  "start_init th = \<lparr>st_obj = Some th, st_creator = C_wait, st_run = R_begin, st_tls = tls_start, st_os_name = []\<rparr>"

definition start_inv :: "nat \<Rightarrow> int \<Rightarrow> 'cb option \<Rightarrow> string \<Rightarrow> 'cb start_state \<Rightarrow> bool" where
  "start_inv a tid cb name s \<longleftrightarrow>
     (st_creator s = C_wait \<longrightarrow> (\<exists>th. st_obj s = Some th \<and> th_name th = name \<and>
        th_sem th = (if \<exists>c. st_run s = R_call c then 1 else 0) \<and>
        (if st_run s = R_begin then th_cb th = cb else th_cb th = None \<and> th_id th = tid))) \<and>
     (st_creator s = C_returned \<longrightarrow> st_run s = R_call cb \<and>
        (\<forall>th. st_obj s = Some th \<longrightarrow> th_name th = name \<and> th_cb th = None \<and> th_id th = tid)) \<and>
     (st_creator s \<noteq> C_threw \<and> st_run s \<noteq> R_begin \<longrightarrow> st_run s \<in> {R_notify cb, R_call cb} \<and>
        st_tls s = \<lparr>t_thread = Some a, t_thread_name = name\<rparr> \<and> st_os_name s = take 15 name)"

lemma start_inv_step: "start_step a tid s s' \<Longrightarrow> start_inv a tid cb name s \<Longrightarrow> start_inv a tid cb name s'"
proof (induction rule: start_step.induct)
  case (start_begin s th cb' tls osn th1)
  then show ?case by (cases "st_creator s") (auto simp: start_inv_def run_prepare_def)
next
  case (start_post s cb' th th1)
  then show ?case by (cases "st_creator s") (auto simp: start_inv_def run_notify_def Semaphore_notify_def)
next
  case (new_returns s th n)
  then show ?case by (auto simp: start_inv_def Semaphore_wait_def split: if_splits)
qed (auto simp: start_inv_def)

lemma start_inv_reachable:
  assumes "Thread_create 0 handle cb name = Inr th" and "(start_step a tid)\<^sup>*\<^sup>* (start_init th) s"
  shows "start_inv a tid cb (th_name th) s"
  using assms(2)
proof (induction rule: rtranclp_induct)
  case base
  then show ?case
    using assms(1) by (auto simp: start_inv_def start_init_def Thread_create_def Semaphore_new_def)
next
  case (step y z)
  then show ?case using start_inv_step by blast
qed

text \<open>The new thread takes its steps, then the constructor returns.\<close>

lemma start_completes:
  assumes "start_inv a tid cb name s" and "st_creator s = C_wait"
  shows "\<exists>s'. (start_step a tid)\<^sup>*\<^sup>* s s' \<and> st_creator s' = C_returned"
proof -
  have fin: "\<exists>s'. (start_step a tid)\<^sup>*\<^sup>* s s' \<and> st_creator s' = C_returned"
    if inv: "start_inv a tid cb name s" "st_creator s = C_wait" "st_run s = R_call c" for s c
  proof -
    obtain th where th: "st_obj s = Some th" "th_sem th = 1" using inv by (auto simp: start_inv_def)
    then have "start_step a tid s (s\<lparr>st_obj := Some (th\<lparr>th_sem := 0\<rparr>), st_creator := C_returned\<rparr>)"
      by (intro new_returns [OF inv(2)]) (simp_all add: Semaphore_wait_def)
    then show ?thesis by (intro exI conjI, rule r_into_rtranclp) simp_all
  qed
  have mid: "\<exists>s'. (start_step a tid)\<^sup>*\<^sup>* s s' \<and> st_creator s' = C_returned"
    if inv: "start_inv a tid cb name s" "st_creator s = C_wait" "st_run s = R_notify c" for s c
  proof -
    obtain th where th: "st_obj s = Some th" using inv by (auto simp: start_inv_def)
    let ?s = "s\<lparr>st_obj := Some (th\<lparr>th_sem := th_sem th + 1\<rparr>), st_run := R_call c\<rparr>"
    have st: "start_step a tid s ?s"
      by (intro start_post [OF inv(3) th]) (simp add: run_notify_def Semaphore_notify_def)
    with fin [OF start_inv_step [OF st inv(1)], of c] inv(2) show ?thesis
      by (auto intro: converse_rtranclp_into_rtranclp)
  qed
  show ?thesis
  proof (cases "st_run s")
    case R_begin
    obtain th where th: "st_obj s = Some th" using assms by (auto simp: start_inv_def)
    obtain cb' tls osn th1 where p: "run_prepare a tid th = (cb', tls, osn, th1)" by (cases "run_prepare a tid th")
    note st = start_begin [OF R_begin th p]
    with mid [OF start_inv_step [OF st assms(1)], of cb'] assms(2) show ?thesis
      by (auto intro: converse_rtranclp_into_rtranclp)
  qed (use mid fin assms in blast)+
qed

text \<open>
  C40 (thread_start_handshake). However the threads interleave, a \<open>Thread\<close> constructor that has returned leaves a new thread that has
  taken its callback, knows its name (the system the first 15 characters of it), has stored its id in the object and
  will not touch the object again, so that its owner may destroy it at once. As long as the
  constructor waits, the new thread finds the object alive, and the constructor can still return.
\<close>

theorem thread_start_handshake:
  assumes "Thread_create 0 handle cb name = Inr th" and "(start_step a tid)\<^sup>*\<^sup>* (start_init th) s"
  shows "(st_creator s = C_returned \<longrightarrow> st_run s = R_call cb \<and>
      Thread_GetThis (st_tls s) = Some a \<and>
      Thread_GetName (st_tls s) = (if name = [] then ''UNKNOWN'' else name) \<and>
      st_os_name s = take 15 (Thread_GetName (st_tls s)) \<and>
      (\<forall>th'. st_obj s = Some th' \<longrightarrow> th_id th' = tid \<and> th_cb th' = None)) \<and>
    (st_creator s = C_wait \<longrightarrow> st_obj s \<noteq> None \<and>
      (\<exists>s'. (start_step a tid)\<^sup>*\<^sup>* s s' \<and> st_creator s' = C_returned))"
proof -
  have n: "th_name th = (if name = [] then ''UNKNOWN'' else name)"
    using assms(1) by (auto simp: Thread_create_def Semaphore_new_def)
  note inv = start_inv_reachable [OF assms]
  show ?thesis
    using inv start_completes [OF inv] n
    by (auto simp: start_inv_def Thread_GetThis_def Thread_GetName_def)
qed

theorem thread_start_handshake_witness:
  "\<exists>th :: nat thread. Thread_create 0 5 (Some 9) ''worker_thread_0042'' = Inr th \<and>
     (\<exists>s. (start_step 1 77)\<^sup>*\<^sup>* (start_init th) s \<and> st_creator s = C_returned \<and> st_run s = R_call (Some 9) \<and>
        st_os_name s = ''worker_thread_0'')"
proof -
  let ?th = "\<lparr>th_id = 0, th_handle = 5, th_cb = Some (9 :: nat), th_name = ''worker_thread_0042'', th_sem = 0\<rparr>"
  have c: "Thread_create 0 5 (Some 9) ''worker_thread_0042'' = Inr ?th"
    by (simp add: Thread_create_def Semaphore_new_def)
  obtain s where s: "(start_step 1 77)\<^sup>*\<^sup>* (start_init ?th) s" "st_creator s = C_returned"
    using thread_start_handshake [OF c rtranclp.rtrancl_refl, of 1 77] by (auto simp: start_init_def)
  from thread_start_handshake [OF c s(1)] s(2) have "st_run s = R_call (Some 9)" "st_os_name s = ''worker_thread_0''"
    by auto
  with c s show ?thesis by blast
qed

text \<open>A joined thread is neither joined nor detached again.\<close>

lemma join_once:
  "Thread_join 0 th = Inr (b, th') \<Longrightarrow> Thread_join rt th' = Inr (False, th') \<and> \<not> Thread_delete th'"
  by (auto simp: Thread_join_def Thread_delete_def split: if_splits)

end
