(* ===== verification/Address.thy ===== *)
theory Address
  imports Ordered_Set
begin

text \<open>
  src/sylar/address.cc: the comparison operators, \<open>getFamily\<close> and \<open>toString\<close>. An address is the \<open>getAddrLen()\<close> bytes at \<open>getAddr()\<close>.
  (\<open>Address\<close> is abstract and the repository defines no complete class below it.)
\<close>

type_synonym address = "8 word list"

text \<open>
  \<open>getAddr()->sa_family\<close>: a \<open>sockaddr\<close> of Linux begins with 16 bits, here of a little-endian machine; reading beyond the
  address is undefined. \<open>toString\<close> has a return type and no return statement.
\<close>

definition getFamily :: "address \<Rightarrow> 16 word result" where
  "getFamily a =
     (case a of
        lo # hi # _ \<Rightarrow> Inr (ucast lo OR push_bit 8 (ucast hi))
      | _ \<Rightarrow> Inl (Undefined ''getAddr()->sa_family''))"

definition toString :: "address \<Rightarrow> string result" where
  "toString a = Inl (Undefined ''Address::toString without return'')"

text \<open>The sign of \<open>memcmp\<close>: the first differing byte of the first \<open>n\<close>, compared as unsigned.\<close>

fun memcmp :: "address \<Rightarrow> address \<Rightarrow> nat \<Rightarrow> int" where
  "memcmp (x # xs) (y # ys) (Suc n) = (if x < y then -1 else if y < x then 1 else memcmp xs ys n)"
| "memcmp _ _ _ = 0"

definition Address_less :: "address \<Rightarrow> address \<Rightarrow> bool" where
  "Address_less l r =
     (let count = min (length l) (length r); result = memcmp l r count
      in if result < 0 then True
         else if result > 0 then False
         else if length l < length r then True
         else False)"

definition Address_eq :: "address \<Rightarrow> address \<Rightarrow> bool" where
  "Address_eq l r \<longleftrightarrow> length l = length r \<and> memcmp l r (length l) = 0"

definition Address_neq :: "address \<Rightarrow> address \<Rightarrow> bool" where
  "Address_neq l r \<longleftrightarrow> \<not> Address_eq l r"

lemma Address_less_simps [simp]:
  "\<not> Address_less l []" "Address_less [] (y # ys)"
  "Address_less (x # xs) (y # ys) \<longleftrightarrow> x < y \<or> x = y \<and> Address_less xs ys"
  by (auto simp: Address_less_def Let_def)

lemma Address_less_lexordp: "Address_less l r \<longleftrightarrow> ord_class.lexordp l r"
proof (induction l arbitrary: r)
  case Nil
  then show ?case by (cases r) auto
next
  case (Cons x xs)
  then show ?case by (cases r) auto
qed

lemma Address_eq_iff: "Address_eq l r \<longleftrightarrow> l = r"
proof -
  have "length l = length r \<Longrightarrow> memcmp l r (length l) = 0 \<longleftrightarrow> l = r"
    by (induction l r rule: list_induct2) auto
  then show ?thesis by (auto simp: Address_eq_def)
qed

interpretation address_order: strict_total_order Address_less
proof unfold_locales
  fix x y z :: address
  show "\<not> Address_less x x" by (induction x) auto
  show "Address_less x y \<Longrightarrow> Address_less y z \<Longrightarrow> Address_less x z"
    unfolding Address_less_lexordp by (rule lexordp_trans)
  show tot: "x \<noteq> y \<Longrightarrow> Address_less x y \<or> Address_less y x" for x y
    unfolding Address_less_lexordp using lexordp_linear by blast
  show "Address_less x z \<Longrightarrow> Address_less x y \<or> Address_less y z"
    using tot [of x y] unfolding Address_less_lexordp by (metis lexordp_trans)
qed

text \<open>
  Theorem (address_order_total). The operators are the lexicographic order on the bytes: a strict total order for which exactly
  one of less, equal and greater holds, with \<open>==\<close> and \<open>!=\<close> in agreement, so that addresses can be keys of ordered containers.
\<close>

theorem address_order_total:
  "(Address_less l r \<longleftrightarrow> ord_class.lexordp l r) \<and>
   (Address_eq l r \<longleftrightarrow> l = r) \<and>
   (Address_neq l r \<longleftrightarrow> Address_less l r \<or> Address_less r l) \<and>
   \<not> (Address_less l r \<and> Address_less r l) \<and>
   ss_find Address_less l (ss_insert Address_less l []) = Some l"
  using address_order.total [of l r] address_order.asym [of l r]
    address_order.ss_find_total [of "ss_insert Address_less l []" l]
  by (auto simp: Address_less_lexordp [symmetric] Address_eq_iff Address_neq_def)

text \<open>
  Theorem (address_family). The family of an address of two bytes or more is the number its first two bytes stand for, so that equal
  addresses have the same family; a shorter address has none.
\<close>

theorem address_family:
  "(case getFamily a of Inr v \<Rightarrow> 2 \<le> length a \<and> unat v = unat (a ! 0) + 256 * unat (a ! 1) | Inl e \<Rightarrow> length a < 2) \<and>
   (Address_eq a b \<longrightarrow> getFamily a = getFamily b)"
proof -
  have sum: "unat (ucast lo OR push_bit 8 (ucast hi) :: 16 word) = unat lo + 256 * unat hi" for lo hi :: "8 word"
  proof -
    have "(ucast lo :: 16 word) AND push_bit 8 (ucast hi) = 0"
      by (rule bit_word_eqI) (auto simp: bit_simps dest: bit_imp_le_length)
    then have or: "(ucast lo :: 16 word) OR push_bit 8 (ucast hi) = ucast lo + push_bit 8 (ucast hi)"
      by (simp add: disjunctive_add_eq_or)
    have "unat lo < 256" "unat hi < 256" using unsigned_less [of lo] unsigned_less [of hi] by simp_all
    moreover have "unat (push_bit 8 (ucast hi) :: 16 word) = 256 * unat hi"
      using \<open>unat hi < 256\<close> by (simp add: push_bit_eq_mult unat_word_ariths unsigned_ucast_eq take_bit_eq_mod)
    moreover have "unat (ucast lo :: 16 word) = unat lo" using \<open>unat lo < 256\<close> by (simp add: unsigned_ucast_eq take_bit_eq_mod)
    ultimately show ?thesis unfolding or by (simp add: unat_word_ariths)
  qed
  show ?thesis
    by (cases a rule: remdups_adj.cases) (auto simp: getFamily_def Address_eq_iff sum)
qed

theorem address_family_witness:
  "getFamily ([2, 0, 80] :: address) = Inr 2 \<and> unat (2 :: 16 word) = unat (2 :: 8 word) + 256 * unat (0 :: 8 word)"
  using address_family [of "[2, 0, 80]" "[2, 0, 80]"] by (simp add: getFamily_def)

end
