(* ===== verification/Util.thy ===== *)
theory Util
  imports Prelude
begin

text \<open>
  src/sylar/util.cc: the clock readings, the fiber id for log events, and backtraces. \<open>sec\<close> and \<open>usec\<close> are the fields
  \<open>gettimeofday\<close> fills; \<open>frames\<close> are the symbols of the whole call stack, of which \<open>backtrace\<close> gives at most \<open>size\<close>, and
  \<open>None\<close> stands for a \<open>backtrace_symbols\<close> that fails.
\<close>

definition Get_current_ms :: "int \<Rightarrow> int \<Rightarrow> u64" where
  "Get_current_ms sec usec = word_of_int (sec * 1000 + c_div usec 1000)"

definition Get_current_us :: "int \<Rightarrow> int \<Rightarrow> u64" where
  "Get_current_us sec usec = word_of_int (sec * 1000 * 1000 + usec)"

definition GetFiberId :: "u64 \<Rightarrow> u32" where
  "GetFiberId fid = ucast fid"

text \<open>The loop variable is a \<open>size_t\<close>: a negative \<open>skip\<close> becomes a huge index.\<close>

definition Backtrace :: "string list option \<Rightarrow> int \<Rightarrow> int \<Rightarrow> string list \<Rightarrow> string list" where
  "Backtrace frames sz skip bt =
     (case frames of
        None \<Rightarrow> bt
      | Some fs \<Rightarrow> bt @ drop (nat (skip mod 2 ^ 64)) (take (nat sz) fs))"

definition Backtrace_to_string :: "string list option \<Rightarrow> int \<Rightarrow> int \<Rightarrow> string \<Rightarrow> string" where
  "Backtrace_to_string frames sz skip prefix =
     concat (map (\<lambda>i. prefix @ i @ [CHR 0x0A]) (Backtrace frames sz skip []))"

text \<open>
  Theorem (clock_readings). For the clock values \<open>gettimeofday\<close> can give before the year 294000, neither reading wraps around: the
  microseconds are exact and the milliseconds are their quotient by 1000, so a later clock never gives a smaller reading.
\<close>

theorem clock_readings:
  assumes "0 \<le> sec" and "sec < 9000000000000" and "0 \<le> usec" and "usec < 1000000"
  shows "uint (Get_current_us sec usec) = sec * 1000000 + usec \<and>
    uint (Get_current_ms sec usec) = uint (Get_current_us sec usec) div 1000"
proof -
  have d: "c_div usec 1000 = usec div 1000" using assms(3) by (auto simp: c_div_def sgn_if)
  have "uint (word_of_int x :: u64) = x" if "0 \<le> x" "x < 2 ^ 64" for x
    using that by (simp add: unsigned_of_int take_bit_int_eq_self)
  note fits = this
  have us: "uint (Get_current_us sec usec) = sec * 1000000 + usec"
    unfolding Get_current_us_def by (subst fits) (use assms in simp_all)
  have "uint (Get_current_ms sec usec) = sec * 1000 + usec div 1000"
    unfolding Get_current_ms_def d by (subst fits) (use assms in simp_all)
  moreover have "(sec * 1000000 + usec) div 1000 = sec * 1000 + usec div 1000"
    by (simp add: algebra_simps)
  ultimately show ?thesis using us by simp
qed

theorem clock_readings_witness:
  "uint (Get_current_ms 1646000000 123456) = 1646000000123 \<and> uint (Get_current_us 1646000000 123456) = 1646000000123456"
  using clock_readings [of 1646000000 123456] by simp

text \<open>
  Theorem (backtrace_bounds). A backtrace has at most \<open>size - skip\<close> frames, and none when \<open>skip\<close> is negative.
\<close>

lemma backtrace_bounds:
  assumes "sz < 2 ^ 31" and "- (2 ^ 31) \<le> skip" and "skip < 2 ^ 31"
  shows "Backtrace (Some fs) sz skip bt = bt @ (if skip < 0 then [] else drop (nat skip) (take (nat sz) fs))"
proof -
  have "skip mod 2 ^ 64 = (if skip < 0 then skip + 2 ^ 64 else skip)"
    using assms(2,3) by (auto simp: mod_pos_pos_trivial intro: mod_pos_geq) (smt (verit) mod_add_self2 mod_pos_pos_trivial)
  then show ?thesis
    using assms by (auto simp: Backtrace_def)
qed

end
