(* ===== verification/Scheduler_Bag.thy ===== *)
theory Scheduler_Bag
  imports Scheduler_System
begin

text \<open>
  What the scheduler promises its clients, as an abstract system: a bag of tasks and, for every
  thread, the fiber it is running. A task is submitted, started on one thread, or dropped; a running
  fiber finishes its turn or goes back into the bag. The lists, locals and program counters of
  theory \<open>Scheduler\<close> implement this system: every interleaving of the workers is a run of it, so that
  no task is lost or duplicated and none runs on a thread it is not meant for.
\<close>

section \<open>Runs and simulations\<close>

inductive runs :: "('e \<Rightarrow> 's \<Rightarrow> 's \<Rightarrow> bool) \<Rightarrow> 's \<Rightarrow> 'e list \<Rightarrow> 's \<Rightarrow> bool" for st where
  runs_Nil [simp, intro!]: "runs st s [] s"
| runs_Cons: "st e s s' \<Longrightarrow> runs st s' es s'' \<Longrightarrow> runs st s (e # es) s''"

inductive_simps runs_Nil_iff [simp]: "runs st s [] s'"
inductive_simps runs_Cons_iff: "runs st s (e # es) s''"

lemma runs_append: "runs st s es s' \<Longrightarrow> runs st s' fs s'' \<Longrightarrow> runs st s (es @ fs) s''"
  by (induction rule: runs.induct) (auto intro: runs_Cons)

text \<open>
  A concrete step relation implements an abstract one, under an invariant: every concrete step is an
  abstract step with some event, and the event says how the concrete states are related.
\<close>

locale simulation =
  fixes cstep :: "'s \<Rightarrow> 's \<Rightarrow> bool" and inv :: "'s \<Rightarrow> bool" and abs_of :: "'s \<Rightarrow> 'a"
    and astep :: "'e \<Rightarrow> 'a \<Rightarrow> 'a \<Rightarrow> bool" and ok :: "'e \<Rightarrow> 's \<Rightarrow> 's \<Rightarrow> bool"
  assumes inv_step: "inv s \<Longrightarrow> cstep s s' \<Longrightarrow> inv s'"
    and simulate: "inv s \<Longrightarrow> cstep s s' \<Longrightarrow> \<exists>e. astep e (abs_of s) (abs_of s') \<and> ok e s s'"
begin

lemma inv_steps: "cstep\<^sup>*\<^sup>* s s' \<Longrightarrow> inv s \<Longrightarrow> inv s'"
  by (induction rule: rtranclp_induct) (auto intro: inv_step)

lemma simulate_steps:
  "cstep\<^sup>*\<^sup>* s s' \<Longrightarrow> inv s \<Longrightarrow>
   \<exists>es. runs (\<lambda>e x y. cstep x y \<and> ok e x y) s es s' \<and> runs astep (abs_of s) es (abs_of s')"
proof (induction rule: rtranclp_induct)
  case base
  have "runs (\<lambda>e x y. cstep x y \<and> ok e x y) s [] s \<and> runs astep (abs_of s) [] (abs_of s)" by simp
  then show ?case by blast
next
  case (step s1 s2)
  then obtain es where es: "runs (\<lambda>e x y. cstep x y \<and> ok e x y) s es s1"
    "runs astep (abs_of s) es (abs_of s1)" by blast
  have "inv s1" using inv_steps step.hyps(1) step.prems by blast
  from simulate [OF this step.hyps(2)] obtain e where
    "astep e (abs_of s1) (abs_of s2)" "ok e s1 s2" by blast
  then have "runs (\<lambda>e x y. cstep x y \<and> ok e x y) s1 [e] s2" "runs astep (abs_of s1) [e] (abs_of s2)"
    using step.hyps(2) by (auto intro: runs_Cons)
  with es show ?case by (blast intro: runs_append)
qed

end

section \<open>The abstract system\<close>

record 'cb bag =
  bg_pending :: "'cb task multiset"
  bg_running :: "int \<Rightarrow> nat option"

datatype 'cb bag_event =
    Ev_submit "'cb task"
  | Ev_start int "'cb task" nat
  | Ev_drop int "'cb task"
  | Ev_finish int nat
  | Ev_requeue int nat
  | Ev_quiet

text \<open>The fiber that a task names and the task that a fiber is queued as when it yielded.\<close>

fun runs_as :: "'cb task \<Rightarrow> nat \<Rightarrow> bool" where
  "runs_as t f = (case ft_item t of FT_fiber (Some f') \<Rightarrow> f' = f | FT_cb (Some c) \<Rightarrow> True | _ \<Rightarrow> False)"

definition yielded :: "nat \<Rightarrow> 'cb task" where
  "yielded f = \<lparr>ft_item = FT_fiber (Some f), ft_thread = -1\<rparr>"

inductive bag_step :: "'cb bag_event \<Rightarrow> 'cb bag \<Rightarrow> 'cb bag \<Rightarrow> bool" where
  bag_submit: "bag_step (Ev_submit t) B (B\<lparr>bg_pending := bg_pending B + {#t#}\<rparr>)"
| bag_start:
    "bg_pending B = P + {#t#} \<Longrightarrow> \<not> pinned_elsewhere tid t \<Longrightarrow> bg_running B tid = None \<Longrightarrow> runs_as t f \<Longrightarrow>
     bag_step (Ev_start tid t f) B (B\<lparr>bg_pending := P, bg_running := (bg_running B)(tid \<mapsto> f)\<rparr>)"
| bag_drop:
    "bg_pending B = P + {#t#} \<Longrightarrow> \<not> pinned_elsewhere tid t \<Longrightarrow>
     bag_step (Ev_drop tid t) B (B\<lparr>bg_pending := P\<rparr>)"
| bag_finish:
    "bg_running B tid = Some f \<Longrightarrow>
     bag_step (Ev_finish tid f) B (B\<lparr>bg_running := (bg_running B)(tid := None)\<rparr>)"
| bag_requeue:
    "bg_running B tid = Some f \<Longrightarrow>
     bag_step (Ev_requeue tid f) B
       (B\<lparr>bg_pending := bg_pending B + {#yielded f#}, bg_running := (bg_running B)(tid := None)\<rparr>)"
| bag_quiet: "bag_step Ev_quiet B B"

inductive_simps bag_step_iffs:
  "bag_step (Ev_submit t) B B'" "bag_step (Ev_start tid t f) B B'" "bag_step (Ev_drop tid t) B B'"
  "bag_step (Ev_finish tid f) B B'" "bag_step (Ev_requeue tid f) B B'" "bag_step Ev_quiet B B'"

text \<open>The tasks that a run puts into the bag and the tasks it takes out.\<close>

fun ev_put :: "'cb bag_event \<Rightarrow> 'cb task multiset" where
  "ev_put (Ev_submit t) = {#t#}"
| "ev_put (Ev_requeue tid f) = {#yielded f#}"
| "ev_put _ = {#}"

fun ev_taken :: "'cb bag_event \<Rightarrow> 'cb task multiset" where
  "ev_taken (Ev_start tid t f) = {#t#}"
| "ev_taken (Ev_drop tid t) = {#t#}"
| "ev_taken _ = {#}"

fun ev_submitted :: "'cb bag_event \<Rightarrow> 'cb task list" where
  "ev_submitted (Ev_submit t) = [t]"
| "ev_submitted _ = []"

lemma bag_step_balance:
  "bag_step e B B' \<Longrightarrow> bg_pending B + ev_put e = bg_pending B' + ev_taken e"
  by (induction rule: bag_step.induct) simp_all

lemma bag_run_balance:
  "runs bag_step B es B' \<Longrightarrow>
   bg_pending B + sum_list (map ev_put es) = bg_pending B' + sum_list (map ev_taken es)"
proof (induction rule: runs.induct)
  case (runs_Cons e B B1 es B2)
  have "bg_pending B + sum_list (map ev_put (e # es)) =
      (bg_pending B + ev_put e) + sum_list (map ev_put es)" by simp
  also have "\<dots> = (bg_pending B1 + sum_list (map ev_put es)) + ev_taken e"
    by (simp add: bag_step_balance [OF runs_Cons.hyps(1)])
  also have "\<dots> = bg_pending B2 + sum_list (map ev_taken (e # es))"
    by (simp add: runs_Cons.IH)
  finally show ?case .
qed simp

section \<open>The abstraction\<close>

text \<open>
  A worker between the locked search and the dispatch holds its task in the local \<open>ft\<close>: the task is no
  longer in the queue and not yet running. The empty alternatives are no task.
\<close>

definition hand :: "'cb worker \<Rightarrow> 'cb task multiset" where
  "hand w = (if w_pc w = At_dispatch \<and> ft_item (w_ft w) \<notin> {FT_fiber None, FT_cb None}
             then {#w_ft w#} else {#})"

definition hands :: "(int \<Rightarrow> 'cb worker option) \<Rightarrow> 'cb task multiset" where
  "hands thr = (\<Sum>tid \<in> dom thr. hand (the (thr tid)))"

definition pc_runs :: "pc \<Rightarrow> nat option" where
  "pc_runs p = (if active p then Some (pc_fiber p) else None)"

definition bag_of :: "'cb world \<Rightarrow> 'cb bag" where
  "bag_of W = \<lparr>bg_pending = mset (m_fibers (w_sched W)) + hands (w_thr W),
     bg_running = (\<lambda>tid. Option.bind (w_thr W tid) (\<lambda>w. pc_runs (w_pc w)))\<rparr>"

definition hands_ok :: "'cb world \<Rightarrow> bool" where
  "hands_ok W \<longleftrightarrow> finite (dom (w_thr W)) \<and>
     (\<forall>tid w. w_thr W tid = Some w \<longrightarrow> w_pc w = At_dispatch \<longrightarrow> \<not> pinned_elsewhere tid (w_ft w))"

text \<open>What an event says about the concrete states before and after it.\<close>

fun event_ok :: "'cb bag_event \<Rightarrow> 'cb world \<Rightarrow> 'cb world \<Rightarrow> bool" where
  "event_ok (Ev_submit t) W W' \<longleftrightarrow> m_fibers (w_sched W') = m_fibers (w_sched W) @ [t]"
| "event_ok (Ev_start tid t f) W W' \<longleftrightarrow>
     map_option (\<lambda>w. cpu (w_tls w)) (w_thr W' tid) = Some (Some f) \<and>
     st_of (w_glob W') f = Some EXEC \<and>
     (case ft_item t of
        FT_fiber _ \<Rightarrow> st_of (w_glob W) f \<notin> {None, Some TERM_st, Some EXEC}
      | FT_cb c \<Rightarrow> Option.bind (fheap (w_glob W') f) fb_cb = c)"
| "event_ok (Ev_drop tid t) W W' \<longleftrightarrow>
     (case ft_item t of
        FT_fiber (Some f) \<Rightarrow> st_of (w_glob W) f = Some TERM_st
      | FT_fiber None \<Rightarrow> False
      | FT_cb c \<Rightarrow> c = None)"
| "event_ok (Ev_finish tid f) W W' \<longleftrightarrow> st_of (w_glob W) f \<notin> {None, Some READY}"
| "event_ok (Ev_requeue tid f) W W' \<longleftrightarrow> st_of (w_glob W) f = Some READY"
| "event_ok Ev_quiet W W' \<longleftrightarrow> True"

section \<open>The simulation\<close>

lemma hands_upd:
  assumes "thr tid = Some w" and "finite (dom thr)"
  shows "hands (thr(tid \<mapsto> w')) + hand w = hands thr + hand w'"
proof -
  have dom: "dom (thr(tid \<mapsto> w')) = dom thr" "tid \<in> dom thr" using assms(1) by auto
  have "(\<Sum>x \<in> dom thr - {tid}. hand (the ((thr(tid \<mapsto> w')) x))) =
      (\<Sum>x \<in> dom thr - {tid}. hand (the (thr x)))"
    by (rule sum.cong) auto
  with assms dom show ?thesis
    by (simp add: hands_def sum.remove [OF assms(2) dom(2)] ac_simps)
qed

lemma hands_remove:
  assumes "thr tid = Some w" and "finite (dom thr)"
  shows "\<exists>R. hands thr = R + hand w \<and> (\<forall>w'. hands (thr(tid \<mapsto> w')) = R + hand w')"
proof -
  have empty: "hand (w\<lparr>w_pc := At_pick\<rparr>) = {#}" by (simp add: hand_def)
  let ?R = "hands (thr(tid \<mapsto> w\<lparr>w_pc := At_pick\<rparr>))"
  have "hands thr = ?R + hand w" using hands_upd [OF assms, of "w\<lparr>w_pc := At_pick\<rparr>"] empty by simp
  moreover have "hands (thr(tid \<mapsto> w')) = ?R + hand w'" for w'
    using hands_upd [of "thr(tid \<mapsto> w\<lparr>w_pc := At_pick\<rparr>)" tid "w\<lparr>w_pc := At_pick\<rparr>" w'] assms(2) empty
    by simp
  ultimately show ?thesis by blast
qed

text \<open>A step of one worker, seen in the bag: \<open>R\<close> is what the other workers hold.\<close>

lemma bag_of_upd:
  assumes "hands_ok W" and "w_thr W tid = Some w"
  shows "\<exists>R. bg_pending (bag_of W) = mset (m_fibers (w_sched W)) + R + hand w \<and>
    bg_running (bag_of W) tid = pc_runs (w_pc w) \<and>
    bag_of (W\<lparr>w_sched := s', w_glob := g', w_thr := (w_thr W)(tid \<mapsto> w')\<rparr>) =
       bag_of W\<lparr>bg_pending := mset (m_fibers s') + R + hand w',
         bg_running := (bg_running (bag_of W))(tid := pc_runs (w_pc w'))\<rparr>"
proof -
  obtain R where R: "hands (w_thr W) = R + hand w"
    "\<And>w'. hands ((w_thr W)(tid \<mapsto> w')) = R + hand w'"
    using hands_remove [of "w_thr W" tid w] assms by (auto simp: hands_ok_def)
  have 1: "bg_pending (bag_of W) = mset (m_fibers (w_sched W)) + R + hand w"
    using R(1) by (simp add: bag_of_def ac_simps)
  have 2: "bg_running (bag_of W) tid = pc_runs (w_pc w)" using assms(2) by (simp add: bag_of_def)
  have 3: "bag_of (W\<lparr>w_sched := s', w_glob := g', w_thr := (w_thr W)(tid \<mapsto> w')\<rparr>) =
      bag_of W\<lparr>bg_pending := mset (m_fibers s') + R + hand w',
        bg_running := (bg_running (bag_of W))(tid := pc_runs (w_pc w'))\<rparr>"
    using R(2) [of w'] by (simp add: bag_of_def ac_simps fun_eq_iff)
  show ?thesis using 1 2 3 by blast
qed

lemma bag_running_same:
  "bg_running B tid = r \<Longrightarrow>
   B\<lparr>bg_pending := P, bg_running := (bg_running B)(tid := r)\<rparr> = B\<lparr>bg_pending := P\<rparr>"
  by auto

lemma bag_running_idem: "bg_running B tid = r \<Longrightarrow> B\<lparr>bg_running := (bg_running B)(tid := r)\<rparr> = B"
  by auto

lemma bag_pending_same: "bg_pending B = P \<Longrightarrow> B\<lparr>bg_pending := P\<rparr> = B"
  by auto

lemma hands_ok_upd:
  "hands_ok W \<Longrightarrow> (w_pc w' = At_dispatch \<Longrightarrow> \<not> pinned_elsewhere tid (w_ft w')) \<Longrightarrow>
   hands_ok (W\<lparr>w_sched := s', w_glob := g', w_thr := (w_thr W)(tid \<mapsto> w')\<rparr>)"
  by (simp add: hands_ok_def)

lemma pc_runs_simps [simp]:
  "pc_runs (In_fiber f) = Some f" "pc_runs (In_cb f) = Some f" "pc_runs (After_fiber f) = Some f"
  "pc_runs (After_cb f) = Some f" "pc_runs At_pick = None" "pc_runs At_dispatch = None"
  "pc_runs In_idle = None" "pc_runs After_idle = None" "pc_runs Exited = None"
  by (simp_all add: pc_runs_def active_def pc_fiber_def)

lemma hand_not_dispatch [simp]: "w_pc w \<noteq> At_dispatch \<Longrightarrow> hand w = {#}"
  by (simp add: hand_def)

lemma hand_reset [simp]: "w_ft w = FT_reset \<Longrightarrow> hand w = {#}"
  by (simp add: hand_def FT_reset_def)

lemma scan_not_null:
  "scan g tid q = Inr (Some t, r, tk) \<Longrightarrow> ft_item t \<noteq> FT_fiber None"
  by (induction q arbitrary: r tk)
    (auto simp: result_simps split: if_splits fiber_or_cb.splits option.splits)

lemma run_pick_cases [consumes 1, case_names none some]:
  assumes "run_pick tid w s g = Inr (w', s')"
  obtains "w' = w\<lparr>w_ft := FT_reset, w_pc := At_dispatch\<rparr>" "m_fibers s' = m_fibers s"
  | t where "w' = w\<lparr>w_ft := t, w_pc := At_dispatch\<rparr>" "mset (m_fibers s) = mset (m_fibers s') + {#t#}"
      "eligible g tid t" "ft_item t \<noteq> FT_fiber None"
proof -
  obtain p q tk where sc: "scan g tid (m_fibers s) = Inr (p, q, tk)"
    and w': "w' = w\<lparr>w_ft := (case p of Some t \<Rightarrow> t | None \<Rightarrow> FT_reset), w_pc := At_dispatch\<rparr>"
    and s': "m_fibers s' = q"
    using assms by (auto simp: run_pick_def result_simps Let_def)
  show ?thesis
  proof (cases p)
    case None
    with scan_spec [OF sc] w' s' that(1) show ?thesis by simp
  next
    case (Some t)
    with scan_spec [OF sc] scan_not_null [of g tid "m_fibers s" t] sc w' s' that(2) [of t]
    show ?thesis by auto
  qed
qed

lemma fb_cb_swapcontext:
  "swapcontext c from to (t, g) = Inr (t', g') \<Longrightarrow>
   Option.bind (fheap g' f) fb_cb = Option.bind (fheap g f) fb_cb"
  by (auto dest!: fiber_bindD simp: swapcontext_def Let_def fiber_set_def split: if_splits)

lemma fb_cb_swapIn:
  assumes "Fiber_swapIn f (t, g) = Inr (t', g')"
  shows "Option.bind (fheap g' f') fb_cb = Option.bind (fheap g f') fb_cb"
proof -
  obtain fb m where fb: "fheap g f = Some fb" and sw: "swapcontext Saved m f
      (Fiber_SetThis (Some f) t, fiber_set f (fb\<lparr>m_state := EXEC\<rparr>) g) = Inr (t', g')"
    using assms
    by (cases "t_main t")
      (auto dest!: fiber_bindD simp: Fiber_swapIn_def Fiber_switch_in_def Let_def SYLAR_ASSERT_def
        split: if_splits)
  from fb_cb_swapcontext [OF sw, of f'] fb show ?thesis by (auto simp: fiber_set_def)
qed

lemma swapIn_not_EXEC: "Fiber_swapIn f (t, g) = Inr e \<Longrightarrow> st_of g f \<notin> {None, Some EXEC}"
  by (auto dest!: fiber_bindD simp: Fiber_swapIn_def Fiber_switch_in_def Let_def st_of_def
      SYLAR_ASSERT_def split: if_splits)

lemma prepare_cb_fiber_cb:
  "prepare_cb_fiber a dflt c w g = Inr (b, g1) \<Longrightarrow> Option.bind (fheap g1 b) fb_cb = Some c"
  by (auto dest!: fiber_bindD simp: prepare_cb_fiber_def Fiber_reset_def Fiber_new_def fiber_set_def
      result_simps split: option.splits)

lemma run_dispatch_cases [consumes 2, case_names idle skip fiber cb]:
  assumes "run_dispatch a dflt w s g = Inr (w', s', g')" and "w_pc w = At_dispatch"
  obtains "hand w = {#}" "w_pc w' \<in> {In_idle, Exited}" "m_fibers s' = m_fibers s"
  | f where "ft_item (w_ft w) = FT_fiber (Some f)" "st_of g f = Some TERM_st" "w_pc w' = At_pick"
      "s' = s"
  | f where "ft_item (w_ft w) = FT_fiber (Some f)" "st_of g f \<notin> {None, Some TERM_st, Some EXEC}"
      "w_pc w' = In_fiber f" "cpu (w_tls w') = Some f" "st_of g' f = Some EXEC"
      "m_fibers s' = m_fibers s"
  | c b where "ft_item (w_ft w) = FT_cb (Some c)" "w_pc w' = In_cb b" "cpu (w_tls w') = Some b"
      "st_of g' b = Some EXEC" "Option.bind (fheap g' b) fb_cb = Some c" "m_fibers s' = m_fibers s"
proof -
  consider (none) "ft_item (w_ft w) \<in> {FT_fiber None, FT_cb None}"
    | (fiber) f where "ft_item (w_ft w) = FT_fiber (Some f)"
    | (cb) c where "ft_item (w_ft w) = FT_cb (Some c)"
    by (metis fiber_or_cb.exhaust insertCI not_Some_eq)
  then show ?thesis
  proof cases
    case none
    then have d: "dispatch_idle w s g = Inr (w', s', g')"
      using assms(1) by (auto simp: run_dispatch_def)
    moreover have "m_fibers s' = m_fibers s"
      using d by (auto dest!: fiber_bindD simp: dispatch_idle_def result_simps split: if_splits)
    ultimately show ?thesis
      using that(1) none dispatch_idle_move [OF d assms(2)] by (simp add: hand_def)
  next
    case (fiber f)
    then obtain fb where fb: "fheap g f = Some fb"
      using assms(1) by (auto dest!: fiber_bindD simp: run_dispatch_def)
    show ?thesis
    proof (cases "m_state fb = TERM_st")
      case True
      with that(2) [OF fiber] fiber fb assms(1) show ?thesis
        by (auto simp: run_dispatch_def st_of_def fiber_get_def)
    next
      case False
      then obtain t1 where sw: "Fiber_swapIn f (w_tls w, g) = Inr (t1, g')"
        and w': "w' = w\<lparr>w_tls := t1, w_pc := In_fiber f\<rparr>" "m_fibers s' = m_fibers s"
        using fiber fb assms(1) by (auto simp: run_dispatch_def result_simps fiber_get_def)
      have "st_of g f \<noteq> Some TERM_st" using False fb by (simp add: st_of_def)
      with that(3) [OF fiber] st_of_swapIn [OF sw] swapIn_not_EXEC [OF sw] w' show ?thesis by auto
    qed
  next
    case (cb c)
    then obtain b g1 t1 where p: "prepare_cb_fiber a dflt c w g = Inr (b, g1)"
      and sw: "Fiber_swapIn b (w_tls w, g1) = Inr (t1, g')"
      and w': "w' = w\<lparr>w_tls := t1, w_pc := In_cb b, w_ft := FT_reset, w_cb_fiber := Some b\<rparr>"
        "m_fibers s' = m_fibers s"
      using assms(1) by (auto simp: run_dispatch_def result_simps)
    with that(4) [OF cb] st_of_swapIn [OF sw] fb_cb_swapIn [OF sw] prepare_cb_fiber_cb [OF p]
    show ?thesis by auto
  qed
qed

text \<open>
  One lemma per kind of step; \<open>bag_sim\<close> is what each of them shows, with the tasks \<open>q\<close> that the step submits.
\<close>

definition bag_sim :: "'cb task list \<Rightarrow> 'cb world \<Rightarrow> 'cb world \<Rightarrow> bool" where
  "bag_sim q W W' \<longleftrightarrow> hands_ok W' \<and>
     (\<exists>e. bag_step e (bag_of W) (bag_of W') \<and> event_ok e W W' \<and> ev_submitted e = q)"

lemma bag_simI:
  "hands_ok W' \<Longrightarrow> bag_step e (bag_of W) (bag_of W') \<Longrightarrow> event_ok e W W' \<Longrightarrow> ev_submitted e = q \<Longrightarrow>
   bag_sim q W W'"
  by (auto simp: bag_sim_def)

lemma bag_sim_quiet: "hands_ok W' \<Longrightarrow> bag_of W' = bag_of W \<Longrightarrow> bag_sim [] W W'"
  by (rule bag_simI [where e = Ev_quiet]) (auto intro: bag_quiet)

lemma pick_sim:
  assumes "hands_ok W" and "w_thr W tid = Some w" and "w_pc w = At_pick"
    and "run_pick tid w (w_sched W) (w_glob W) = Inr (w', s')"
  shows "bag_sim [] W (W\<lparr>w_sched := s', w_glob := w_glob W, w_thr := (w_thr W)(tid \<mapsto> w')\<rparr>)"
    (is "bag_sim [] W ?W'")
proof -
  obtain R where R: "bg_pending (bag_of W) = mset (m_fibers (w_sched W)) + R"
    and "bg_running (bag_of W) tid = None"
    and "bag_of ?W' = bag_of W\<lparr>bg_pending := mset (m_fibers s') + R + hand w',
      bg_running := (bg_running (bag_of W))(tid := pc_runs (w_pc w'))\<rparr>"
    using bag_of_upd [OF assms(1,2), where s' = s' and g' = "w_glob W" and w' = w'] assms(3) by auto
  moreover have "w_pc w' = At_dispatch" using run_pick_move assms(3,4) by blast
  ultimately have R': "bag_of ?W' = bag_of W\<lparr>bg_pending := mset (m_fibers s') + R + hand w'\<rparr>"
    by (simp add: bag_running_same del: fun_upd_apply)
  show ?thesis
    using assms(4)
  proof (cases rule: run_pick_cases)
    case none
    then have "hands_ok ?W'"
      by (intro hands_ok_upd [OF assms(1)]) (simp add: pinned_elsewhere_def FT_reset_def)
    moreover have "bag_of ?W' = bag_of W"
      unfolding R' by (rule bag_pending_same) (use none R in simp)
    ultimately show ?thesis by (rule bag_sim_quiet)
  next
    case (some t)
    from some(3) have free: "\<not> pinned_elsewhere tid t" by (simp add: eligible_def)
    with some(1) have ok: "hands_ok ?W'" by (intro hands_ok_upd [OF assms(1)]) simp
    show ?thesis
    proof (cases "ft_item t = FT_cb None")
      case True
      then have "hand w' = {#}" using some(1) by (simp add: hand_def)
      then have "bag_step (Ev_drop tid t) (bag_of W) (bag_of ?W')"
        unfolding R' using free some(2) by (intro bag_drop) (simp_all add: R ac_simps)
      with ok True show ?thesis by (intro bag_simI [where e = "Ev_drop tid t"]) simp_all
    next
      case False
      then have "hand w' = {#t#}" using some(1,4) by (simp add: hand_def)
      then have "bag_of ?W' = bag_of W"
        unfolding R' using some(2) by (intro bag_pending_same) (simp add: R ac_simps)
      with ok show ?thesis by (rule bag_sim_quiet)
    qed
  qed
qed

lemma dispatch_sim:
  assumes "hands_ok W" and "w_thr W tid = Some w" and "w_pc w = At_dispatch"
    and "run_dispatch a dflt w (w_sched W) (w_glob W) = Inr (w', s', g')"
  shows "bag_sim [] W (W\<lparr>w_sched := s', w_glob := g', w_thr := (w_thr W)(tid \<mapsto> w')\<rparr>)"
    (is "bag_sim [] W ?W'")
proof -
  obtain R where R: "bg_pending (bag_of W) = mset (m_fibers (w_sched W)) + R + hand w"
    and idle: "bg_running (bag_of W) tid = None"
    and R': "bag_of ?W' = bag_of W\<lparr>bg_pending := mset (m_fibers s') + R + hand w',
      bg_running := (bg_running (bag_of W))(tid := pc_runs (w_pc w'))\<rparr>"
    using bag_of_upd [OF assms(1,2), where s' = s' and g' = g' and w' = w'] assms(3) by auto
  have free: "\<not> pinned_elsewhere tid (w_ft w)" using assms(1-3) by (simp add: hands_ok_def)
  have started: "bag_sim [] W ?W'" if pc: "pc_runs (w_pc w') = Some f" "w_pc w' \<noteq> At_dispatch"
    and "hand w = {#w_ft w#}" "m_fibers s' = m_fibers (w_sched W)" "runs_as (w_ft w) f"
    and ev: "event_ok (Ev_start tid (w_ft w) f) W ?W'" for f
  proof (rule bag_simI [OF _ _ ev])
    show "ev_submitted (Ev_start tid (w_ft w) f) = []" by simp
    show "hands_ok ?W'" using pc(2) by (intro hands_ok_upd [OF assms(1)]) simp
    have "hand w' = {#}" using pc(2) by simp
    then show "bag_step (Ev_start tid (w_ft w) f) (bag_of W) (bag_of ?W')"
      unfolding R' pc(1) using that R idle free by (intro bag_start) (simp_all del: runs_as.simps)
  qed
  from assms(4,3) show ?thesis
  proof (cases rule: run_dispatch_cases)
    case idle
    then have "hand w' = {#}" "pc_runs (w_pc w') = None" "w_pc w' \<noteq> At_dispatch" by auto
    with idle R R' \<open>bg_running (bag_of W) tid = None\<close> have "bag_of ?W' = bag_of W"
      by (simp add: bag_running_idem bag_pending_same del: fun_upd_apply)
    moreover have "hands_ok ?W'"
      using \<open>w_pc w' \<noteq> At_dispatch\<close> by (intro hands_ok_upd [OF assms(1)]) simp
    ultimately show ?thesis by (intro bag_sim_quiet)
  next
    case (skip f)
    have "bag_of ?W' = bag_of W\<lparr>bg_pending := mset (m_fibers (w_sched W)) + R\<rparr>"
      unfolding R' using skip idle by (simp add: bag_running_same del: fun_upd_apply)
    moreover have "hand w = {#w_ft w#}" using skip(1) assms(3) by (simp add: hand_def)
    ultimately have "bag_step (Ev_drop tid (w_ft w)) (bag_of W) (bag_of ?W')"
      using free R by (simp add: bag_drop)
    moreover have "hands_ok ?W'" using skip(3) by (intro hands_ok_upd [OF assms(1)]) simp
    ultimately show ?thesis
      using skip(1,2) by (intro bag_simI [where e = "Ev_drop tid (w_ft w)"]) simp_all
  next
    case (fiber f)
    then show ?thesis using assms(3) by (intro started [of f]) (simp_all add: hand_def)
  next
    case (cb c b)
    then show ?thesis using assms(3) by (intro started [of b]) (simp_all add: hand_def)
  qed
qed

lemma leave_sim:
  assumes "hands_ok W" and "w_thr W tid = Some w" and "w_pc w \<in> {In_fiber f, In_cb f, In_idle}"
    and "run_leave l w (w_glob W) = Inr (w', g')"
  shows "bag_sim [] W (W\<lparr>w_sched := w_sched W, w_glob := g', w_thr := (w_thr W)(tid \<mapsto> w')\<rparr>)"
    (is "bag_sim [] W ?W'")
proof (rule bag_sim_quiet)
  have pc: "w_pc w' \<noteq> At_dispatch" "w_pc w \<noteq> At_dispatch" "pc_runs (w_pc w') = pc_runs (w_pc w)"
    using assms(3,4) by (auto simp: run_leave_def result_simps)
  then show "hands_ok ?W'" by (intro hands_ok_upd [OF assms(1)]) simp
  show "bag_of ?W' = bag_of W"
    using bag_of_upd [OF assms(1,2), where s' = "w_sched W" and g' = g' and w' = w'] pc
    by (auto simp: bag_running_idem bag_pending_same simp del: fun_upd_apply)
qed

lemma run_after_READY:
  assumes "run_after w s g = Inr (w', s', g')" and "w_pc w \<in> {After_fiber f, After_cb f}"
  shows "st_of g f \<noteq> None \<and> w_pc w' = At_pick \<and>
    m_fibers s' = m_fibers s @ (if st_of g f = Some READY then [yielded f] else [])"
proof -
  obtain fb where "fheap g f = Some fb"
    using assms by (auto dest!: fiber_bindD simp: run_after_def Let_def)
  with assms show ?thesis
    by (auto simp: run_after_def Let_def result_simps st_of_def yielded_def fiber_get_def
        split: if_splits)
qed

lemma after_sim:
  assumes "hands_ok W" and "w_thr W tid = Some w" and "w_pc w \<in> {After_fiber f, After_cb f, After_idle}"
    and "run_after w (w_sched W) (w_glob W) = Inr (w', s', g')"
  shows "bag_sim [] W (W\<lparr>w_sched := s', w_glob := g', w_thr := (w_thr W)(tid \<mapsto> w')\<rparr>)"
    (is "bag_sim [] W ?W'")
proof -
  have "w_pc w' = At_pick"
    using assms(3,4) by (auto dest!: fiber_bindD simp: run_after_def Let_def result_simps split: if_splits)
  then have pc: "pc_runs (w_pc w') = None" "hand w' = {#}" "w_pc w' \<noteq> At_dispatch" by simp_all
  from pc(3) have ok: "hands_ok ?W'" by (intro hands_ok_upd [OF assms(1)]) simp
  obtain R where R: "bg_pending (bag_of W) = mset (m_fibers (w_sched W)) + R"
    "bg_running (bag_of W) tid = pc_runs (w_pc w)"
    and R': "bag_of ?W' = bag_of W\<lparr>bg_pending := mset (m_fibers s') + R,
      bg_running := (bg_running (bag_of W))(tid := None)\<rparr>"
    using bag_of_upd [OF assms(1,2), where s' = s' and g' = g' and w' = w'] assms(3) pc by auto
  show ?thesis
  proof (cases "w_pc w = After_idle")
    case True
    then have "m_fibers s' = m_fibers (w_sched W)"
      using assms(4) by (auto dest!: fiber_bindD simp: run_after_def Let_def result_simps split: if_splits)
    with True R R' have "bag_of ?W' = bag_of W"
      by (simp add: bag_running_idem bag_pending_same del: fun_upd_apply)
    with ok show ?thesis by (rule bag_sim_quiet)
  next
    case False
    then have runs: "bg_running (bag_of W) tid = Some f" and "w_pc w \<in> {After_fiber f, After_cb f}"
      using assms(3) R(2) by auto
    from run_after_READY [OF assms(4) this(2)] have st: "st_of (w_glob W) f \<noteq> None"
      and q: "m_fibers s' = m_fibers (w_sched W) @
        (if st_of (w_glob W) f = Some READY then [yielded f] else [])" by simp_all
    let ?e = "if st_of (w_glob W) f = Some READY then Ev_requeue tid f else Ev_finish tid f"
    have "bag_step ?e (bag_of W) (bag_of ?W')"
      unfolding R' using bag_requeue [OF runs] bag_finish [OF runs] q R(1)
      by (simp add: bag_pending_same ac_simps del: fun_upd_apply)
    moreover have "event_ok ?e W ?W'" using st by simp
    moreover have "ev_submitted ?e = []" by simp
    ultimately show ?thesis using ok by (intro bag_simI)
  qed
qed

lemma schedule_sim:
  assumes "hands_ok W"
  shows "bag_sim [\<lparr>ft_item = fc, ft_thread = thr\<rparr>] W (W\<lparr>w_sched := schedule fc thr (w_sched W)\<rparr>)"
proof -
  let ?t = "\<lparr>ft_item = fc, ft_thread = thr\<rparr>"
  have "bag_step (Ev_submit ?t) (bag_of W) (bag_of W\<lparr>bg_pending := bg_pending (bag_of W) + {#?t#}\<rparr>)"
    by (rule bag_submit)
  then have "bag_step (Ev_submit ?t) (bag_of W) (bag_of (W\<lparr>w_sched := schedule fc thr (w_sched W)\<rparr>))"
    by (simp add: bag_of_def ac_simps)
  then show ?thesis using assms by (intro bag_simI [where e = "Ev_submit ?t"]) (simp_all add: hands_ok_def)
qed

lemma new_fiber_sim:
  "hands_ok W \<Longrightarrow> bag_sim [] W (W\<lparr>w_glob := Fiber_new a cb sz uc dflt st (w_glob W)\<rparr>)"
  by (intro bag_sim_quiet) (simp_all add: hands_ok_def bag_of_def)

lemma world_sim:
  assumes "hands_ok W" and "world_step W W'"
  shows "\<exists>q. bag_sim q W W'"
  using assms(2,1)
proof (induction rule: world_step.induct)
  case (ws_schedule fc W thr)
  then show ?case using schedule_sim by blast
next
  case (ws_new_fiber W a cb sz uc dflt st)
  then show ?case using new_fiber_sim by blast
next
  case (ws_pick W tid w w' s')
  then show ?case using pick_sim [of W tid w w' s'] by auto
next
  case (ws_dispatch W tid w a dflt w' s' g')
  then show ?case using dispatch_sim by blast
next
  case (ws_leave W tid w f l w' g')
  then show ?case using leave_sim [of W tid w f l w' g'] by auto
next
  case (ws_idle W tid w l w' g')
  then show ?case using leave_sim [of W tid w 0 l w' g'] by auto
next
  case (ws_after W tid w f w' s' g')
  then show ?case using after_sim by blast
qed

interpretation bags: simulation world_step hands_ok bag_of bag_step event_ok
  by unfold_locales (use world_sim in \<open>fastforce simp: bag_sim_def\<close>)+

lemma run_starts_pinned:
  "runs bag_step B es B' \<Longrightarrow> Ev_start tid t f \<in> set es \<Longrightarrow> ft_thread t \<in> {-1, tid}"
  by (induction rule: runs.induct) (auto simp: bag_step_iffs pinned_elsewhere_def)

lemma hands_empty:
  "\<forall>tid w. w_thr W tid = Some w \<longrightarrow> w_pc w \<noteq> At_dispatch \<Longrightarrow> hands (w_thr W) = {#}"
  by (auto simp: hands_def intro!: sum.neutral)

definition settled :: "'cb world \<Rightarrow> bool" where
  "settled W \<longleftrightarrow> m_fibers (w_sched W) = [] \<and> (\<forall>tid w. w_thr W tid = Some w \<longrightarrow> w_pc w \<noteq> At_dispatch)"

lemma settled_bag: "settled W \<Longrightarrow> bg_pending (bag_of W) = {#}"
  by (simp add: settled_def bag_of_def hands_empty)

section \<open>Properties\<close>

text \<open>
  C11 (scheduler_refines_bag). Every interleaving of the workers and of clients queueing tasks is a run of the
  abstract scheduler, a bag of tasks with one running fiber per thread. A task is started only by a
  thread it is not pinned away from and that runs nothing else; it is taken out of the bag as it is
  started, the fiber put on the processor is the task's own (for a callback, a fiber whose body is that
  callback) and was neither running nor ended; a fiber goes back into the bag exactly when it left in
  \<open>READY\<close>; and a task is dropped only if it is an ended fiber or an empty callback. So the tasks
  put in, and those there before, are the tasks taken out and those still there, counted with
  multiplicity.
\<close>

theorem scheduler_refines_bag:
  assumes "hands_ok W" and "world_step\<^sup>*\<^sup>* W W'"
  shows "\<exists>es. runs (\<lambda>e x y. world_step x y \<and> event_ok e x y) W es W' \<and>
    runs bag_step (bag_of W) es (bag_of W') \<and>
    bg_pending (bag_of W) + sum_list (map ev_put es) =
      bg_pending (bag_of W') + sum_list (map ev_taken es)"
  using bags.simulate_steps [OF assms(2,1)] bag_run_balance by blast

lemma demo_world_hands_ok: "hands_ok demo_world"
  by (auto simp: hands_ok_def demo_world_simps(2) dest: demo_world_simps(3))

lemma demo_world_settled: "settled demo_world"
  by (auto simp: settled_def demo_world_simps(1) sched_running_def dest: demo_world_simps(3))

theorem scheduler_refines_bag_witness:
  "\<exists>W' es. world_step\<^sup>*\<^sup>* demo_world W' \<and> runs bag_step (bag_of demo_world) es (bag_of W') \<and>
     bg_running (bag_of W') 1 = Some 5 \<and> bg_running (bag_of W') 2 = Some 5"
proof -
  from exec_acts_reach [OF two_runs_pcs] obtain W' where W': "world_step\<^sup>*\<^sup>* demo_world W'"
    "map_option w_pc (w_thr W' 1) = Some (In_fiber 5)"
    "map_option w_pc (w_thr W' 2) = Some (In_fiber 5)"
    by (auto simp: demo_world_simps(2))
  from scheduler_refines_bag [OF demo_world_hands_ok W'(1)] W' show ?thesis
    by (auto simp: bag_of_def)
qed


lemma two_runs_settled:
  "\<exists>W'. world_step\<^sup>*\<^sup>* demo_world W' \<and> settled W' \<and> map_option w_pc (w_thr W' 1) = Some (In_fiber 5)"
proof -
  have "map_option (\<lambda>W. (m_fibers (w_sched W), map_option w_pc (w_thr W 1), map_option w_pc (w_thr W 2)))
      (exec_acts [1, 2] two_runs demo_world) = Some ([], Some (In_fiber 5), Some (In_fiber 5))"
    by code_simp
  from exec_acts_reach [OF this] obtain W' where W': "world_step\<^sup>*\<^sup>* demo_world W'"
    "m_fibers (w_sched W') = []" "map_option w_pc (w_thr W' 1) = Some (In_fiber 5)"
    "map_option w_pc (w_thr W' 2) = Some (In_fiber 5)"
    by (auto simp: demo_world_simps(2))
  have "w_pc w \<noteq> At_dispatch" if "w_thr W' tid = Some w" for tid w
  proof -
    have "tid \<in> {1, 2}"
      using that world_steps_threads [OF W'(1)] by (auto simp: demo_world_simps(2))
    with that W'(3,4) show ?thesis by auto
  qed
  with W' show ?thesis by (auto simp: settled_def)
qed


end
