(* ===== verification/Event_Loop.thy ===== *)
theory Event_Loop
  imports IO_Events Scheduler_Bag
begin

text \<open>
  \<open>IOManager::idle()\<close> (src/sylar/iomanager.cc) cut where other threads can come between: the test of \<open>stopping\<close>, the wait
  in \<open>epoll_wait\<close>, the expired timers, one reported event after the other, and the switch back to \<open>run()\<close>. Theory
  \<open>IO_Manager\<close> has the same code as one uninterrupted turn (\<open>IO_idle_turn\<close>), which these steps compose to. Then what each
  operation of the event loop and of its clients adds to the task queue of the manager's own scheduler.
\<close>

section \<open>The loop in steps\<close>

text \<open>Where an idle fiber is: before \<open>stopping\<close>, in \<open>epoll_wait\<close> with a time-out, and with the reported events still to handle.\<close>

datatype loop_pc =
    Loop_check
  | Loop_wait u64
  | Loop_expire "epoll_event list"
  | Loop_events "epoll_event list"

text \<open>The head of the loop; \<open>None\<close> leaves it.\<close>

definition loop_check :: "u64 \<Rightarrow> 'cb timer_manager \<Rightarrow> 'cb iomanager \<Rightarrow> loop_pc option" where
  "loop_check now tm m =
     (let (stop, next_timeout) = IO_stopping_timeout now tm m
      in if stop then None else Some (Loop_wait (idle_timeout next_timeout)))"

text \<open>An answer of \<open>epoll_wait\<close>: when it was interrupted the time-out is clipped once more and the wait repeated.\<close>

definition loop_woken :: "u64 \<Rightarrow> wait_result \<Rightarrow> loop_pc" where
  "loop_woken next_timeout r =
     (case r of
        Wait_EINTR \<Rightarrow> Loop_wait (idle_timeout next_timeout)
      | Wait_error \<Rightarrow> Loop_expire []
      | Wait_ready evs \<Rightarrow> Loop_expire evs)"

definition loop_expire ::
    "u64 \<Rightarrow> nat \<Rightarrow> 'cb timer_manager \<times> 'cb iomanager \<Rightarrow> ('cb timer_manager \<times> 'cb iomanager) result" where
  "loop_expire now probe = (\<lambda>(tm, m).
     rbind (list_expired_cbs now probe tm) (\<lambda>es.
       Inr (es_tm es,
            if es_cbs es \<noteq> []
            then m\<lparr>io_scheds := (io_scheds m)(io_self m :=
                     snd (schedule_range (es_cbs es) (io_scheds m (io_self m))))\<rparr>
            else m)))"

text \<open>The end of the loop body: \<open>Fiber::GetThis()\<close> and its \<open>swapOut()\<close>; \<open>a\<close> is the address of a main fiber made on demand.\<close>

definition loop_swapOut :: "nat \<Rightarrow> 'cb fenv \<Rightarrow> 'cb fenv result" where
  "loop_swapOut a e = (let (raw_ptr, e1) = Fiber_GetThis a e in Fiber_swapOut raw_ptr e1)"

lemma idle_timeout_le: "idle_timeout t \<le> 5000"
  by (auto simp: idle_timeout_def)

lemma idle_timeout_idem: "t \<le> 5000 \<Longrightarrow> idle_timeout t = t"
  by (auto simp: idle_timeout_def)

lemma loop_swapOut_leave:
  "t_fiber t = Some f \<Longrightarrow> loop_swapOut a (t, g) = Fiber_leave Leave_bare f (t, g)"
  by (simp add: loop_swapOut_def Fiber_GetThis_def Fiber_leave_def)

text \<open>The wait as the steps make it: \<open>loop_woken\<close> over the answers, until one ends the wait.\<close>

fun loop_waits :: "loop_pc \<Rightarrow> wait_result list \<Rightarrow> loop_pc" where
  "loop_waits (Loop_wait t) (w # ws) = loop_waits (loop_woken t w) ws"
| "loop_waits pc ws = pc"

lemma loop_waits_eq:
  "t \<le> 5000 \<Longrightarrow> loop_waits (Loop_wait t) ws =
     (case epoll_wait_loop ws of None \<Rightarrow> Loop_wait t | Some evs \<Rightarrow> Loop_expire evs)"
  by (induction ws rule: epoll_wait_loop.induct) (simp_all add: loop_woken_def idle_timeout_idem)

text \<open>Without interruption the steps are the turn of theory \<open>IO_Manager\<close>.\<close>

definition loop_turn ::
    "'k epoll_ctl \<Rightarrow> u64 \<Rightarrow> u64 \<Rightarrow> nat \<Rightarrow> wait_result list
       \<Rightarrow> 'cb timer_manager \<times> 'cb iomanager \<times> 'k \<Rightarrow> (loop_pc option \<times> 'cb timer_manager \<times> 'cb iomanager \<times> 'k) result" where
  "loop_turn ctl now1 now2 probe ws = (\<lambda>(tm, m, k).
     case loop_check now1 tm m of
       None \<Rightarrow> Inr (None, tm, m, k)
     | Some pc \<Rightarrow>
         (case loop_waits pc ws of
            Loop_expire evs \<Rightarrow>
              rbind (loop_expire now2 probe (tm, m)) (\<lambda>(tm1, m1).
              rbind (handle_events ctl evs (m1, k)) (\<lambda>(m2, k2). Inr (Some Loop_check, tm1, m2, k2)))
          | pc1 \<Rightarrow> Inr (Some pc1, tm, m, k)))"

fun turn_result :: "idle_result \<Rightarrow> loop_pc option" where
  "turn_result Idle_exit = None"
| "turn_result (Idle_waits t) = Some (Loop_wait t)"
| "turn_result (Idle_swapOut t) = Some Loop_check"

text \<open>
  The steps of \<open>IOManager::idle()\<close>, made one after the other with nobody in between, are the turn \<open>IO_idle_turn\<close>.
\<close>

lemma idle_loop_turn:
  "loop_turn ctl now1 now2 probe ws (tm, m, k) =
     rbind (IO_idle_turn ctl now1 now2 probe ws (tm, m, k)) (\<lambda>(r, s). Inr (turn_result r, s))"
proof -
  obtain stop nt where st: "IO_stopping_timeout now1 tm m = (stop, nt)" by fastforce
  have w: "loop_waits (Loop_wait (idle_timeout nt)) ws =
      (case epoll_wait_loop ws of None \<Rightarrow> Loop_wait (idle_timeout nt) | Some evs \<Rightarrow> Loop_expire evs)"
    by (rule loop_waits_eq [OF idle_timeout_le])
  show ?thesis
  proof (cases "stop \<or> epoll_wait_loop ws = None")
    case True
    then show ?thesis using w by (auto simp: loop_turn_def loop_check_def st IO_idle_turn_def split: option.split)
  next
    case False
    then obtain evs where evs: "epoll_wait_loop ws = Some evs" by auto
    have reassoc: "rbind (rbind x f) h = rbind x (\<lambda>y. rbind (f y) h)" for x :: "'x result" and f :: "'x \<Rightarrow> 'y result"
      and h :: "'y \<Rightarrow> 'z result" by (cases x) simp_all
    show ?thesis
      using False w evs
      by (cases "list_expired_cbs now2 probe tm")
        (auto simp: loop_turn_def loop_check_def st IO_idle_turn_def loop_expire_def Let_def reassoc split_def)
  qed
qed

section \<open>What an operation adds to the queue\<close>

text \<open>
  The scheduler of the manager itself, and a task queued on it. \<open>queues I q m m'\<close>: from \<open>m\<close> to \<open>m'\<close> exactly the tasks \<open>q\<close> were queued on it,
  none of them a fiber of \<open>I\<close> (the idle fibers), and no slot of \<open>m'\<close> holds a fiber of \<open>I\<close>.
\<close>

definition own :: "'cb iomanager \<Rightarrow> 'cb sched" where
  "own m = io_scheds m (io_self m)"

definition schedule_task :: "'cb task \<Rightarrow> 'cb sched \<Rightarrow> 'cb sched" where
  "schedule_task t = schedule (ft_item t) (ft_thread t)"

definition slot_free :: "nat set \<Rightarrow> 'cb event_context \<Rightarrow> bool" where
  "slot_free I e \<longleftrightarrow> ec_fiber e \<notin> Some ` I"

definition slots_free :: "nat set \<Rightarrow> 'cb iomanager \<Rightarrow> bool" where
  "slots_free I m \<longleftrightarrow> (\<forall>c \<in> set (m_fd_contexts m). slot_free I (fc_read c) \<and> slot_free I (fc_write c))"

definition queues :: "nat set \<Rightarrow> 'cb task list \<Rightarrow> 'cb iomanager \<Rightarrow> 'cb iomanager \<Rightarrow> bool" where
  "queues I q m m' \<longleftrightarrow> io_self m' = io_self m \<and> own m' = fold schedule_task q (own m) \<and>
     (\<forall>t \<in> set q. task_free I t) \<and> slots_free I m'"

lemma queues_refl: "slots_free I m \<Longrightarrow> queues I [] m m"
  by (simp add: queues_def)

lemma queues_trans: "queues I q m m1 \<Longrightarrow> queues I r m1 m2 \<Longrightarrow> queues I (q @ r) m m2"
  by (auto simp: queues_def)

lemma queues_keep:
  "slots_free I m' \<Longrightarrow> io_scheds m' = io_scheds m \<Longrightarrow> io_self m' = io_self m \<Longrightarrow> queues I [] m m'"
  by (simp add: queues_def own_def)

lemma slot_free_empty [simp]: "slot_free I event_context_empty"
  by (simp add: slot_free_def event_context_empty_def)

lemma slot_free_setContext:
  "slot_free I e \<Longrightarrow> slot_free I (fc_read c) \<Longrightarrow> slot_free I (fc_write c) \<Longrightarrow>
   slot_free I (fc_read (setContext ev e c)) \<and> slot_free I (fc_write (setContext ev e c))"
  by (simp add: setContext_def)

lemma slots_free_update:
  "slots_free I m \<Longrightarrow> slot_free I (fc_read c) \<Longrightarrow> slot_free I (fc_write c) \<Longrightarrow>
   m_fd_contexts m' = (m_fd_contexts m)[i := c] \<Longrightarrow> slots_free I m'"
  by (auto simp: slots_free_def dest!: set_update_subset_insert [THEN subsetD])

lemma slots_free_nth:
  "slots_free I m \<Longrightarrow> i < length (m_fd_contexts m) \<Longrightarrow>
   slot_free I (fc_read (m_fd_contexts m ! i)) \<and> slot_free I (fc_write (m_fd_contexts m ! i))"
  by (auto simp: slots_free_def)

lemma slots_free_resize:
  "slots_free I m \<Longrightarrow> slots_free I (m\<lparr>m_fd_contexts := context_resize n (m_fd_contexts m)\<rparr>)"
  by (auto simp: slots_free_def context_resize_def FdContext_new_def dest: in_set_takeD)

text \<open>\<open>triggerEvent\<close> queues the task of one slot, on the scheduler the slot names.\<close>

lemma triggerEvent_queues:
  assumes "triggerEvent ev c ss = Inr (c', ss')"
  shows "\<exists>e sid e1. e \<in> {fc_read c, fc_write c} \<and> ec_fiber e1 \<in> {ec_fiber e, None} \<and>
    c' = setContext ev e1 (c\<lparr>m_events := m_events c AND NOT ev\<rparr>) \<and>
    ss' = ss(sid := schedule (slot_task e) (-1) (ss sid))"
proof -
  let ?c = "c\<lparr>m_events := m_events c AND NOT ev\<rparr>"
  obtain e sid where e: "getContext ev ?c = Inr e" "ec_scheduler e = Some sid"
    using assms by (auto simp: triggerEvent_def result_simps Let_def split: option.splits)
  then have "e \<in> {fc_read c, fc_write c}" by (auto simp: getContext_def split: if_splits)
  moreover have "c' = setContext ev (if ec_cb e = None then e\<lparr>ec_fiber := None, ec_scheduler := None\<rparr>
        else e\<lparr>ec_cb := None, ec_scheduler := None\<rparr>) ?c"
      "ss' = ss(sid := schedule (slot_task e) (-1) (ss sid))"
    using assms e
    by (auto simp: triggerEvent_def result_simps FT_swap_cb_def FT_swap_fiber_def slot_task_def Let_def
        split: option.splits)
  ultimately show ?thesis by (intro exI conjI) (auto split: if_splits)
qed

lemma trigger_at_queues:
  assumes "trigger_at i ev m = Inr m'" and "slots_free I m" and i: "i < length (m_fd_contexts m)"
  shows "\<exists>q. queues I q m m'"
proof -
  let ?c = "m_fd_contexts m ! i"
  note free = slots_free_nth [OF assms(2) i]
  obtain c ss where tr: "triggerEvent ev ?c (io_scheds m) = Inr (c, ss)"
    and m': "m' = m\<lparr>m_fd_contexts := (m_fd_contexts m)[i := c], io_scheds := ss,
      m_pending_event_count := m_pending_event_count m - 1\<rparr>"
    using assms(1) by (auto simp: trigger_at_def result_simps)
  from triggerEvent_queues [OF tr] obtain e sid e1 where e: "e \<in> {fc_read ?c, fc_write ?c}"
    "ec_fiber e1 \<in> {ec_fiber e, None}" "c = setContext ev e1 (?c\<lparr>m_events := m_events ?c AND NOT ev\<rparr>)"
    "ss = (io_scheds m)(sid := schedule (slot_task e) (-1) (io_scheds m sid))"
    by blast
  have "slot_free I e" using e(1) free by auto
  then have "slot_free I e1" using e(2) by (auto simp: slot_free_def)
  from slot_free_setContext [OF this, of "?c\<lparr>m_events := m_events ?c AND NOT ev\<rparr>"] free e(3)
  have "slots_free I m'" by (intro slots_free_update [OF assms(2), of c _ i]) (simp_all add: m')
  moreover have "task_free I \<lparr>ft_item = slot_task e, ft_thread = -1\<rparr>"
    using \<open>slot_free I e\<close> by (auto simp: task_free_def slot_free_def slot_task_def split: option.splits)
  ultimately have "queues I (if sid = io_self m then [\<lparr>ft_item = slot_task e, ft_thread = -1\<rparr>] else []) m m'"
    by (auto simp: queues_def own_def m' e(4) schedule_task_def)
  then show ?thesis by blast
qed

lemma trigger_if_queues:
  "trigger_if b i ev m = Inr m' \<Longrightarrow> slots_free I m \<Longrightarrow> i < length (m_fd_contexts m) \<Longrightarrow>
   (\<exists>q. queues I q m m') \<and> length (m_fd_contexts m') = length (m_fd_contexts m)"
  using trigger_at_queues [of i ev m m' I]
  by (auto simp: trigger_if_def trigger_at_def result_simps intro: queues_refl split: if_splits)

lemma trigger_both_queues:
  assumes "trigger_if b i EV_READ m = Inr m1" and "trigger_if b' i EV_WRITE m1 = Inr m2"
    and "slots_free I m" and "i < length (m_fd_contexts m)"
  shows "\<exists>q. queues I q m m2"
proof -
  from trigger_if_queues [OF assms(1,3,4)] obtain q where q: "queues I q m m1"
    "length (m_fd_contexts m1) = length (m_fd_contexts m)" by blast
  moreover from q(1) have "slots_free I m1" by (simp add: queues_def)
  ultimately show ?thesis
    using trigger_if_queues [OF assms(2), of I] assms(4) by (metis queues_trans)
qed

definition event_data_ok :: "'cb iomanager \<Rightarrow> epoll_event \<Rightarrow> bool" where
  "event_data_ok m ev \<longleftrightarrow> (case ee_data ev of Data_tickle \<Rightarrow> True | Data_ctx i \<Rightarrow> i < length (m_fd_contexts m))"

lemma handle_event_queues:
  assumes "handle_event ctl ev (m, k) = Inr (m', k')" and "slots_free I m" and "event_data_ok m ev"
  shows "\<exists>q. queues I q m m'"
proof (cases "ee_data ev")
  case Data_tickle
  then have "queues I [] m m'" using assms(1,2) by (intro queues_keep) (auto simp: handle_event_def slots_free_def)
  then show ?thesis by blast
next
  case (Data_ctx i)
  let ?real = "real_events (ee_events ev) (m_events (m_fd_contexts m ! i))"
  consider "m' = m"
    | m1 where "trigger_if (?real AND EV_READ \<noteq> 0) i EV_READ m = Inr m1"
      "trigger_if (?real AND EV_WRITE \<noteq> 0) i EV_WRITE m1 = Inr m'"
    using assms(1) Data_ctx
    by (auto simp: handle_event_def Let_def result_simps split: prod.splits if_splits)
  then show ?thesis
  proof cases
    case 1
    with queues_refl [OF assms(2)] show ?thesis by blast
  next
    case 2
    from trigger_both_queues [OF this assms(2)] assms(3) Data_ctx show ?thesis by (simp add: event_data_ok_def)
  qed
qed

lemma cancel_event_queues:
  assumes "cancel_event ctl fd ev (m, k) = Inr (b, m', k')" and "slots_free I m"
  shows "\<exists>q. queues I q m m'"
proof -
  consider "m' = m" | "trigger_at (fd_index fd) ev m = Inr m'" "fd_index fd < length (m_fd_contexts m)"
    using assms(1)
    by (auto simp: cancel_event_def event_check_def result_simps Let_def split: option.splits prod.splits if_splits)
  then show ?thesis
    using queues_refl [OF assms(2)] trigger_at_queues [OF _ assms(2)] by cases blast+
qed

lemma cancel_all_cases:
  assumes "cancel_all ctl fd (m, k) = Inr (b, m', k')"
  obtains "m' = m"
  | m1 b1 b2 where "trigger_if b1 (fd_index fd) EV_READ m = Inr m1" "trigger_if b2 (fd_index fd) EV_WRITE m1 = Inr m'"
      "fd_index fd < length (m_fd_contexts m)"
proof (cases "length (m_fd_contexts m) \<le> fd_index fd \<or> m_events (m_fd_contexts m ! fd_index fd) = 0")
  case True
  then show ?thesis using assms that(1) by (auto simp: cancel_all_def Let_def)
next
  case False
  obtain rt k1 where c: "ctl EPOLL_CTL_DEL fd 0 k = (rt, k1)" by fastforce
  show ?thesis
  proof (cases "rt = 0")
    case True
    then obtain m1 b1 b2 where "trigger_if b1 (fd_index fd) EV_READ m = Inr m1"
      "trigger_if b2 (fd_index fd) EV_WRITE m1 = Inr m'"
      using assms False c by (auto simp: cancel_all_def Let_def rbind_Inr_iff)
    with that(2) False show ?thesis by simp
  next
    case rt: False
    then show ?thesis using assms False c that(1) by (simp add: cancel_all_def Let_def)
  qed
qed

lemma cancel_all_queues:
  assumes "cancel_all ctl fd (m, k) = Inr (b, m', k')" and "slots_free I m"
  shows "\<exists>q. queues I q m m'"
  using assms(1)
proof (cases rule: cancel_all_cases)
  case 1
  then show ?thesis using queues_refl [OF assms(2)] by blast
next
  case 2
  then show ?thesis using trigger_both_queues [OF _ _ assms(2)] by blast
qed

lemma del_event_cases:
  assumes "del_event ctl fd ev (m, k) = Inr (b, m', k')"
  obtains "m' = m"
  | left ec where "fd_index fd < length (m_fd_contexts m)"
      "m' = m\<lparr>m_pending_event_count := m_pending_event_count m - 1,
         m_fd_contexts := (m_fd_contexts m)[fd_index fd := setContext ev (resetContext ec)
           ((m_fd_contexts m ! fd_index fd)\<lparr>m_events := left\<rparr>)]\<rparr>"
proof (cases "event_check fd ev m")
  case None
  then show ?thesis using assms that(1) by (simp add: del_event_def)
next
  case (Some left)
  obtain rt k1 where c: "ctl (left_op left) fd (left OR EPOLLET) k = (rt, k1)" by fastforce
  have i: "fd_index fd < length (m_fd_contexts m)"
    using Some by (simp add: event_check_def split: if_splits)
  show ?thesis
  proof (cases "rt = 0")
    case True
    then obtain ec where "m' = m\<lparr>m_pending_event_count := m_pending_event_count m - 1,
         m_fd_contexts := (m_fd_contexts m)[fd_index fd := setContext ev (resetContext ec)
           ((m_fd_contexts m ! fd_index fd)\<lparr>m_events := left\<rparr>)]\<rparr>"
      using assms Some c by (auto simp: del_event_def del_event_commit_def Let_def rbind_Inr_iff)
    with that(2) i show ?thesis by blast
  next
    case False
    then show ?thesis using assms Some c that(1) by (simp add: del_event_def del_event_commit_def Let_def)
  qed
qed

lemma del_event_queues:
  assumes "del_event ctl fd ev (m, k) = Inr (b, m', k')" and "slots_free I m"
  shows "queues I [] m m'"
  using assms(1)
proof (cases rule: del_event_cases)
  case 1
  then show ?thesis by (simp add: queues_refl assms(2))
next
  case (2 left ec)
  let ?c = "(m_fd_contexts m ! fd_index fd)\<lparr>m_events := left\<rparr>"
  note free = slots_free_nth [OF assms(2) 2(1)]
  from slot_free_setContext [of I event_context_empty ?c] free have "slots_free I m'"
    by (intro slots_free_update [OF assms(2), of "setContext ev (resetContext ec) ?c" _ "fd_index fd"])
      (simp_all add: 2(2) resetContext_eq)
  then show ?thesis by (rule queues_keep) (simp_all add: 2(2))
qed

lemma loop_expire_queues:
  assumes "loop_expire now probe (tm, m) = Inr (tm', m')" and "slots_free I m"
  shows "\<exists>es. list_expired_cbs now probe tm = Inr es \<and> tm' = es_tm es \<and>
    queues I (map (\<lambda>c. \<lparr>ft_item = FT_cb c, ft_thread = -1\<rparr>) (es_cbs es)) m m' \<and>
    m_fd_contexts m' = m_fd_contexts m \<and> m_pending_event_count m' = m_pending_event_count m"
proof -
  obtain es where es: "list_expired_cbs now probe tm = Inr es" "tm' = es_tm es"
    and m': "m' = (if es_cbs es \<noteq> [] then m\<lparr>io_scheds := (io_scheds m)(io_self m :=
      snd (schedule_range (es_cbs es) (io_scheds m (io_self m))))\<rparr> else m)"
    using assms(1) by (auto simp: loop_expire_def result_simps)
  have range: "snd (schedule_range cs s) =
      fold schedule_task (map (\<lambda>c. \<lparr>ft_item = FT_cb c, ft_thread = -1\<rparr>) cs) s" for cs and s :: "'a sched"
    by (simp add: schedule_range_as_singles fold_map comp_def schedule_task_def)
  have "queues I (map (\<lambda>c. \<lparr>ft_item = FT_cb c, ft_thread = -1\<rparr>) (es_cbs es)) m m'"
    using assms(2) by (auto simp: queues_def m' own_def range task_free_def slots_free_def)
  with es m' show ?thesis by (intro exI [of _ es]) simp
qed

lemma add_event_queues:
  assumes inv: "io_inv m" and fd: "fd_ok fd" and ev: "ev \<in> {EV_READ, EV_WRITE}" and free: "slots_free I m"
    and f: "t_fiber t = Some f" "f \<notin> I"
    and add: "add_event ctl a (Some sid) fd ev cb (m, k, (t, g)) = Some (Inr (r, m', k', e'))"
  shows "queues I [] m m' \<and> io_inv m' \<and> e' = (t, g) \<and>
    (epoll_ctl_spec ctl interest \<longrightarrow> kernel_sync tfd (interest k) m \<longrightarrow> kernel_sync tfd (interest k') m')"
proof -
  obtain n where n: "length (m_fd_contexts m) \<le> n" "nat fd < n"
      "context_grow fd (m_fd_contexts m) = Some (context_resize n (m_fd_contexts m))"
    using context_grow_total [of "m_fd_contexts m" fd] fd_ok_index [OF fd] inv by (auto simp: io_inv_def)
  let ?m = "m\<lparr>m_fd_contexts := context_resize n (m_fd_contexts m)\<rparr>"
  let ?ec = "new_slot sid cb (t, g)"
  have grown: "io_inv ?m" "slots_free I ?m" "nat fd < length (m_fd_contexts ?m)"
    using io_inv_resize [OF inv n(1)] slots_free_resize [OF free] n by (simp_all add: context_resize_grow)
  have locked: "add_event_locked ctl a (Some sid) fd ev cb (?m, k, (t, g)) = Inr (r, m', k', e')"
    using add n(3) by (simp add: add_event_def)
  then have off: "registered ?m fd AND ev = 0"
    using registered_at [OF fd grown(3)]
    by (auto simp: add_event_locked_def Let_def fd_ok_index [OF fd] result_simps)
  obtain rt k1 where c: "ctl (if registered ?m fd \<noteq> 0 then EPOLL_CTL_MOD else EPOLL_CTL_ADD) fd
      (EPOLLET OR registered ?m fd OR ev) k = (rt, k1)" by fastforce
  have reg: "m_events (context_resize n (m_fd_contexts m) ! nat fd) = registered ?m fd"
    using registered_at [OF fd grown(3)] by simp
  have run: "rt = 0 \<and> cb = None \<longrightarrow> fiber_running (t, g)"
  proof (intro impI, elim conjE)
    assume rt: "rt = 0" and cb: "cb = None"
    show "fiber_running (t, g)"
      using locked c f(1) unfolding add_event_locked_def rt cb
      by (auto simp: fd_ok_index [OF fd] Fiber_GetThis_def reg Let_def rbind_Inr_iff fiber_running_def fiber_get_Inr_iff)
  qed
  note eq = add_event_locked_eq [where ctl = ctl, OF grown(1) fd grown(3) ev _ off c]
  show ?thesis
  proof (cases "rt = 0")
    case True
    let ?c = "m_fd_contexts ?m ! nat fd"
    have "waiting ?ec" and "slot_free I ?ec"
      using run True f by (auto simp: waiting_def new_slot_def slot_free_def)
    from run True locked eq have eq: "m' = event_added fd ev ?ec ?m" "e' = (t, g)" by auto
    have "slots_free I m'"
      using slot_free_setContext [OF \<open>slot_free I ?ec\<close>, of "?c\<lparr>m_events := m_events ?c OR ev\<rparr>"]
        slots_free_nth [OF grown(2,3)]
      by (intro slots_free_update [OF grown(2), of "setContext ev ?ec (?c\<lparr>m_events := m_events ?c OR ev\<rparr>)" _ "nat fd"])
        (simp_all add: eq(1) event_added_def)
    moreover have "io_inv m'"
      unfolding eq(1) by (rule event_added_inv(1) [OF grown(1) fd grown(3) ev off \<open>waiting ?ec\<close>])
    moreover have "kernel_sync tfd (interest k') m'" if "epoll_ctl_spec ctl interest" "kernel_sync tfd (interest k) m"
      using add_event_sync [OF that inv fd ev _ add] run True by simp
    ultimately show ?thesis using eq by (simp add: queues_def own_def event_added_def)
  next
    case False
    then have eq: "m' = ?m" "e' = (t, g)" "k' = k1" using locked c
      by (auto simp: add_event_locked_def fd_ok_index [OF fd] reg Let_def rbind_Inr_iff)
    moreover have "kernel_sync tfd (interest k1) ?m" if "epoll_ctl_spec ctl interest" "kernel_sync tfd (interest k) m"
      using that(2) kernel_sync_fail [OF that(1) c False] registered_resize [OF n(1)] by (simp add: kernel_sync_def)
    ultimately show ?thesis using grown(1,2) by (simp add: queues_def own_def)
  qed
qed

text \<open>A handled event keeps the kernel's interest list in step with the registered events.\<close>

lemma trigger_if_on:
  assumes "trigger_if (b AND ev \<noteq> 0) i ev m = Inr m'" and "b AND ev \<noteq> 0"
  shows "m_events (m_fd_contexts m ! i) AND ev \<noteq> 0"
proof (rule ccontr)
  assume "\<not> m_events (m_fd_contexts m ! i) AND ev \<noteq> 0"
  then have "trigger_at i ev m = Inl (Assertion ''m_events & event'')"
    by (simp add: trigger_at_def triggerEvent_def SYLAR_ASSERT_def)
  with assms show False by (simp add: trigger_if_def)
qed

lemma handled_events_on:
  assumes inv: "io_inv m" and i: "i < length (m_fd_contexts m)"
    and t: "trigger_if (real AND EV_READ \<noteq> 0) i EV_READ m = Inr m1" "trigger_if (real AND EV_WRITE \<noteq> 0) i EV_WRITE m1 = Inr m2"
    and real: "real \<in> {0, 1, 4, 5}"
  shows "real AND NOT (m_events (m_fd_contexts m ! i)) = 0"
proof -
  let ?e = "m_events (m_fd_contexts m ! i)"
  have "?e AND EV_WRITE \<noteq> 0" if b: "real AND EV_WRITE \<noteq> 0"
  proof (cases "real AND EV_READ \<noteq> 0")
    case True
    then have "m1 = fired i EV_READ m"
      using t(1) trigger_at_eq [OF inv i, of EV_READ] trigger_if_on [OF t(1) True] by (simp add: trigger_if_def)
    then have "m_events (m_fd_contexts m1 ! i) = ?e AND NOT EV_READ" using i by simp
    then have "?e AND NOT EV_READ AND EV_WRITE \<noteq> 0" using trigger_if_on [OF t(2) b] by (simp add: and.assoc)
    then show ?thesis using io_inv_events [OF inv i] by auto
  next
    case False
    then have "m1 = m" using t(1) by (simp add: trigger_if_def)
    then show ?thesis using trigger_if_on [OF t(2) b] by simp
  qed
  moreover have "?e AND EV_READ \<noteq> 0" if "real AND EV_READ \<noteq> 0"
    using trigger_if_on [OF t(1) that] .
  ultimately show ?thesis using real io_inv_events [OF inv i] by auto
qed

lemma handle_event_sync:
  assumes spec: "epoll_ctl_spec ctl interest" and sync: "kernel_sync tfd (interest k) m" and inv: "io_inv m"
    and data: "event_data_ok m e" and h: "handle_event ctl e (m, k) = Inr (m', k')"
  shows "kernel_sync tfd (interest k') m'"
proof (cases "ee_data e")
  case Data_tickle
  then have "m' = m\<lparr>tickle_pipe := 0\<rparr>" "k' = k" using h by (simp_all add: handle_event_def)
  then show ?thesis using sync by (simp add: kernel_sync_def registered_def)
next
  case (Data_ctx i)
  let ?c = "m_fd_contexts m ! i"
  define real where "real = real_events (ee_events e) (m_events ?c)"
  define left where "left = m_events ?c AND NOT real"
  have i: "i < length (m_fd_contexts m)" using data Data_ctx by (simp add: event_data_ok_def)
  have fd: "fc_fd ?c = int i" using io_inv_ctx [OF inv i] by simp
  have range: "real \<in> {0, 1, 4, 5}" unfolding real_def by (rule real_events_range)
  obtain rt k1 where c: "ctl (left_op left) (int i) (EPOLLET OR left) k = (rt, k1)" by fastforce
  have h': "(if m_events ?c AND real = 0 then Inr (m, k) else if rt \<noteq> 0 then Inr (m, k1)
      else rbind (trigger_if (real AND EV_READ \<noteq> 0) i EV_READ m) (\<lambda>m1.
        rbind (trigger_if (real AND EV_WRITE \<noteq> 0) i EV_WRITE m1) (\<lambda>m2. Inr (m2, k1)))) = Inr (m', k')"
    using h Data_ctx c fd by (simp add: handle_event_def Let_def left_def real_def cong: if_cong)
  consider "m' = m" "k' = k" | "rt \<noteq> 0" "m' = m" "k' = k1"
    | m1 where "rt = 0" "k' = k1" "trigger_if (real AND EV_READ \<noteq> 0) i EV_READ m = Inr m1"
      "trigger_if (real AND EV_WRITE \<noteq> 0) i EV_WRITE m1 = Inr m'"
    using h' by (auto simp: rbind_Inr_iff split: if_splits)
  then show ?thesis
  proof cases
    case 1
    then show ?thesis using sync by simp
  next
    case 2
    then show ?thesis using sync kernel_sync_fail [OF spec c] by simp
  next
    case 3
    have sub: "real AND NOT (m_events ?c) = 0" by (rule handled_events_on [OF inv i 3(3,4) range])
    have "m' = fire_all i real m"
      using fire_all_eq(1) [OF inv i range sub, of "Inr"] 3(3,4) by simp
    then have reg: "registered m' = (registered m)(int i := left)"
      using fire_all_eq(3) [OF inv i range sub] left_def by simp
    show ?thesis
      unfolding 3(2) by (rule kernel_sync_upd [OF spec c [unfolded 3(1)] sync reg]) (simp add: left_op_def)
  qed
qed

section \<open>A whole turn\<close>

text \<open>
  The time-outs of the calls of \<open>epoll_wait\<close> in the inner loop of \<open>idle()\<close>, for the answers \<open>ws\<close>: an interrupted call is
  made again, with a time-out computed from its own.
\<close>

fun epoll_timeouts :: "u64 \<Rightarrow> wait_result list \<Rightarrow> u64 list" where
  "epoll_timeouts next_timeout [] = []"
| "epoll_timeouts next_timeout (w # ws) =
     (let t = idle_timeout next_timeout
      in t # (if w = Wait_EINTR then epoll_timeouts t ws else []))"

lemma idle_timeout_twice [simp]: "idle_timeout (idle_timeout t) = idle_timeout t"
  by (auto simp: idle_timeout_def)

lemma epoll_timeouts_eq:
  "epoll_wait_loop ws = Some evs \<Longrightarrow>
   epoll_timeouts next ws = replicate (Suc (length (takeWhile (\<lambda>w. w = Wait_EINTR) ws))) (idle_timeout next)"
  by (induction ws arbitrary: "next" rule: epoll_wait_loop.induct) (simp_all add: Let_def)

lemma handle_event_length:
  assumes "handle_event ctl ev (m, k) = Inr (m', k')"
  shows "length (m_fd_contexts m') = length (m_fd_contexts m)"
proof (cases "ee_data ev")
  case Data_tickle
  then show ?thesis using assms by (auto simp: handle_event_def)
next
  case (Data_ctx i)
  have len: "length (m_fd_contexts m2) = length (m_fd_contexts m1)" if "trigger_if b i e m1 = Inr m2" for b e m1 m2
    using that by (auto simp: trigger_if_def trigger_at_def result_simps split: if_splits)
  from Data_ctx assms show ?thesis
    by (auto simp: handle_event_def Let_def rbind_Inr_iff split: prod.splits if_splits dest!: len)
qed

lemma handle_events_queues:
  "handle_events ctl evs (m, k) = Inr (m', k') \<Longrightarrow> slots_free I m \<Longrightarrow> \<forall>ev \<in> set evs. event_data_ok m ev \<Longrightarrow>
   \<exists>q. queues I q m m'"
proof (induction evs arbitrary: m k)
  case Nil
  then show ?case using queues_refl by fastforce
next
  case (Cons ev evs)
  from Cons.prems(1) obtain m1 k1 where h: "handle_event ctl ev (m, k) = Inr (m1, k1)"
    "handle_events ctl evs (m1, k1) = Inr (m', k')" by (auto simp: rbind_Inr_iff)
  from handle_event_queues [OF h(1) Cons.prems(2)] Cons.prems(3) obtain q where q: "queues I q m m1" by auto
  have "\<forall>e \<in> set evs. event_data_ok m1 e"
    using Cons.prems(3) handle_event_length [OF h(1)] by (auto simp: event_data_ok_def split: epoll_data.splits)
  with Cons.IH [OF h(2)] q obtain r where "queues I r m1 m'" by (auto simp: queues_def)
  with queues_trans [OF q] show ?case by blast
qed

lemma queues_fibers: "queues I q m m' \<Longrightarrow> m_fibers (own m') = m_fibers (own m) @ q"
proof -
  have "m_fibers (fold schedule_task q s) = m_fibers s @ q" for s :: "'a sched"
    by (induction q arbitrary: s) (simp_all add: schedule_task_def)
  then show "queues I q m m' \<Longrightarrow> m_fibers (own m') = m_fibers (own m) @ q" by (simp add: queues_def)
qed

text \<open>
  C20 (idle_turn_timers). A turn of the idle fiber that does not stop gives every call of \<open>epoll_wait\<close> the same time-out: at most
  5000 ms, and not beyond the deadline of any timer as counted from the beginning of the turn. An interrupted call is repeated with the whole time-out, so
  the turn may wait longer than that in all. After the wait, the timers \<open>E\<close> at the front of the set are expired: all whose deadline
  lies before the second reading of the clock, none whose deadline lies after it, and of those due exactly then all but the ones whose address lies
  above that of the search key. Their callbacks are appended to the queue in the order of their deadlines, the recurring ones among them are armed
  again, and the deadlines of the others stay. Only then are the reported events handled, whose tasks come after these callbacks.
\<close>

theorem idle_turn_timers:
  assumes "tm_wf tm" and "probe \<notin> set (m_timers tm)" and "\<not> IO_stopping now1 tm m"
    and "epoll_wait_loop ws = Some evs" and "\<forall>ev \<in> set evs. event_data_ok m ev"
  shows "\<exists>t tm' m1 E R.
    epoll_timeouts (get_next_timeout now1 tm) ws = replicate (Suc (length (takeWhile (\<lambda>w. w = Wait_EINTR) ws))) t \<and>
    t \<le> 5000 \<and> (\<forall>a d. deadlines tm a = Some d \<longrightarrow> unat t \<le> unat d - unat now1) \<and>
    m_timers tm = E @ R \<and> (\<forall>a \<in> set E. m_next (tm_at (theap tm) a) \<le> now2) \<and>
    (\<forall>a \<in> set R. now2 < m_next (tm_at (theap tm) a) \<or> now2 = m_next (tm_at (theap tm) a) \<and> probe < a) \<and>
    m_fibers (own m1) = m_fibers (own m) @
      map (\<lambda>a. \<lparr>ft_item = FT_cb (tm_cb (tm_at (theap tm) a)), ft_thread = -1\<rparr>) E \<and>
    deadlines tm' = (\<lambda>a. if a \<in> set E then (if m_recurring (tm_at (theap tm) a)
       then Some (now2 + m_ms (tm_at (theap tm) a)) else None) else deadlines tm a) \<and>
    m_fd_contexts m1 = m_fd_contexts m \<and>
    IO_idle_turn ctl now1 now2 probe ws (tm, m, k) =
      rbind (handle_events ctl evs (m1, k)) (\<lambda>(m2, k2). Inr (Idle_swapOut t, tm', m2, k2)) \<and>
    (\<forall>m2 k2. handle_events ctl evs (m1, k) = Inr (m2, k2) \<longrightarrow> (\<exists>q. m_fibers (own m2) = m_fibers (own m1) @ q))"
proof -
  obtain E R es where es: "m_timers tm = E @ R" "list_expired_cbs now2 probe tm = Inr es"
    "es_cbs es = map (\<lambda>a. tm_cb (tm_at (theap tm) a)) E"
    "\<And>a. a \<in> set E \<Longrightarrow> m_next (tm_at (theap tm) a) \<le> now2"
    "\<And>a. a \<in> set R \<Longrightarrow> now2 < m_next (tm_at (theap tm) a) \<or>
       now2 = m_next (tm_at (theap tm) a) \<and> probe < a"
    "deadlines (es_tm es) = (\<lambda>a. if a \<in> set E then (if m_recurring (tm_at (theap tm) a)
       then Some (now2 + m_ms (tm_at (theap tm) a)) else None) else deadlines tm a)"
    by (rule list_expired_cbs_effect [OF assms(1,2)], rule that)
  let ?next = "get_next_timeout now1 tm"
  let ?t = "idle_timeout ?next"
  let ?m1 = "if es_cbs es \<noteq> [] then m\<lparr>io_scheds := (io_scheds m)(io_self m :=
      snd (schedule_range (es_cbs es) (io_scheds m (io_self m))))\<rparr> else m"
  have free: "slots_free {} m" by (simp add: slots_free_def slot_free_def)
  have "loop_expire now2 probe (tm, m) = Inr (es_tm es, ?m1)" using es(2) by (simp add: loop_expire_def)
  from loop_expire_queues [OF this free] es(2,3)
  have q: "queues {} (map (\<lambda>a. \<lparr>ft_item = FT_cb (tm_cb (tm_at (theap tm) a)), ft_thread = -1\<rparr>) E) m ?m1"
    "m_fd_contexts ?m1 = m_fd_contexts m" by (auto simp: comp_def)
  have turn: "IO_idle_turn ctl now1 now2 probe ws (tm, m, k) =
      rbind (handle_events ctl evs (?m1, k)) (\<lambda>(m2, k2). Inr (Idle_swapOut ?t, es_tm es, m2, k2))"
    using assms(3,4) es(2) by (auto simp: IO_idle_turn_def IO_stopping_def IO_stopping_timeout_def Let_def)
  have "unat ?t \<le> unat d - unat now1" if "deadlines tm a = Some d" for a d
  proof -
    have "?t \<le> ?next" by (auto simp: idle_timeout_def)
    then show ?thesis
      using timers.timeout_le [OF assms(1) that, of now1] by (auto simp: word_le_nat_alt)
  qed
  moreover have "\<exists>q. m_fibers (own m2) = m_fibers (own ?m1) @ q" if h: "handle_events ctl evs (?m1, k) = Inr (m2, k2)" for m2 k2
  proof -
    have "\<forall>ev \<in> set evs. event_data_ok ?m1 ev" using assms(5) by (simp add: event_data_ok_def split: epoll_data.splits)
    from handle_events_queues [OF h _ this, of "{}"] q(1) show ?thesis
      by (auto simp: queues_def [of "{}" _ m] dest: queues_fibers)
  qed
  moreover have "?t \<le> 5000" by (rule idle_timeout_le)
  ultimately show ?thesis
    using es(1,4-6) q(2) queues_fibers [OF q(1)] turn epoll_timeouts_eq [OF assms(4), of ?next]
    by (intro exI [of _ ?t] exI [of _ "es_tm es"] exI [of _ ?m1] exI [of _ E] exI [of _ R] conjI ballI allI impI) blast+
qed

theorem idle_turn_timers_witness:
  "\<exists>t m1 m2 k2 tm'. IO_idle_turn demo_ctl 40 80 4 [Wait_EINTR, Wait_ready [\<lparr>ee_events = EPOLLIN, ee_data = Data_ctx 1\<rparr>]]
       (demo_timers, demo_io, demo_kernel) = Inr (Idle_swapOut t, tm', m2, k2) \<and>
     epoll_timeouts (get_next_timeout 40 demo_timers)
       [Wait_EINTR, Wait_ready [\<lparr>ee_events = EPOLLIN, ee_data = Data_ctx 1\<rparr>]] = [t, t] \<and>
     t \<le> 5000 \<and> m_fd_contexts m1 = m_fd_contexts demo_io \<and> (\<exists>q. m_fibers (own m2) = m_fibers (own m1) @ q)"
proof -
  let ?ev = "\<lparr>ee_events = EPOLLIN, ee_data = Data_ctx 1\<rparr>"
  have p: "4 \<notin> set (m_timers demo_timers)" by (simp add: demo_timers_eq)
  have s: "\<not> IO_stopping 40 demo_timers demo_io"
    by (simp add: IO_stopping_def IO_stopping_timeout_def demo_io_def)
  have w: "epoll_wait_loop [Wait_EINTR, Wait_ready [?ev]] = Some [?ev]" by simp
  have d: "\<forall>ev \<in> set [?ev]. event_data_ok demo_io ev" by (simp add: event_data_ok_def demo_io_def)
  obtain t tm' m1 where f:
    "epoll_timeouts (get_next_timeout 40 demo_timers) [Wait_EINTR, Wait_ready [?ev]] =
       replicate (Suc (length (takeWhile (\<lambda>w. w = Wait_EINTR) [Wait_EINTR, Wait_ready [?ev]]))) t"
    "t \<le> 5000" "m_fd_contexts m1 = m_fd_contexts demo_io"
    "IO_idle_turn demo_ctl 40 80 4 [Wait_EINTR, Wait_ready [?ev]] (demo_timers, demo_io, demo_kernel) =
       rbind (handle_events demo_ctl [?ev] (m1, demo_kernel)) (\<lambda>(m2, k2). Inr (Idle_swapOut t, tm', m2, k2))"
    "\<forall>m2 k2. handle_events demo_ctl [?ev] (m1, demo_kernel) = Inr (m2, k2) \<longrightarrow>
       (\<exists>q. m_fibers (own m2) = m_fibers (own m1) @ q)"
    using idle_turn_timers [OF demo_timers_wf p s w d, of 80 demo_ctl demo_kernel]
    by (elim exE conjE) (rule that)
  have "\<not> isl (IO_idle_turn demo_ctl 40 80 4 [Wait_EINTR, Wait_ready [?ev]] (demo_timers, demo_io, demo_kernel))"
    by code_simp
  with f(4) obtain m2 k2 where h: "handle_events demo_ctl [?ev] (m1, demo_kernel) = Inr (m2, k2)"
    by (cases "handle_events demo_ctl [?ev] (m1, demo_kernel)") auto
  have t: "epoll_timeouts (get_next_timeout 40 demo_timers) [Wait_EINTR, Wait_ready [?ev]] = [t, t]"
    using f(1) by (simp del: epoll_timeouts.simps)
  have e: "IO_idle_turn demo_ctl 40 80 4 [Wait_EINTR, Wait_ready [?ev]] (demo_timers, demo_io, demo_kernel) =
      Inr (Idle_swapOut t, tm', m2, k2)"
    unfolding f(4) h by simp
  from f(5) h obtain q where q: "m_fibers (own m2) = m_fibers (own m1) @ q" by blast
  show ?thesis
    by (intro exI conjI) (rule e, rule t, rule f(2), rule f(3), rule q)
qed

end
