(* ===== verification/Server.thy ===== *)
theory Server
  imports Event_Loop
begin

text \<open>
  The running server: an \<open>IOManager\<close> with its scheduler, timers, events and worker threads as one transition system. The workers
  execute \<open>run()\<close> (theory \<open>Scheduler\<close>), their idle fibers the event loop (theory \<open>Event_Loop\<close>), and client code queues tasks, adds and
  removes events and arms timers, from any thread and in any order. Each call of the virtual \<open>tickle()\<close> is \<open>IOManager::tickle\<close>, made
  right after the step that calls it. A call of \<open>del_event\<close>, \<open>cancel_event\<close> or \<open>cancel_all\<close> and one handled event are one step each
  (what happens otherwise, because the lock on the context is missing, is shown in \<open>IO_Events\<close>), \<open>list_expired_cbs\<close> is one step (its races are
  shown in \<open>Timer\<close>), and so are the three tests of \<open>stopping\<close>. Starting and stopping the threads is not part of the system: it runs from the moment its
  workers have entered the loop of \<open>run()\<close> until \<open>stop()\<close>.

  The event loop's own scheduler is one of \<open>io_scheds\<close>; the others belong to other managers of the process, whose fibers and callbacks can wait for
  events of this one.
\<close>

section \<open>States and steps\<close>

record ('cb, 'k) server =
  sv_glob :: "'cb fglobal"
  sv_thr :: "int \<Rightarrow> 'cb worker option"
  sv_loop :: "int \<Rightarrow> loop_pc"
  sv_tm :: "'cb timer_manager"
  sv_io :: "'cb iomanager"
  sv_k :: 'k

text \<open>The scheduler's view of the server.\<close>

definition world_of :: "('cb, 'k) server \<Rightarrow> 'cb world" where
  "world_of S = \<lparr>w_sched = own (sv_io S), w_glob = sv_glob S, w_thr = sv_thr S\<rparr>"

text \<open>Each \<open>tickle()\<close> that a step from \<open>m\<close> to \<open>m'\<close> made writes to the pipe if a thread is idle.\<close>

definition io_tickles :: "'cb iomanager \<Rightarrow> 'cb iomanager \<Rightarrow> 'cb iomanager" where
  "io_tickles m m' = (IO_tickle ^^ (tickles (own m') - tickles (own m))) m'"

definition put_io :: "'cb iomanager \<Rightarrow> ('cb, 'k) server \<Rightarrow> ('cb, 'k) server" where
  "put_io m S = S\<lparr>sv_io := io_tickles (sv_io S) m\<rparr>"

definition put_world :: "'cb world \<Rightarrow> ('cb, 'k) server \<Rightarrow> ('cb, 'k) server" where
  "put_world W S =
     (let m = sv_io S
      in put_io (m\<lparr>io_scheds := (io_scheds m)(io_self m := w_sched W)\<rparr>)
           (S\<lparr>sv_glob := w_glob W, sv_thr := w_thr W\<rparr>))"

text \<open>A step of a worker's \<open>run()\<close>: a step of the scheduler that moves a worker which is not in its idle fiber.\<close>

definition run_step :: "'cb world \<Rightarrow> 'cb world \<Rightarrow> bool" where
  "run_step W W' \<longleftrightarrow> world_step W W' \<and>
     (\<exists>tid w w'. w_thr W tid = Some w \<and> w_thr W' tid = Some w' \<and> w_pc w \<noteq> In_idle \<and> w_pc w' \<noteq> w_pc w)"

text \<open>An operation on a timer by a client, and the wake-up when a timer became the first to fire.\<close>

inductive timer_op :: "'cb timer_manager \<Rightarrow> 'cb timer_manager \<Rightarrow> bool" where
  op_add: "theap tm a = None \<Longrightarrow> timer_op tm (snd (add_timer now a ms cb rec tm))"
| op_cancel: "timer_op tm (snd (Timer_cancel a tm))"
| op_refresh: "timer_op tm (snd (Timer_refresh now a tm))"
| op_reset: "timer_op tm (snd (Timer_reset now ms from_now a tm))"

definition front_wakes :: "'cb timer_manager \<Rightarrow> 'cb timer_manager \<Rightarrow> 'cb iomanager \<Rightarrow> 'cb iomanager" where
  "front_wakes tm tm' m = (on_timer_insert_at_front ^^ (front_calls tm' - front_calls tm)) m"

definition put_tm :: "'cb timer_manager \<Rightarrow> ('cb, 'k) server \<Rightarrow> ('cb, 'k) server" where
  "put_tm tm S = S\<lparr>sv_tm := tm, sv_io := front_wakes (sv_tm S) tm (sv_io S)\<rparr>"

text \<open>An idle fiber leaves the processor: the worker's step \<open>run_leave\<close>, the loop continuing at \<open>pc\<close>.\<close>

definition put_left :: "int \<Rightarrow> 'cb worker \<Rightarrow> 'cb fglobal \<Rightarrow> loop_pc \<Rightarrow> ('cb, 'k) server \<Rightarrow> ('cb, 'k) server" where
  "put_left tid w g pc S =
     S\<lparr>sv_glob := g, sv_thr := (sv_thr S)(tid \<mapsto> w), sv_loop := (sv_loop S)(tid := pc)\<rparr>"

abbreviation at_loop :: "('cb, 'k) server \<Rightarrow> int \<Rightarrow> 'cb worker \<Rightarrow> loop_pc \<Rightarrow> bool" where
  "at_loop S tid w pc \<equiv> sv_thr S tid = Some w \<and> w_pc w = In_idle \<and> sv_loop S tid = pc"

text \<open>The tasks that an operation from \<open>m\<close> to \<open>m'\<close> appended to the queue.\<close>

definition added :: "'cb iomanager \<Rightarrow> 'cb iomanager \<Rightarrow> 'cb task list" where
  "added m m' = drop (length (m_fibers (own m))) (m_fibers (own m'))"

text \<open>
  The steps, labelled with the tasks they queue on the server's scheduler (the requeueing of a fiber that yielded is not counted). \<open>sv_add\<close> is
  a call on a thread that runs fiber \<open>f\<close>.
\<close>

inductive server_step :: "'k epoll_ctl \<Rightarrow> 'cb task list \<Rightarrow> ('cb, 'k) server \<Rightarrow> ('cb, 'k) server \<Rightarrow> bool" for ctl where
  sv_schedule:
    "fc \<notin> {FT_fiber (Some i) | i. i \<in> idles (world_of S)} \<Longrightarrow>
     server_step ctl [\<lparr>ft_item = fc, ft_thread = thr\<rparr>] S
       (put_world (world_of S\<lparr>w_sched := schedule fc thr (own (sv_io S))\<rparr>) S)"
| sv_new_fiber:
    "fheap (sv_glob S) a = None \<Longrightarrow>
     server_step ctl [] S (S\<lparr>sv_glob := Fiber_new a cb sz uc dflt st (sv_glob S)\<rparr>)"
| sv_run: "run_step (world_of S) W' \<Longrightarrow> server_step ctl [] S (put_world W' S)"
| sv_add:
    "fd_ok fd \<Longrightarrow> ev \<in> {EV_READ, EV_WRITE} \<Longrightarrow> t_fiber t = Some f \<Longrightarrow> f \<notin> idles (world_of S) \<Longrightarrow>
     add_event ctl a (Some sid) fd ev cb (sv_io S, sv_k S, (t, sv_glob S)) = Some (Inr (r, m', k', e')) \<Longrightarrow>
     server_step ctl [] S ((put_io m' S)\<lparr>sv_k := k'\<rparr>)"
| sv_del:
    "fd_ok fd \<Longrightarrow> ev \<in> {EV_READ, EV_WRITE} \<Longrightarrow> del_event ctl fd ev (sv_io S, sv_k S) = Inr (b, m', k') \<Longrightarrow>
     server_step ctl [] S ((put_io m' S)\<lparr>sv_k := k'\<rparr>)"
| sv_cancel:
    "fd_ok fd \<Longrightarrow> ev \<in> {EV_READ, EV_WRITE} \<Longrightarrow> cancel_event ctl fd ev (sv_io S, sv_k S) = Inr (b, m', k') \<Longrightarrow>
     server_step ctl (added (sv_io S) m') S ((put_io m' S)\<lparr>sv_k := k'\<rparr>)"
| sv_cancel_all:
    "fd_ok fd \<Longrightarrow> cancel_all ctl fd (sv_io S, sv_k S) = Inr (b, m', k') \<Longrightarrow>
     server_step ctl (added (sv_io S) m') S ((put_io m' S)\<lparr>sv_k := k'\<rparr>)"
| sv_timer: "timer_op (sv_tm S) tm' \<Longrightarrow> server_step ctl [] S (put_tm tm' S)"
| sv_check:
    "at_loop S tid w Loop_check \<Longrightarrow> loop_check now (sv_tm S) (sv_io S) = Some pc \<Longrightarrow>
     server_step ctl [] S (S\<lparr>sv_loop := (sv_loop S)(tid := pc)\<rparr>)"
| sv_exit:
    "at_loop S tid w Loop_check \<Longrightarrow> loop_check now (sv_tm S) (sv_io S) = None \<Longrightarrow>
     run_leave (Leave_end Body_returns) w (sv_glob S) = Inr (w', g') \<Longrightarrow>
     server_step ctl [] S (put_left tid w' g' Loop_check S)"
| sv_woken:
    "at_loop S tid w (Loop_wait t) \<Longrightarrow> server_step ctl [] S (S\<lparr>sv_loop := (sv_loop S)(tid := loop_woken t r)\<rparr>)"
| sv_expire:
    "at_loop S tid w (Loop_expire evs) \<Longrightarrow> probe \<notin> set (m_timers (sv_tm S)) \<Longrightarrow>
     loop_expire now probe (sv_tm S, sv_io S) = Inr (tm', m') \<Longrightarrow>
     server_step ctl (added (sv_io S) m') S (S\<lparr>sv_tm := tm', sv_loop := (sv_loop S)(tid := Loop_events evs),
         sv_io := front_wakes (sv_tm S) tm' (io_tickles (sv_io S) m')\<rparr>)"
| sv_event:
    "at_loop S tid w (Loop_events (ev # evs)) \<Longrightarrow> event_data_ok (sv_io S) ev \<Longrightarrow>
     handle_event ctl ev (sv_io S, sv_k S) = Inr (m', k') \<Longrightarrow>
     server_step ctl (added (sv_io S) m') S ((put_io m' (S\<lparr>sv_loop := (sv_loop S)(tid := Loop_events evs)\<rparr>))\<lparr>sv_k := k'\<rparr>)"
| sv_swapOut:
    "at_loop S tid w (Loop_events []) \<Longrightarrow> loop_swapOut a (w_tls w, sv_glob S) = Inr (t', g') \<Longrightarrow>
     server_step ctl [] S (put_left tid (w\<lparr>w_tls := t', w_pc := After_idle\<rparr>) g' Loop_check S)"

section \<open>The scheduler inside the server\<close>

text \<open>A run of the scheduler with the events of the abstract bag.\<close>

abbreviation world_run :: "'cb world \<Rightarrow> 'cb bag_event list \<Rightarrow> 'cb world \<Rightarrow> bool" where
  "world_run \<equiv> runs (\<lambda>e x y. world_step x y \<and> event_ok e x y \<and> bag_step e (bag_of x) (bag_of y))"

lemma world_run_steps: "world_run W es W' \<Longrightarrow> world_step\<^sup>*\<^sup>* W W'"
  by (induction rule: runs.induct) (auto intro: converse_rtranclp_into_rtranclp)

lemma world_run_bag:
  "world_run W es W' \<Longrightarrow> runs (\<lambda>e x y. world_step x y \<and> event_ok e x y) W es W' \<and>
     runs bag_step (bag_of W) es (bag_of W')"
  by (induction rule: runs.induct) (auto intro: runs_Cons)

lemma world_run_one:
  "bag_sim q W W' \<Longrightarrow> world_step W W' \<Longrightarrow> \<exists>es. world_run W es W' \<and> concat (map ev_submitted es) = q"
proof -
  assume "bag_sim q W W'" "world_step W W'"
  then obtain e where "world_run W [e] W'" "ev_submitted e = q"
    by (auto simp: bag_sim_def runs_Cons_iff)
  then show ?thesis by (intro exI [of _ "[e]"]) simp
qed

lemma world_step_idles:
  assumes "world_step W W'" and "idle_inv W"
  shows "idles W' = idles W"
  using assms
proof (induction rule: world_step.induct)
  case (ws_schedule fc W thr)
  then show ?case by (simp add: idles_def)
next
  case (ws_new_fiber W a cb sz uc dflt st)
  then show ?case by (simp add: idles_def)
next
  case (ws_pick W tid w w' s')
  note inv = idle_invD [OF ws_pick(4,1)]
  from pick_free [OF ws_pick(3,2) inv(1,3)] show ?case
    using idles_upd [OF ws_pick(1), where w' = w' and s = s' and g = "w_glob W"] by simp
next
  case (ws_dispatch W tid w a dflt w' s' g')
  note inv = idle_invD [OF ws_dispatch(5,1)]
  from dispatch_free [OF ws_dispatch(4,2) inv(1,2) ws_dispatch(3)] show ?case
    using idles_upd [OF ws_dispatch(1)] by blast
next
  case (ws_leave W tid w f l w' g')
  then have "w_idle_fiber w' = w_idle_fiber w" by (auto simp: run_leave_def result_simps)
  then show ?case using idles_upd [OF ws_leave(1), where w' = w' and s = "w_sched W" and g = g'] by simp
next
  case (ws_idle W tid w l w' g')
  then have "w_idle_fiber w' = w_idle_fiber w" by (auto simp: run_leave_def result_simps)
  then show ?case using idles_upd [OF ws_idle(1), where w' = w' and s = "w_sched W" and g = g'] by simp
next
  case (ws_after W tid w f w' s' g')
  note inv = idle_invD [OF ws_after(4,1)]
  from after_free [OF ws_after(3) inv(1,2,3)] show ?case using idles_upd [OF ws_after(1)] by blast
qed

lemma world_run_inv:
  "world_run W es W' \<Longrightarrow> hands_ok W \<Longrightarrow> counters_ok W \<Longrightarrow> idle_inv W \<Longrightarrow>
   hands_ok W' \<and> counters_ok W' \<and> idle_inv W' \<and> idles W' = idles W"
proof (induction rule: runs.induct)
  case (runs_Cons e W W1 es W2)
  from runs_Cons.hyps(1) have step: "world_step W W1" by blast
  have "hands_ok W1 \<and> counters_ok W1 \<and> idle_inv W1 \<and> idles W1 = idles W"
    using bags.inv_step [OF runs_Cons.prems(1) step] counters_ok_step [OF step runs_Cons.prems(2)]
      idle_inv_step [OF step runs_Cons.prems(3)] world_step_idles [OF step runs_Cons.prems(3)] by blast
  with runs_Cons.IH show ?case by simp
qed simp

text \<open>A step of \<open>run()\<close> submits nothing.\<close>

lemma run_step_quiet:
  assumes "run_step W W'" and "hands_ok W"
  shows "bag_sim [] W W'"
proof -
  obtain t0 v v' where v: "w_thr W t0 = Some v" "w_thr W' t0 = Some v'" "w_pc v \<noteq> In_idle" "w_pc v' \<noteq> w_pc v"
    and step: "world_step W W'" using assms(1) by (auto simp: run_step_def)
  from step v assms(2) show ?thesis
  proof (induction rule: world_step.induct)
    case (ws_pick W tid w w' s')
    then show ?case using pick_sim [of W tid w w' s'] by simp
  next
    case (ws_dispatch W tid w a dflt w' s' g')
    then show ?case using dispatch_sim by blast
  next
    case (ws_leave W tid w f l w' g')
    then show ?case using leave_sim [of W tid w f l w' g'] by auto
  next
    case (ws_after W tid w f w' s' g')
    then show ?case using after_sim by blast
  qed (auto split: if_splits)
qed

text \<open>Tasks queued one after the other are a run of the scheduler.\<close>

lemma queued_run:
  "hands_ok W \<Longrightarrow> \<forall>t \<in> set q. task_free (idles W) t \<Longrightarrow>
   \<exists>es. world_run W es (W\<lparr>w_sched := fold schedule_task q (w_sched W)\<rparr>) \<and> concat (map ev_submitted es) = q"
proof (induction q arbitrary: W)
  case Nil
  have "world_run W [] (W\<lparr>w_sched := fold schedule_task [] (w_sched W)\<rparr>)" by simp
  then show ?case by (intro exI [of _ "[]"]) simp
next
  case (Cons t q)
  let ?W = "W\<lparr>w_sched := schedule_task t (w_sched W)\<rparr>"
  have free: "ft_item t \<notin> {FT_fiber (Some i) | i. i \<in> idles W}"
    using Cons.prems(2) by (auto simp: task_free_def)
  have sim: "bag_sim [t] W ?W"
    using schedule_sim [OF Cons.prems(1), of "ft_item t" "ft_thread t"] by (cases t) (simp add: schedule_task_def)
  have step: "world_step W ?W" using ws_schedule [OF free, of "ft_thread t"] by (simp add: schedule_task_def)
  from world_run_one [OF sim step] obtain es where es: "world_run W es ?W" "concat (map ev_submitted es) = [t]" by blast
  have "hands_ok ?W" "idles ?W = idles W" using sim by (simp_all add: bag_sim_def idles_def)
  with Cons.IH [of ?W] Cons.prems(2) obtain es' where
    "world_run ?W es' (?W\<lparr>w_sched := fold schedule_task q (w_sched ?W)\<rparr>)" "concat (map ev_submitted es') = q"
    by auto
  with es runs_append [OF es(1)] show ?case by (intro exI [of _ "es @ es'"]) simp
qed

section \<open>The invariant of the server\<close>

text \<open>Waking the event loop writes to the pipe and changes nothing else.\<close>

definition same_but_pipe :: "'cb iomanager \<Rightarrow> 'cb iomanager \<Rightarrow> bool" where
  "same_but_pipe m m' \<longleftrightarrow> (\<exists>n. m' = m\<lparr>tickle_pipe := n\<rparr>)"

lemma same_but_pipe_IO_tickle: "same_but_pipe m m' \<Longrightarrow> same_but_pipe m (IO_tickle m')"
  by (auto simp: same_but_pipe_def IO_tickle_def)

lemma same_but_pipe_refl: "same_but_pipe m m"
  unfolding same_but_pipe_def by (rule exI [of _ "tickle_pipe m"]) simp

lemma same_but_pipe_tickles: "same_but_pipe m ((IO_tickle ^^ n) m)"
  by (induction n) (auto intro: same_but_pipe_refl same_but_pipe_IO_tickle)

lemma same_but_pipe_trans: "same_but_pipe m m1 \<Longrightarrow> same_but_pipe m1 m2 \<Longrightarrow> same_but_pipe m m2"
  by (auto simp: same_but_pipe_def)

lemma io_tickles_pipe: "same_but_pipe m' (io_tickles m m')"
  by (simp add: io_tickles_def same_but_pipe_tickles)

lemma front_wakes_pipe: "same_but_pipe m (front_wakes tm tm' m)"
proof -
  have "(on_timer_insert_at_front :: 'a iomanager \<Rightarrow> 'a iomanager) = IO_tickle"
    by (simp add: fun_eq_iff on_timer_insert_at_front_def)
  then show ?thesis by (simp add: front_wakes_def same_but_pipe_tickles)
qed

lemma same_but_pipe_facts:
  assumes "same_but_pipe m m'"
  shows "own m' = own m" "io_self m' = io_self m" "io_inv m' = io_inv m" "slots_free I m' = slots_free I m"
  using assms by (auto simp: same_but_pipe_def own_def io_inv_def slots_free_def)

lemmas pipe_facts [simp] =
  same_but_pipe_facts [OF io_tickles_pipe] same_but_pipe_facts [OF front_wakes_pipe]

lemma world_of_simps [simp]:
  "w_sched (world_of S) = own (sv_io S)" "w_glob (world_of S) = sv_glob S" "w_thr (world_of S) = sv_thr S"
  by (simp_all add: world_of_def)

lemma world_of_put_io [simp]:
  "world_of (put_io m S) = world_of S\<lparr>w_sched := own m\<rparr>"
  by (simp add: world_of_def put_io_def)

lemma world_of_put_world [simp]: "world_of (put_world W S) = W"
  by (simp add: put_world_def Let_def) (simp add: world_of_def own_def)

lemma world_of_put_tm [simp]: "world_of (put_tm tm S) = world_of S"
  by (simp add: world_of_def put_tm_def)

lemma world_of_frame [simp]:
  "world_of (S\<lparr>sv_k := k\<rparr>) = world_of S" "world_of (S\<lparr>sv_loop := l\<rparr>) = world_of S"
  "world_of (S\<lparr>sv_tm := tm\<rparr>) = world_of S"
  by (simp_all add: world_of_def)

text \<open>Every part of the server is in order, and no thread waits in \<open>epoll_wait\<close> for more than five seconds.\<close>

definition waits_bounded :: "('cb, 'k) server \<Rightarrow> bool" where
  "waits_bounded S \<longleftrightarrow> (\<forall>tid t. sv_loop S tid = Loop_wait t \<longrightarrow> t \<le> 5000)"

definition server_inv :: "('cb, 'k) server \<Rightarrow> bool" where
  "server_inv S \<longleftrightarrow> hands_ok (world_of S) \<and> counters_ok (world_of S) \<and> idle_inv (world_of S) \<and>
     io_inv (sv_io S) \<and> slots_free (idles (world_of S)) (sv_io S) \<and> tm_wf (sv_tm S) \<and> waits_bounded S"

text \<open>What one step does: the scheduler runs, submitting \<open>q\<close>, and the other parts stay in order.\<close>

definition server_sim :: "'cb task list \<Rightarrow> ('cb, 'k) server \<Rightarrow> ('cb, 'k) server \<Rightarrow> bool" where
  "server_sim q S S' \<longleftrightarrow>
     (\<exists>es. world_run (world_of S) es (world_of S') \<and> concat (map ev_submitted es) = q) \<and>
     io_inv (sv_io S') \<and> slots_free (idles (world_of S)) (sv_io S') \<and> tm_wf (sv_tm S') \<and> waits_bounded S'"

lemma server_sim_inv:
  assumes "server_sim q S S'" and "server_inv S"
  shows "server_inv S'"
proof -
  obtain es where "world_run (world_of S) es (world_of S')" using assms(1) by (auto simp: server_sim_def)
  from world_run_inv [OF this] assms show ?thesis by (simp add: server_sim_def server_inv_def)
qed

lemma world_run_Nil: "\<exists>es. world_run W es W \<and> concat (map ev_submitted es) = []"
  by (rule exI [of _ "[]"]) simp

lemma added_queues: "queues I q m m' \<Longrightarrow> added m m' = q"
proof -
  have "m_fibers (fold schedule_task q s) = m_fibers s @ q" for s :: "'a sched"
    by (induction q arbitrary: s) (simp_all add: schedule_task_def)
  then show "queues I q m m' \<Longrightarrow> added m m' = q" by (simp add: queues_def added_def)
qed

text \<open>An operation on the events, whose effect on the queue is given by \<open>queues\<close>.\<close>

lemma io_op_sim:
  assumes inv: "server_inv S" and q: "queues (idles (world_of S)) q (sv_io S) m'" and m': "io_inv m'"
    and S': "world_of S' = world_of S\<lparr>w_sched := own m'\<rparr>" "same_but_pipe m' (sv_io S')" "tm_wf (sv_tm S')" "waits_bounded S'"
  shows "server_sim (added (sv_io S) m') S S'"
proof -
  have "own m' = fold schedule_task q (w_sched (world_of S))" "\<forall>t \<in> set q. task_free (idles (world_of S)) t"
    "slots_free (idles (world_of S)) m'" using q by (simp_all add: queues_def)
  with queued_run [of "world_of S" q] inv S'(1) show ?thesis
    using m' S'(2-4) same_but_pipe_facts [OF S'(2)] added_queues [OF q]
    by (simp add: server_sim_def server_inv_def)
qed

lemma put_world_parts:
  "sv_tm (put_world W S) = sv_tm S" "sv_loop (put_world W S) = sv_loop S"
  "io_inv (sv_io (put_world W S)) = io_inv (sv_io S)"
  "slots_free I (sv_io (put_world W S)) = slots_free I (sv_io S)"
  by (simp_all add: put_world_def put_io_def Let_def) (simp_all add: io_inv_def slots_free_def)

text \<open>A step of the scheduler alone.\<close>

lemma world_op_sim:
  assumes "server_inv S" and "bag_sim q (world_of S) W'" and "world_step (world_of S) W'"
    and S': "world_of S' = W'" "sv_tm S' = sv_tm S" "waits_bounded S'"
      "io_inv (sv_io S') = io_inv (sv_io S)" "slots_free (idles (world_of S)) (sv_io S') = slots_free (idles (world_of S)) (sv_io S)"
  shows "server_sim q S S'"
  using world_run_one [OF assms(2,3)] assms(1) S' by (simp add: server_sim_def server_inv_def)

text \<open>A step that leaves the scheduler alone.\<close>

lemma quiet_sim:
  assumes "server_inv S" and "world_of S' = world_of S" and "same_but_pipe (sv_io S) (sv_io S')"
    and "tm_wf (sv_tm S')" and "waits_bounded S'"
  shows "server_sim [] S S'"
  using world_run_Nil [of "world_of S"] assms same_but_pipe_facts [OF assms(3)]
  by (simp add: server_sim_def server_inv_def)

lemma timer_op_wf: "timer_op tm tm' \<Longrightarrow> tm_wf tm \<Longrightarrow> tm_wf tm'"
proof (induction rule: timer_op.induct)
  case (op_add tm a now ms cb rec)
  then have "a \<notin> set (m_timers tm)" by (auto simp: tm_wf_def)
  with op_add show ?case by (intro tm_wf_add_timer)
qed (simp_all add: tm_wf_Timer_cancel tm_wf_Timer_refresh tm_wf_Timer_reset)

lemma waits_bounded_upd:
  "waits_bounded S \<Longrightarrow> sv_loop S' = (sv_loop S)(tid := pc) \<Longrightarrow> (\<And>t. pc = Loop_wait t \<Longrightarrow> t \<le> 5000) \<Longrightarrow> waits_bounded S'"
  by (auto simp: waits_bounded_def)

lemma waits_bounded_same: "waits_bounded S \<Longrightarrow> sv_loop S' = sv_loop S \<Longrightarrow> waits_bounded S'"
  by (simp add: waits_bounded_def)

lemma put_io_parts [simp]:
  "sv_tm (put_io m S) = sv_tm S" "sv_loop (put_io m S) = sv_loop S" "sv_io (put_io m S) = io_tickles (sv_io S) m"
  by (simp_all add: put_io_def)

lemma put_tm_parts [simp]:
  "sv_tm (put_tm tm S) = tm" "sv_loop (put_tm tm S) = sv_loop S" "sv_io (put_tm tm S) = front_wakes (sv_tm S) tm (sv_io S)"
  by (simp_all add: put_tm_def)

lemma server_invD:
  assumes "server_inv S"
  shows "hands_ok (world_of S)" "counters_ok (world_of S)" "idle_inv (world_of S)" "io_inv (sv_io S)"
    "slots_free (idles (world_of S)) (sv_io S)" "tm_wf (sv_tm S)" "waits_bounded S"
  using assms by (simp_all add: server_inv_def)

section \<open>Every step\<close>

lemma idle_worker:
  assumes "server_inv S" and "at_loop S tid w pc"
  shows "t_fiber (w_tls w) = Some (w_idle_fiber w)" "\<not> m_stopping (own (sv_io S))"
  using idle_invD [OF server_invD(3) [OF assms(1)], of tid w] assms(2) by (auto simp: worker_free_def)

lemma swapOut_sim:
  assumes inv: "server_inv S" and at: "at_loop S tid w (Loop_events [])"
    and out: "loop_swapOut a (w_tls w, sv_glob S) = Inr (t', g')"
  shows "server_sim [] S (put_left tid (w\<lparr>w_tls := t', w_pc := After_idle\<rparr>) g' Loop_check S)"
    (is "server_sim [] S ?S'")
proof -
  let ?w = "w\<lparr>w_tls := t', w_pc := After_idle\<rparr>"
  let ?W' = "world_of S\<lparr>w_glob := g', w_thr := (sv_thr S)(tid \<mapsto> ?w)\<rparr>"
  have lv: "run_leave Leave_bare w (sv_glob S) = Inr (?w, g')"
    using at out [unfolded loop_swapOut_leave [OF idle_worker(1) [OF inv at]]] by (simp add: run_leave_def)
  have step: "world_step (world_of S) ?W'"
    using ws_idle [of "world_of S" tid w Leave_bare ?w g'] at lv by simp
  have sim: "bag_sim [] (world_of S) ?W'"
    using leave_sim [of "world_of S" tid w undefined Leave_bare ?w g'] at lv server_invD(1) [OF inv]
    by (simp add: world_of_def)
  show ?thesis
  proof (rule world_op_sim [OF inv sim step])
    show "world_of ?S' = ?W'" by (simp add: world_of_def put_left_def)
    show "waits_bounded ?S'"
      using server_invD(7) [OF inv] by (auto simp: put_left_def intro: waits_bounded_upd)
  qed (simp_all add: put_left_def)
qed

lemma expire_sim:
  assumes inv: "server_inv S" and probe: "probe \<notin> set (m_timers (sv_tm S))"
    and ex: "loop_expire now probe (sv_tm S, sv_io S) = Inr (tm', m')"
  shows "server_sim (added (sv_io S) m') S
    (S\<lparr>sv_tm := tm', sv_loop := (sv_loop S)(tid := Loop_events evs),
       sv_io := front_wakes (sv_tm S) tm' (io_tickles (sv_io S) m')\<rparr>)" (is "server_sim _ S ?S'")
proof -
  note inv' = server_invD [OF inv]
  obtain es where es: "list_expired_cbs now probe (sv_tm S) = Inr es" "tm' = es_tm es"
    "queues (idles (world_of S)) (map (\<lambda>c. \<lparr>ft_item = FT_cb c, ft_thread = -1\<rparr>) (es_cbs es)) (sv_io S) m'"
    "m_fd_contexts m' = m_fd_contexts (sv_io S)" "m_pending_event_count m' = m_pending_event_count (sv_io S)"
    using loop_expire_queues [OF ex inv'(5)] by blast
  show ?thesis
  proof (rule io_op_sim [OF inv es(3)])
    show "io_inv m'" using inv'(4) es(4,5) io_inv_cong by blast
    show "world_of ?S' = world_of S\<lparr>w_sched := own m'\<rparr>" by (simp add: world_of_def)
    show "same_but_pipe m' (sv_io ?S')"
      using same_but_pipe_trans [OF io_tickles_pipe front_wakes_pipe] by simp
    show "tm_wf (sv_tm ?S')"
      using list_expired_cbs_wf [OF inv'(6) probe, of now] es(1,2) by auto
    show "waits_bounded ?S'" using inv'(7) by (auto intro: waits_bounded_upd)
  qed
qed

lemma event_op_sim:
  assumes inv: "server_inv S" and q: "\<exists>q. queues (idles (world_of S)) q (sv_io S) m'" and m': "io_inv m'"
    and l: "waits_bounded (S\<lparr>sv_loop := l\<rparr>)"
  shows "server_sim (added (sv_io S) m') S ((put_io m' (S\<lparr>sv_loop := l\<rparr>))\<lparr>sv_k := k'\<rparr>)"
proof -
  from q obtain q where q: "queues (idles (world_of S)) q (sv_io S) m'" ..
  have "waits_bounded ((put_io m' (S\<lparr>sv_loop := l\<rparr>))\<lparr>sv_k := k'\<rparr>)"
    using l by (simp add: waits_bounded_def)
  then show ?thesis
    using server_invD(6) [OF inv] io_tickles_pipe
    by (intro io_op_sim [OF inv q m']) simp_all
qed

lemma server_step_sim:
  assumes "server_step ctl q S S'" and "server_inv S"
  shows "server_sim q S S'"
  using assms(1)
proof (cases rule: server_step.cases)
  case (sv_schedule fc thr)
  let ?W' = "world_of S\<lparr>w_sched := schedule fc thr (own (sv_io S))\<rparr>"
  have "world_step (world_of S) ?W'" using ws_schedule [OF sv_schedule(3)] by simp
  moreover have "bag_sim q (world_of S) ?W'"
    using schedule_sim [OF server_invD(1) [OF assms(2)], of fc thr] sv_schedule(1) by simp
  ultimately show ?thesis
    unfolding sv_schedule(2) using server_invD(7) [OF assms(2)]
    by (intro world_op_sim [OF assms(2)]) (simp_all add: put_world_parts waits_bounded_def)
next
  case (sv_new_fiber a cb sz uc dflt st)
  let ?W' = "world_of S\<lparr>w_glob := Fiber_new a cb sz uc dflt st (sv_glob S)\<rparr>"
  have "world_step (world_of S) ?W'" using ws_new_fiber [of "world_of S" a] sv_new_fiber(3) by simp
  moreover have "bag_sim q (world_of S) ?W'"
    using new_fiber_sim [OF server_invD(1) [OF assms(2)]] sv_new_fiber(1) by simp
  ultimately show ?thesis
    unfolding sv_new_fiber(2) using server_invD(7) [OF assms(2)]
    by (intro world_op_sim [OF assms(2)]) (simp_all add: world_of_def waits_bounded_def)
next
  case (sv_run W')
  then have "world_step (world_of S) W'" by (simp add: run_step_def)
  moreover have "bag_sim q (world_of S) W'"
    using run_step_quiet [OF sv_run(3) server_invD(1) [OF assms(2)]] sv_run(1) by simp
  ultimately show ?thesis
    unfolding sv_run(2) using server_invD(7) [OF assms(2)]
    by (intro world_op_sim [OF assms(2)]) (simp_all add: put_world_parts waits_bounded_def)
next
  case (sv_add fd ev t f a sid cb r m' k' e')
  note add = add_event_queues [OF server_invD(4) [OF assms(2)] sv_add(3,4) server_invD(5) [OF assms(2)] sv_add(5-7)]
  from add have "added (sv_io S) m' = []" using added_queues by blast
  with event_op_sim [OF assms(2), of m' "sv_loop S" k'] add server_invD(7) [OF assms(2)] show ?thesis
    unfolding sv_add(1,2) by auto
next
  case (sv_del fd ev b m' k')
  note q = del_event_queues [OF sv_del(5) server_invD(5) [OF assms(2)]]
  have "io_inv m'" using io_step_inv [OF io_del [OF sv_del(3-5)]] server_invD(4) [OF assms(2)] by simp
  with event_op_sim [OF assms(2), of m' "sv_loop S" k'] q added_queues [OF q] server_invD(7) [OF assms(2)]
  show ?thesis unfolding sv_del(1,2) by auto
next
  case (sv_cancel fd ev b m' k')
  note q = cancel_event_queues [OF sv_cancel(5) server_invD(5) [OF assms(2)]]
  have "io_inv m'" using io_step_inv [OF io_cancel [OF sv_cancel(3-5)]] server_invD(4) [OF assms(2)] by simp
  with event_op_sim [OF assms(2) q, of "sv_loop S" k'] server_invD(7) [OF assms(2)]
  show ?thesis unfolding sv_cancel(1,2) by simp
next
  case (sv_cancel_all fd b m' k')
  note q = cancel_all_queues [OF sv_cancel_all(4) server_invD(5) [OF assms(2)]]
  have "io_inv m'" using io_step_inv [OF io_cancel_all [OF sv_cancel_all(3,4)]] server_invD(4) [OF assms(2)] by simp
  with event_op_sim [OF assms(2) q, of "sv_loop S" k'] server_invD(7) [OF assms(2)]
  show ?thesis unfolding sv_cancel_all(1,2) by simp
next
  case (sv_timer tm')
  then show ?thesis
    using timer_op_wf [OF sv_timer(3) server_invD(6) [OF assms(2)]] server_invD(7) [OF assms(2)]
    by (intro quiet_sim [OF assms(2), of S', folded sv_timer(1)])
      (simp_all add: front_wakes_pipe waits_bounded_def)
next
  case (sv_check tid w now pc)
  from sv_check(4) have pc: "t \<le> 5000" if "pc = Loop_wait t" for t
    using that idle_timeout_le by (auto simp: loop_check_def Let_def split: prod.splits if_splits)
  show ?thesis
    unfolding sv_check(1,2) using server_invD(6,7) [OF assms(2)] pc
    by (intro quiet_sim [OF assms(2)]) (auto simp: same_but_pipe_refl intro: waits_bounded_upd)
next
  case (sv_exit tid w now w' g')
  then have "m_stopping (own (sv_io S))"
    by (auto simp: loop_check_def IO_stopping_timeout_def stopping_def own_def Let_def split: if_splits)
  with idle_worker(2) [OF assms(2) sv_exit(3)] show ?thesis by simp
next
  case (sv_woken tid w t r)
  have "t' \<le> 5000" if "loop_woken t r = Loop_wait t'" for t'
    using that idle_timeout_le by (auto simp: loop_woken_def split: wait_result.splits)
  then show ?thesis
    unfolding sv_woken(1,2) using server_invD(6,7) [OF assms(2)]
    by (intro quiet_sim [OF assms(2)]) (auto simp: same_but_pipe_refl intro: waits_bounded_upd)
next
  case (sv_expire tid w evs probe now tm' m')
  then show ?thesis using expire_sim [OF assms(2)] by simp
next
  case (sv_event tid w ev evs m' k')
  note q = handle_event_queues [OF sv_event(5) server_invD(5) [OF assms(2)] sv_event(4)]
  have "io_inv m'"
    using handle_event_inv [OF server_invD(4) [OF assms(2)] _ sv_event(5)] sv_event(4) by (simp add: event_data_ok_def)
  moreover have "waits_bounded (S\<lparr>sv_loop := (sv_loop S)(tid := Loop_events evs)\<rparr>)"
    using server_invD(7) [OF assms(2)] by (rule waits_bounded_upd [where tid = tid and pc = "Loop_events evs"]) simp_all
  ultimately show ?thesis unfolding sv_event(1,2) by (rule event_op_sim [OF assms(2) q])
next
  case (sv_swapOut tid w a t' g')
  then show ?thesis using swapOut_sim [OF assms(2)] by simp
qed

section \<open>Runs of the server\<close>

text \<open>
  A system whose labelled steps are each implemented by a run of another one, the label being what the events of that run make visible.
\<close>

locale labelled_simulation =
  fixes cstep :: "'q list \<Rightarrow> 's \<Rightarrow> 's \<Rightarrow> bool" and inv :: "'s \<Rightarrow> bool" and view :: "'s \<Rightarrow> 'a"
    and astep :: "'e \<Rightarrow> 'a \<Rightarrow> 'a \<Rightarrow> bool" and shown :: "'e \<Rightarrow> 'q list"
  assumes inv_step: "inv s \<Longrightarrow> cstep q s s' \<Longrightarrow> inv s'"
    and simulate: "inv s \<Longrightarrow> cstep q s s' \<Longrightarrow> \<exists>es. runs astep (view s) es (view s') \<and> concat (map shown es) = q"
begin

lemma inv_runs: "runs cstep s qs s' \<Longrightarrow> inv s \<Longrightarrow> inv s'"
  by (induction rule: runs.induct) (auto intro: inv_step)

lemma simulate_runs:
  "runs cstep s qs s' \<Longrightarrow> inv s \<Longrightarrow>
   \<exists>es. runs astep (view s) es (view s') \<and> concat (map shown es) = concat qs"
proof (induction rule: runs.induct)
  case (runs_Nil s)
  have "runs astep (view s) [] (view s) \<and> concat (map shown []) = concat []" by simp
  then show ?case by blast
next
  case (runs_Cons q s s1 qs s2)
  from simulate [OF runs_Cons.prems runs_Cons.hyps(1)] obtain es where
    es: "runs astep (view s) es (view s1)" "concat (map shown es) = q" by blast
  from runs_Cons.IH [OF inv_step [OF runs_Cons.prems runs_Cons.hyps(1)]] obtain es' where
    "runs astep (view s1) es' (view s2)" "concat (map shown es') = concat qs" by blast
  with es runs_append [OF es(1)] show ?case by (intro exI [of _ "es @ es'"]) simp
qed

end

interpretation servers: labelled_simulation "server_step ctl" server_inv world_of
    "\<lambda>e x y. world_step x y \<and> event_ok e x y \<and> bag_step e (bag_of x) (bag_of y)" ev_submitted for ctl
proof unfold_locales
  fix S :: "('b, 'a) server" and q S'
  assume S: "server_inv S" "server_step ctl q S S'"
  then show "server_inv S'" using server_sim_inv server_step_sim by blast
  show "\<exists>es. world_run (world_of S) es (world_of S') \<and> concat (map ev_submitted es) = q"
    using server_step_sim [OF S(2,1)] by (simp add: server_sim_def)
qed

text \<open>The server when its constructor has returned and its workers are at the head of \<open>run()\<close>'s loop.\<close>

definition server_start ::
    "'cb iomanager \<Rightarrow> 'cb fglobal \<Rightarrow> (int \<Rightarrow> 'cb worker option) \<Rightarrow> 'k \<Rightarrow> ('cb, 'k) server" where
  "server_start m g thr k =
     \<lparr>sv_glob = g, sv_thr = thr, sv_loop = (\<lambda>_. Loop_check), sv_tm = empty_manager, sv_io = m, sv_k = k\<rparr>"

lemma server_start_inv:
  assumes new: "IOManager_new epfd prt frt crt ids self ss = Inr m"
    and ss: "m_fibers (ss self) = []" "m_active_thread_count (ss self) = 0" "m_idle_thread_count (ss self) = 0"
    and ready: "workers_ready g thr"
  shows "server_inv (server_start m g thr k)" (is "server_inv ?S")
proof -
  obtain s where s: "sched_start ids (ss self) = Inr s" "own m = s"
    and ctx: "m_fd_contexts m = context_resize 32 []"
    using new by (auto simp: IOManager_new_def result_simps own_def)
  have own: "\<not> m_stopping s" "m_fibers s = []" "m_active_thread_count s = 0" "m_idle_thread_count s = 0"
    using s(1) ss by (auto simp: sched_start_def result_simps Let_def split: if_splits)
  let ?W = "\<lparr>w_sched = s, w_glob = g, w_thr = thr\<rparr>"
  have W: "world_of ?S = ?W" by (simp add: server_start_def s(2) world_of_def)
  have pc: "w_pc w = At_pick \<and> w_cb_fiber w = None \<and> ft_item (w_ft w) = FT_fiber None" if "thr tid = Some w" for tid w
    using ready that by (auto simp: workers_ready_def ran_def)
  have at: "at_pc active ?W = {}" "at_pc idling ?W = {}"
    using pc by (auto simp: at_pc_def active_def idling_def)
  have "counters_ok ?W"
    using ready by (simp add: counters_ok_def at own workers_ready_def)
  moreover have "hands_ok ?W"
    using ready pc by (auto simp: hands_ok_def workers_ready_def)
  moreover have "idle_inv ?W"
    by (rule workers_ready_idle_inv [OF ready own(1,2)])
  moreover have "io_inv m" using IOManager_new_inv [OF new] by simp
  moreover have "slots_free (idles ?W) m"
    using slots_free_resize [of _ "m\<lparr>m_fd_contexts := []\<rparr>" 32] by (simp add: slots_free_def ctx)
  ultimately show ?thesis
    unfolding server_inv_def W using tm_wf_empty by (simp add: server_start_def waits_bounded_def)
qed

text \<open>The tasks that fibers which yielded put back.\<close>

fun ev_yielded :: "'cb bag_event \<Rightarrow> 'cb task multiset" where
  "ev_yielded (Ev_requeue tid f) = {#yielded f#}"
| "ev_yielded _ = {#}"

lemma ev_put_split:
  "sum_list (map ev_put es) = mset (concat (map ev_submitted es)) + sum_list (map ev_yielded es)"
proof (induction es)
  case (Cons e es)
  then show ?case by (cases e) simp_all
qed simp

text \<open>A task that is in the bag and gone at the end of a run was started or dropped.\<close>

lemma taken_started:
  "t \<in># sum_list (map ev_taken es) \<Longrightarrow> (\<exists>tid f. Ev_start tid t f \<in> set es) \<or> (\<exists>tid. Ev_drop tid t \<in> set es)"
proof (induction es)
  case (Cons e es)
  then show ?case by (cases e) auto
qed simp

lemma callback_not_dropped:
  "world_run W es W' \<Longrightarrow> Ev_drop tid t \<in> set es \<Longrightarrow> ft_item t \<noteq> FT_cb (Some c)"
  by (induction rule: runs.induct) auto

section \<open>Running the server\<close>

text \<open>An executable scheduler of steps, for concrete runs.\<close>

datatype 'cb sv_act =
    SA_schedule "'cb fiber_or_cb" int
  | SA_pick int
  | SA_dispatch int nat
  | SA_leave int leave
  | SA_after int
  | SA_add nat int u32 "'cb option"
  | SA_timer u64 nat u64 "'cb option" bool
  | SA_check int u64
  | SA_woken int wait_result
  | SA_expire int u64 nat
  | SA_swapOut int

definition run_act :: "int list \<Rightarrow> int \<Rightarrow> 'cb act \<Rightarrow> ('cb, 'k) server \<Rightarrow> ('cb task list \<times> ('cb, 'k) server) option" where
  "run_act tids tid a S =
     (case sv_thr S tid of
        Some w \<Rightarrow> if w_pc w = In_idle then None
                  else map_option (\<lambda>W. ([], put_world W S)) (exec_act tids a (world_of S))
      | None \<Rightarrow> None)"

definition loop_act :: "int \<Rightarrow> ('cb, 'k) server \<Rightarrow> ('cb worker \<Rightarrow> loop_pc \<Rightarrow> 'a option) \<Rightarrow> 'a option" where
  "loop_act tid S f =
     (case sv_thr S tid of Some w \<Rightarrow> if w_pc w = In_idle then f w (sv_loop S tid) else None | None \<Rightarrow> None)"

fun server_act :: "'k epoll_ctl \<Rightarrow> int list \<Rightarrow> 'cb sv_act \<Rightarrow> ('cb, 'k) server \<Rightarrow> ('cb task list \<times> ('cb, 'k) server) option" where
  "server_act ctl tids (SA_schedule fc thr) S =
     map_option (\<lambda>W. ([\<lparr>ft_item = fc, ft_thread = thr\<rparr>], put_world W S)) (exec_act tids (Act_schedule fc thr) (world_of S))"
| "server_act ctl tids (SA_pick tid) S = run_act tids tid (Act_pick tid) S"
| "server_act ctl tids (SA_dispatch tid a) S = run_act tids tid (Act_dispatch tid a) S"
| "server_act ctl tids (SA_leave tid l) S = run_act tids tid (Act_leave tid l) S"
| "server_act ctl tids (SA_after tid) S = run_act tids tid (Act_after tid) S"
| "server_act ctl tids (SA_add f fd ev cb) S =
     (if fd_ok fd \<and> ev \<in> {EV_READ, EV_WRITE} \<and> exec_act tids (Act_schedule (FT_fiber (Some f)) 0) (world_of S) \<noteq> None
      then case add_event ctl 0 (Some (io_self (sv_io S))) fd ev cb (sv_io S, sv_k S, (tls_init\<lparr>t_fiber := Some f\<rparr>, sv_glob S)) of
             Some (Inr (r, m', k', e')) \<Rightarrow> Some ([], (put_io m' S)\<lparr>sv_k := k'\<rparr>)
           | _ \<Rightarrow> None
      else None)"
| "server_act ctl tids (SA_timer now a ms cb rec) S =
     (if theap (sv_tm S) a = None then Some ([], put_tm (snd (add_timer now a ms cb rec (sv_tm S))) S) else None)"
| "server_act ctl tids (SA_check tid now) S =
     loop_act tid S (\<lambda>w pc. case pc of
         Loop_check \<Rightarrow> map_option (\<lambda>pc'. ([], S\<lparr>sv_loop := (sv_loop S)(tid := pc')\<rparr>)) (loop_check now (sv_tm S) (sv_io S))
       | _ \<Rightarrow> None)"
| "server_act ctl tids (SA_woken tid r) S =
     loop_act tid S (\<lambda>w pc. case pc of
         Loop_wait t \<Rightarrow> Some ([], S\<lparr>sv_loop := (sv_loop S)(tid := loop_woken t r)\<rparr>)
       | _ \<Rightarrow> None)"
| "server_act ctl tids (SA_expire tid now probe) S =
     loop_act tid S (\<lambda>w pc. case pc of
         Loop_expire evs \<Rightarrow>
           (if probe \<in> set (m_timers (sv_tm S)) then None
            else case loop_expire now probe (sv_tm S, sv_io S) of
                   Inl e \<Rightarrow> None
                 | Inr (tm', m') \<Rightarrow> Some (added (sv_io S) m',
                     S\<lparr>sv_tm := tm', sv_loop := (sv_loop S)(tid := Loop_events evs),
                       sv_io := front_wakes (sv_tm S) tm' (io_tickles (sv_io S) m')\<rparr>))
       | _ \<Rightarrow> None)"
| "server_act ctl tids (SA_swapOut tid) S =
     loop_act tid S (\<lambda>w pc. case pc of
         Loop_events evs \<Rightarrow>
           (if evs \<noteq> [] then None
            else case loop_swapOut 0 (w_tls w, sv_glob S) of
                   Inl e \<Rightarrow> None
                 | Inr (t', g') \<Rightarrow> Some ([], put_left tid (w\<lparr>w_tls := t', w_pc := After_idle\<rparr>) g' Loop_check S))
       | _ \<Rightarrow> None)"

fun server_acts ::
    "'k epoll_ctl \<Rightarrow> int list \<Rightarrow> 'cb sv_act list \<Rightarrow> ('cb, 'k) server \<Rightarrow> ('cb task list list \<times> ('cb, 'k) server) option" where
  "server_acts ctl tids [] S = Some ([], S)"
| "server_acts ctl tids (a # as) S =
     (case server_act ctl tids a S of
        None \<Rightarrow> None
      | Some (q, S1) \<Rightarrow> map_option (\<lambda>(qs, S2). (q # qs, S2)) (server_acts ctl tids as S1))"

lemma run_dispatch_pc:
  "run_dispatch a dflt w s g = Inr (w', s', g') \<Longrightarrow> w_pc w = At_dispatch \<Longrightarrow> w_pc w' \<noteq> At_dispatch"
  by (cases rule: run_dispatch_cases) auto

lemma run_leave_pc:
  "run_leave l w g = Inr (w', g') \<Longrightarrow> w_pc w \<in> {In_fiber f, In_cb f} \<Longrightarrow> w_pc w' \<noteq> w_pc w"
  by (auto simp: run_leave_def result_simps)

lemma run_after_pc:
  "run_after w s g = Inr (w', s', g') \<Longrightarrow> w_pc w \<in> {After_fiber f, After_cb f, After_idle} \<Longrightarrow> w_pc w' \<noteq> w_pc w"
  by (auto dest!: fiber_bindD simp: run_after_def Let_def result_simps split: if_splits)

lemma run_act_step:
  assumes "run_act tids tid a S = Some (q, S')" and "dom (sv_thr S) \<subseteq> set tids"
    and a: "a \<in> {Act_pick tid, Act_dispatch tid b, Act_leave tid l, Act_after tid}"
  shows "server_step ctl q S S'"
proof -
  obtain w W where w: "sv_thr S tid = Some w" "w_pc w \<noteq> In_idle"
    and W: "exec_act tids a (world_of S) = Some W" "q = []" "S' = put_world W S"
    using assms(1) by (auto simp: run_act_def split: option.splits if_splits)
  have step: "world_step (world_of S) W"
    using exec_act_step [OF W(1)] assms(2) by simp
  consider (pick) "a = Act_pick tid" | (dispatch) "a = Act_dispatch tid b" | (leave) "a = Act_leave tid l"
    | (after) "a = Act_after tid" using a by auto
  then have "\<exists>w'. w_thr W tid = Some w' \<and> w_pc w' \<noteq> w_pc w"
  proof cases
    case pick
    with W(1) w show ?thesis
      by (auto simp: at_worker_def ok_step_def split: sum.splits if_splits dest!: run_pick_move)
  next
    case dispatch
    with W(1) w show ?thesis
      by (auto simp: at_worker_def ok_step_def split: sum.splits if_splits dest: run_dispatch_pc)
  next
    case leave
    let ?f = "pc_fiber (w_pc w)"
    obtain w' g' where "run_leave l w (sv_glob S) = Inr (w', g')" "w_pc w \<in> {In_fiber ?f, In_cb ?f}" "w_thr W tid = Some w'"
      using leave W(1) w by (auto simp: ok_step_def split: sum.splits if_splits)
    with run_leave_pc [OF this(1,2)] show ?thesis by blast
  next
    case after
    let ?f = "pc_fiber (w_pc w)"
    obtain w' s' g' where "run_after w (own (sv_io S)) (sv_glob S) = Inr (w', s', g')"
      "w_pc w \<in> {After_fiber ?f, After_cb ?f, After_idle}" "w_thr W tid = Some w'"
      using after W(1) w by (auto simp: ok_step_def split: sum.splits if_splits)
    with run_after_pc [OF this(1,2)] show ?thesis by blast
  qed
  with w step show ?thesis
    unfolding W(2,3) by (intro sv_run) (auto simp: run_step_def)
qed

lemma loop_actD:
  assumes "loop_act tid S f = Some r"
  obtains w where "sv_thr S tid = Some w" "w_pc w = In_idle" "f w (sv_loop S tid) = Some r"
  using assms by (auto simp: loop_act_def split: option.splits if_splits)

lemma exec_schedule_free:
  assumes "exec_act tids (Act_schedule fc thr) (world_of S) = Some W" and "dom (sv_thr S) \<subseteq> set tids"
  shows "fc \<notin> {FT_fiber (Some i) | i. i \<in> idles (world_of S)}"
proof
  assume "fc \<in> {FT_fiber (Some i) | i. i \<in> idles (world_of S)}"
  then obtain tid w where "fc = FT_fiber (Some (w_idle_fiber w))" "sv_thr S tid = Some w"
    by (auto simp: idles_def ran_def)
  moreover from this assms(2) have "tid \<in> set tids" by auto
  ultimately show False using assms(1) by (auto simp: list_all_iff split: if_splits)
qed

lemma server_act_step:
  assumes "server_act ctl tids a S = Some (q, S')" and tids: "dom (sv_thr S) \<subseteq> set tids"
  shows "server_step ctl q S S'"
proof (cases a)
  case (SA_schedule fc thr)
  then obtain W where W: "exec_act tids (Act_schedule fc thr) (world_of S) = Some W"
    "q = [\<lparr>ft_item = fc, ft_thread = thr\<rparr>]" "S' = put_world W S" using assms(1) by auto
  have "fc \<notin> {FT_fiber (Some i) | i. i \<in> idles (world_of S)}"
    using exec_schedule_free [OF W(1) tids] by simp
  from sv_schedule [OF this, of ctl thr] W show ?thesis by (auto split: if_splits)
next
  case (SA_add f fd ev cb)
  then obtain W r m' k' e' where add: "fd_ok fd" "ev \<in> {EV_READ, EV_WRITE}"
    "exec_act tids (Act_schedule (FT_fiber (Some f)) 0) (world_of S) = Some W"
    "add_event ctl 0 (Some (io_self (sv_io S))) fd ev cb (sv_io S, sv_k S, (tls_init\<lparr>t_fiber := Some f\<rparr>, sv_glob S)) =
       Some (Inr (r, m', k', e'))"
    "q = []" "S' = (put_io m' S)\<lparr>sv_k := k'\<rparr>"
    using assms(1) by (auto simp del: exec_act.simps split: if_splits option.splits sum.splits)
  have "f \<notin> idles (world_of S)" using exec_schedule_free [OF add(3) tids] by simp
  from sv_add [OF add(1,2) _ this add(4)] add(5,6) show ?thesis by simp
next
  case (SA_timer now a ms cb rec)
  then show ?thesis using assms(1) sv_timer [OF op_add [of "sv_tm S" a now ms cb rec], of ctl] by (auto split: if_splits)
next
  case (SA_check tid now)
  then have "loop_act tid S (\<lambda>w pc. case pc of
         Loop_check \<Rightarrow> map_option (\<lambda>pc'. ([], S\<lparr>sv_loop := (sv_loop S)(tid := pc')\<rparr>)) (loop_check now (sv_tm S) (sv_io S))
       | _ \<Rightarrow> None) = Some (q, S')" using assms(1) by simp
  then show ?thesis by (elim loop_actD) (auto split: loop_pc.splits intro: sv_check)
next
  case (SA_woken tid r)
  then have "loop_act tid S (\<lambda>w pc. case pc of
         Loop_wait t \<Rightarrow> Some ([], S\<lparr>sv_loop := (sv_loop S)(tid := loop_woken t r)\<rparr>) | _ \<Rightarrow> None) = Some (q, S')"
    using assms(1) by simp
  then show ?thesis by (elim loop_actD) (auto split: loop_pc.splits intro: sv_woken)
next
  case (SA_expire tid now probe)
  obtain w where w: "sv_thr S tid = Some w" "w_pc w = In_idle" "(case sv_loop S tid of
         Loop_expire evs \<Rightarrow>
           (if probe \<in> set (m_timers (sv_tm S)) then None
            else case loop_expire now probe (sv_tm S, sv_io S) of
                   Inl e \<Rightarrow> None
                 | Inr (tm', m') \<Rightarrow> Some (added (sv_io S) m',
                     S\<lparr>sv_tm := tm', sv_loop := (sv_loop S)(tid := Loop_events evs),
                       sv_io := front_wakes (sv_tm S) tm' (io_tickles (sv_io S) m')\<rparr>))
       | _ \<Rightarrow> None) = Some (q, S')"
    using assms(1) unfolding SA_expire server_act.simps by (rule loop_actD)
  then show ?thesis by (auto split: loop_pc.splits sum.splits if_splits intro: sv_expire)
next
  case (SA_swapOut tid)
  obtain w where w: "sv_thr S tid = Some w" "w_pc w = In_idle" "(case sv_loop S tid of
         Loop_events evs \<Rightarrow>
           (if evs \<noteq> [] then None
            else case loop_swapOut 0 (w_tls w, sv_glob S) of
                   Inl e \<Rightarrow> None
                 | Inr (t', g') \<Rightarrow> Some ([], put_left tid (w\<lparr>w_tls := t', w_pc := After_idle\<rparr>) g' Loop_check S))
       | _ \<Rightarrow> None) = Some (q, S')"
    using assms(1) unfolding SA_swapOut server_act.simps by (rule loop_actD)
  then show ?thesis by (auto split: loop_pc.splits sum.splits if_splits intro: sv_swapOut)
qed (use assms in \<open>auto intro: run_act_step\<close>)

lemma server_act_threads:
  assumes "server_act ctl tids a S = Some (q, S')" and "dom (sv_thr S) \<subseteq> set tids" and "server_inv S"
  shows "dom (sv_thr S') \<subseteq> set tids"
proof -
  obtain es where "world_run (world_of S) es (world_of S')"
    using server_step_sim [OF server_act_step [OF assms(1,2)] assms(3)] by (auto simp: server_sim_def)
  from world_steps_threads [OF world_run_steps [OF this]] assms(2) show ?thesis by simp
qed

lemma server_acts_runs:
  "server_acts ctl tids as S = Some (qs, S') \<Longrightarrow> dom (sv_thr S) \<subseteq> set tids \<Longrightarrow> server_inv S \<Longrightarrow>
   runs (server_step ctl) S qs S' \<and> dom (sv_thr S') \<subseteq> set tids"
proof (induction as arbitrary: S qs)
  case (Cons a as)
  then obtain q S1 qs' where S1: "server_act ctl tids a S = Some (q, S1)" "qs = q # qs'"
    "server_acts ctl tids as S1 = Some (qs', S')" by (auto split: option.splits)
  have step: "server_step ctl q S S1" by (rule server_act_step [OF S1(1) Cons.prems(2)])
  have "server_inv S1" by (rule servers.inv_step [OF Cons.prems(3) step])
  with Cons.IH [OF S1(3) server_act_threads [OF S1(1) Cons.prems(2,3)]] step S1(2) show ?case
    by (auto intro: runs_Cons)
qed simp

section \<open>A small server\<close>

text \<open>The two workers of \<open>demo_world\<close> on a new manager without registered events.\<close>

definition demo_new_io :: "nat iomanager" where
  "demo_new_io = \<lparr>m_pending_event_count = 0, m_fd_contexts = context_resize 32 [],
     io_scheds = (\<lambda>_. sched_running), io_self = 0, tickle_pipe = 0\<rparr>"

definition demo_server :: "(nat, int \<Rightarrow> u32 option) server" where
  "demo_server = server_start demo_new_io (w_glob demo_world) (w_thr demo_world) Map.empty"

lemma demo_new_io: "IOManager_new 3 0 0 0 [] 0 (\<lambda>_. sched_running) = Inr demo_new_io"
proof -
  have "(\<lambda>_ :: nat. sched_running)(0 := sched_running) = (\<lambda>_. sched_running :: nat sched)" by auto
  then show ?thesis by (simp add: IOManager_new_def sched_start_def demo_new_io_def) (simp add: sched_running_def)
qed

lemma demo_workers_ready: "workers_ready (w_glob demo_world) (w_thr demo_world)"
proof -
  have fin: "finite (dom (w_thr demo_world))" by (simp add: demo_world_simps(2))
  have "idle_alive (idles demo_world) (w_glob demo_world)"
    using demo_world_idle_inv by (simp add: idle_inv_def)
  then have "st_of (w_glob demo_world) (w_idle_fiber w) \<notin> {None, Some TERM_st}" if "w \<in> ran (w_thr demo_world)" for w
    using that unfolding idle_alive_def idles_def by blast
  moreover have "w_pc w = At_pick \<and> w_cb_fiber w = None \<and> ft_item (w_ft w) = FT_fiber None"
    if "w \<in> ran (w_thr demo_world)" for w using that by (auto simp: ran_def dest: demo_world_simps(3))
  ultimately show ?thesis using fin unfolding workers_ready_def by blast
qed

lemma demo_server_start:
  "m_fibers (sched_running :: nat sched) = []" "m_active_thread_count (sched_running :: nat sched) = 0"
  "m_idle_thread_count (sched_running :: nat sched) = 0"
  by (simp_all add: sched_running_def)

lemma demo_server_inv: "server_inv demo_server" "dom (sv_thr demo_server) \<subseteq> set [1, 2]"
proof -
  show "server_inv demo_server"
    unfolding demo_server_def by (rule server_start_inv [OF demo_new_io demo_server_start demo_workers_ready])
  show "dom (sv_thr demo_server) \<subseteq> set [1, 2]"
    by (simp add: demo_server_def server_start_def demo_world_simps(2))
qed

lemma demo_runs:
  "server_acts demo_ctl [1, 2] as demo_server = Some (qs, S) \<Longrightarrow> runs (server_step demo_ctl) demo_server qs S \<and> server_inv S"
  using server_acts_runs [OF _ demo_server_inv(2,1)] servers.inv_runs [OF _ demo_server_inv(1)] by blast

text \<open>A timer that falls due while worker 1 waits; its callback 33 is then run by this worker.\<close>

definition timer_run :: "nat sv_act list" where
  "timer_run =
     [SA_timer 100 70 50 (Some 33) False, SA_pick 1, SA_dispatch 1 30, SA_check 1 120, SA_woken 1 (Wait_ready []),
      SA_expire 1 151 71, SA_swapOut 1, SA_after 1, SA_pick 1, SA_dispatch 1 31]"

lemma timer_run_facts:
  "map_option (\<lambda>(qs, S). (concat qs, m_fibers (own (sv_io S)), map_option w_pc (sv_thr S 1), map_option w_pc (sv_thr S 2)))
     (server_acts demo_ctl [1, 2] timer_run demo_server) =
   Some ([\<lparr>ft_item = FT_cb (Some 33), ft_thread = -1\<rparr>], [], Some (In_cb 31), Some At_pick)"
  by code_simp

lemma queued_task_served:
  assumes "server_inv S" and "server_step ctl q S S1" and "t \<in> set q"
    and "runs (server_step ctl) S1 qs S2" and "settled (world_of S2)"
  shows "\<exists>es. world_run (world_of S) es (world_of S2) \<and>
    ((\<exists>tid f. Ev_start tid t f \<in> set es) \<or> (\<exists>tid. Ev_drop tid t \<in> set es))"
proof -
  obtain es where es: "world_run (world_of S) es (world_of S2)" "concat (map ev_submitted es) = concat (q # qs)"
    using servers.simulate_runs [OF runs_Cons [OF assms(2,4)] assms(1)] by blast
  have "bg_pending (bag_of (world_of S)) + sum_list (map ev_put es) = sum_list (map ev_taken es)"
    using bag_run_balance [of "bag_of (world_of S)" es "bag_of (world_of S2)"] world_run_bag [OF es(1)]
      settled_bag [OF assms(5)] by simp
  moreover have "t \<in># sum_list (map ev_put es)" unfolding ev_put_split es(2) using assms(3) by simp
  ultimately have "t \<in># sum_list (map ev_taken es)" by (metis union_iff)
  with taken_started es(1) show ?thesis by blast
qed

lemma queued_callback_runs:
  assumes "server_inv S" and "server_step ctl q S S1" and "t \<in> set q" and c: "ft_item t = FT_cb (Some c)"
    and "runs (server_step ctl) S1 qs S2" and "settled (world_of S2)"
  shows "\<exists>es. runs (\<lambda>e x y. world_step x y \<and> event_ok e x y) (world_of S) es (world_of S2) \<and>
    (\<exists>tid f. Ev_start tid t f \<in> set es)"
proof -
  obtain es where es: "world_run (world_of S) es (world_of S2)"
    "(\<exists>tid f. Ev_start tid t f \<in> set es) \<or> (\<exists>tid. Ev_drop tid t \<in> set es)"
    using queued_task_served [OF assms(1-3,5,6)] by blast
  then have "\<exists>tid f. Ev_start tid t f \<in> set es" using callback_not_dropped [OF es(1)] c by blast
  with conjunct1 [OF world_run_bag [OF es(1)]] show ?thesis by (intro exI [of _ es]) auto
qed

section \<open>The kernel's interest list\<close>

text \<open>Only a change of the registered events or of the kernel concerns the interest list.\<close>

abbreviation server_sync :: "int \<Rightarrow> ('k \<Rightarrow> int \<Rightarrow> u32 option) \<Rightarrow> ('cb, 'k) server \<Rightarrow> bool" where
  "server_sync tfd interest S \<equiv> kernel_sync tfd (interest (sv_k S)) (sv_io S)"

lemma kernel_sync_cong:
  "m_fd_contexts m' = m_fd_contexts m \<Longrightarrow> kernel_sync tfd il m' = kernel_sync tfd il m"
  by (simp add: kernel_sync_def registered_def)

lemma pipe_contexts [simp]:
  "m_fd_contexts (io_tickles m m') = m_fd_contexts m'" "m_fd_contexts (front_wakes tm tm' m) = m_fd_contexts m"
  using io_tickles_pipe [of m' m] front_wakes_pipe [of m tm tm'] by (auto simp: same_but_pipe_def)

lemma server_syncI:
  "kernel_sync tfd (interest k') m' \<Longrightarrow> sv_k S' = k' \<Longrightarrow> m_fd_contexts (sv_io S') = m_fd_contexts m' \<Longrightarrow>
   server_sync tfd interest S'"
  using kernel_sync_cong [of "sv_io S'" m'] by simp

lemma server_sync_keep:
  "server_sync tfd interest S \<Longrightarrow> sv_k S' = sv_k S \<Longrightarrow> m_fd_contexts (sv_io S') = m_fd_contexts (sv_io S) \<Longrightarrow>
   server_sync tfd interest S'"
  by (rule server_syncI [where m' = "sv_io S"])

lemma server_step_sync:
  assumes "server_step ctl q S S'" and inv: "server_inv S" and spec: "epoll_ctl_spec ctl interest"
    and sync: "server_sync tfd interest S"
  shows "server_sync tfd interest S'"
  using assms(1)
proof (cases rule: server_step.cases)
  case (sv_add fd ev t f a sid cb r m' k' e')
  have "kernel_sync tfd (interest k') m'"
    using add_event_queues [OF server_invD(4) [OF inv] sv_add(3,4) server_invD(5) [OF inv] sv_add(5-7)] spec sync by blast
  then show ?thesis by (rule server_syncI) (simp_all add: sv_add(2))
next
  case (sv_del fd ev b m' k')
  from deleting.sync [OF spec sync server_invD(4) [OF inv] sv_del(3-5)] show ?thesis
    by (rule server_syncI) (simp_all add: sv_del(2))
next
  case (sv_cancel fd ev b m' k')
  from cancelling.sync [OF spec sync server_invD(4) [OF inv] sv_cancel(3-5)] show ?thesis
    by (rule server_syncI) (simp_all add: sv_cancel(2))
next
  case (sv_cancel_all fd b m' k')
  from cancel_all_sync [OF spec sync server_invD(4) [OF inv] sv_cancel_all(3,4)] show ?thesis
    by (rule server_syncI) (simp_all add: sv_cancel_all(2))
next
  case (sv_expire tid w evs probe now tm' m')
  have "m_fd_contexts m' = m_fd_contexts (sv_io S)"
    using loop_expire_queues [OF sv_expire(5) server_invD(5) [OF inv]] by blast
  then show ?thesis by (intro server_sync_keep [where tfd = tfd and interest = interest and S = S, OF sync]) (simp_all add: sv_expire(2))
next
  case (sv_event tid w ev evs m' k')
  from handle_event_sync [OF spec sync server_invD(4) [OF inv] sv_event(4,5)] show ?thesis
    by (rule server_syncI) (simp_all add: sv_event(2))
qed (use server_sync_keep [where tfd = tfd and interest = interest and S = S, OF sync, of S'] in \<open>simp_all add: put_world_def put_left_def Let_def put_io_def put_tm_def\<close>)

lemma server_runs_sync:
  "runs (server_step ctl) S qs S' \<Longrightarrow> server_inv S \<Longrightarrow> epoll_ctl_spec ctl interest \<Longrightarrow>
   server_sync tfd interest S \<Longrightarrow> server_sync tfd interest S'"
proof (induction rule: runs.induct)
  case (runs_Cons q S S1 qs S2)
  then show ?case using server_step_sync server_sim_inv [OF server_step_sim] by blast
qed simp

section \<open>Properties\<close>

text \<open>
  C1 (server_invariant). Take as one step each call of an operation on timers or events, the handling of one reported event, the collection of the expired timers, and
  each step of a worker in \<open>run()\<close>; let every \<open>add_event\<close> be called on a thread that has a scheduler, and let nobody call \<open>stop()\<close>. Then, from the
  construction of the manager on, in every interleaving of these steps, all parts of
  the server are in order together: the counters of active and idle threads are exact, the count of pending events and the slots are exact, the
  timers are sorted and live, no idle fiber is queued, waits for an event or has ended, no worker has left \<open>run()\<close>, and no call of
  \<open>epoll_wait\<close> has a time-out above five seconds. The sources guarantee these units for what they lock. They do not lock the context in \<open>del_event\<close>, \<open>cancel_event\<close> and
  \<open>cancel_all\<close>, and \<open>list_expired_cbs\<close> gives its lock up: when such calls overlap on a descriptor, the count of pending events is wrong
  (\<open>del_event_race\<close>), so this claim speaks of executions in which they do not.
\<close>

theorem server_invariant:
  assumes "IOManager_new epfd prt frt crt ids self ss = Inr m" and "m_fibers (ss self) = []"
    and "m_active_thread_count (ss self) = 0" and "m_idle_thread_count (ss self) = 0" and "workers_ready g thr"
    and "runs (server_step ctl) (server_start m g thr k) qs S"
  shows "counters_ok (world_of S) \<and> io_inv (sv_io S) \<and> tm_wf (sv_tm S) \<and>
    idle_inv (world_of S) \<and> slots_free (idles (world_of S)) (sv_io S) \<and>
    (\<forall>tid w. sv_thr S tid = Some w \<longrightarrow> w_pc w \<noteq> Exited) \<and>
    (\<forall>tid t. sv_loop S tid = Loop_wait t \<longrightarrow> t \<le> 5000)"
proof -
  have inv: "server_inv S" by (rule servers.inv_runs [OF assms(6) server_start_inv [OF assms(1-5)]])
  have "w_pc w \<noteq> Exited" if "sv_thr S tid = Some w" for tid w
    using idle_invD(1) [OF server_invD(3) [OF inv], of tid w] that by (auto simp: worker_free_def)
  with server_invD [OF inv] show ?thesis by (simp add: waits_bounded_def)
qed

theorem server_invariant_witness:
  "\<exists>qs S. runs (server_step demo_ctl) demo_server qs S \<and> counters_ok (world_of S) \<and> tm_wf (sv_tm S) \<and>
     map_option w_pc (sv_thr S 1) = Some (In_cb 31)"
proof -
  obtain qs S where S: "server_acts demo_ctl [1, 2] timer_run demo_server = Some (qs, S)"
    "map_option w_pc (sv_thr S 1) = Some (In_cb 31)" using timer_run_facts by auto
  have r: "runs (server_step demo_ctl) (server_start demo_new_io (w_glob demo_world) (w_thr demo_world) Map.empty) qs S"
    using demo_runs [OF S(1)] unfolding demo_server_def by blast
  from server_invariant [OF demo_new_io demo_server_start demo_workers_ready r] r S(2) show ?thesis
    unfolding demo_server_def by (intro exI [of _ qs] exI [of _ S]) simp
qed

text \<open>
  C2 (server_refines_bag). Every run of the whole server is, seen from its scheduler, a run of the abstract bag of tasks: what
  the event loop, the timers and the clients queue are its submissions, in this order, and nothing else is submitted. So the tasks pending
  before, the tasks queued and the fibers that yielded are the tasks taken out and those still pending, with multiplicity, and
  a task is started only on a thread it is meant for.
\<close>

theorem server_refines_bag:
  assumes "server_inv S" and "runs (server_step ctl) S qs S'"
  shows "\<exists>es. runs (\<lambda>e x y. world_step x y \<and> event_ok e x y) (world_of S) es (world_of S') \<and>
    runs bag_step (bag_of (world_of S)) es (bag_of (world_of S')) \<and>
    concat (map ev_submitted es) = concat qs \<and>
    bg_pending (bag_of (world_of S)) + mset (concat qs) + sum_list (map ev_yielded es) =
      bg_pending (bag_of (world_of S')) + sum_list (map ev_taken es) \<and>
    (\<forall>tid t f. Ev_start tid t f \<in> set es \<longrightarrow> ft_thread t \<in> {-1, tid})"
proof -
  obtain es where es: "world_run (world_of S) es (world_of S')" "concat (map ev_submitted es) = concat qs"
    using servers.simulate_runs [OF assms(2,1)] by blast
  note bag = world_run_bag [OF es(1)]
  have "bg_pending (bag_of (world_of S)) + mset (concat qs) + sum_list (map ev_yielded es) =
      bg_pending (bag_of (world_of S')) + sum_list (map ev_taken es)"
    using bag_run_balance [of "bag_of (world_of S)" es "bag_of (world_of S')"] bag
    by (simp only: ev_put_split es(2) add.assoc)
  with es(2) bag run_starts_pinned show ?thesis by blast
qed

theorem server_refines_bag_witness:
  "\<exists>es (S :: (nat, int \<Rightarrow> u32 option) server).
     runs bag_step (bag_of (world_of demo_server)) es (bag_of (world_of S)) \<and>
     concat (map ev_submitted es) = [\<lparr>ft_item = FT_cb (Some 33), ft_thread = -1\<rparr>] \<and>
     bg_running (bag_of (world_of S)) 1 = Some 31"
proof -
  obtain qs S where S: "server_acts demo_ctl [1, 2] timer_run demo_server = Some (qs, S)"
    "concat qs = [\<lparr>ft_item = FT_cb (Some 33), ft_thread = -1\<rparr>]" "map_option w_pc (sv_thr S 1) = Some (In_cb 31)"
    using timer_run_facts by auto
  have r: "runs (server_step demo_ctl) demo_server qs S"
    using demo_runs [OF S(1)] by blast
  have "bg_running (bag_of (world_of S)) 1 = Some 31" using S(3) by (auto simp: bag_of_def)
  moreover obtain es where "runs bag_step (bag_of (world_of demo_server)) es (bag_of (world_of S))"
    "concat (map ev_submitted es) = concat qs"
    using server_refines_bag [OF demo_server_inv(1) r] by (elim exE conjE)
  ultimately show ?thesis using S(2) by (intro exI [of _ es] exI [of _ S]) simp
qed

text \<open>
  C3 (due_timer_runs). When an event loop comes to its expired timers, the callback of every timer whose deadline has passed is among the
  tasks it queues; and however the server goes on, once its queue has been emptied some thread has started that callback, on a
  fiber whose body it is.
\<close>

theorem due_timer_runs:
  assumes inv: "server_inv S" and at: "at_loop S tid w (Loop_expire evs)" and probe: "probe \<notin> set (m_timers (sv_tm S))"
    and d: "deadlines (sv_tm S) a = Some d" "d < now" and c: "tm_cb (tm_at (theap (sv_tm S)) a) = Some c"
  shows "\<exists>q S1. server_step ctl q S S1 \<and> \<lparr>ft_item = FT_cb (Some c), ft_thread = -1\<rparr> \<in> set q \<and>
    sv_loop S1 tid = Loop_events evs \<and>
    (\<forall>qs S2. runs (server_step ctl) S1 qs S2 \<and> settled (world_of S2) \<longrightarrow>
      (\<exists>es. runs (\<lambda>e x y. world_step x y \<and> event_ok e x y) (world_of S) es (world_of S2) \<and>
         (\<exists>tid' f. Ev_start tid' \<lparr>ft_item = FT_cb (Some c), ft_thread = -1\<rparr> f \<in> set es)))"
proof -
  let ?t = "\<lparr>ft_item = FT_cb (Some c), ft_thread = -1\<rparr>"
  note inv' = server_invD [OF inv]
  obtain E R es where es: "m_timers (sv_tm S) = E @ R" "list_expired_cbs now probe (sv_tm S) = Inr es"
    "es_cbs es = map (\<lambda>a. tm_cb (tm_at (theap (sv_tm S)) a)) E"
    "\<And>a. a \<in> set R \<Longrightarrow> now < m_next (tm_at (theap (sv_tm S)) a) \<or>
       now = m_next (tm_at (theap (sv_tm S)) a) \<and> probe < a"
    by (rule list_expired_cbs_effect [OF inv'(6) probe], rule that)
  obtain m' where m': "loop_expire now probe (sv_tm S, sv_io S) = Inr (es_tm es, m')"
    using es(2) by (simp add: loop_expire_def)
  let ?S1 = "S\<lparr>sv_tm := es_tm es, sv_loop := (sv_loop S)(tid := Loop_events evs),
       sv_io := front_wakes (sv_tm S) (es_tm es) (io_tickles (sv_io S) m')\<rparr>"
  have q: "queues (idles (world_of S)) (map (\<lambda>c. \<lparr>ft_item = FT_cb c, ft_thread = -1\<rparr>) (es_cbs es)) (sv_io S) m'"
    using loop_expire_queues [OF m' inv'(5)] es(2) by auto
  have step: "server_step ctl (added (sv_io S) m') S ?S1" by (rule sv_expire [OF at probe m'])
  have "a \<in> set E"
    using d es(1,4) by (force simp: deadlines_def split: if_splits)
  then have t: "?t \<in> set (added (sv_io S) m')"
    unfolding added_queues [OF q] es(3) using c by force
  have "\<forall>qs S2. runs (server_step ctl) ?S1 qs S2 \<and> settled (world_of S2) \<longrightarrow>
      (\<exists>es. runs (\<lambda>e x y. world_step x y \<and> event_ok e x y) (world_of S) es (world_of S2) \<and>
         (\<exists>tid' f. Ev_start tid' ?t f \<in> set es))"
    using queued_callback_runs [OF inv step t, of c] by auto
  moreover have "sv_loop ?S1 tid = Loop_events evs" by simp
  ultimately show ?thesis using step t by blast
qed

lemma waiting_server:
  "map_option (\<lambda>(qs, S). (map_option w_pc (sv_thr S 1), sv_loop S 1, m_timers (sv_tm S), deadlines (sv_tm S) 70,
       tm_cb (tm_at (theap (sv_tm S)) 70)))
     (server_acts demo_ctl [1, 2] (take 5 timer_run) demo_server) =
   Some (Some In_idle, Loop_expire [], [70], Some 150, Some 33)"
  by code_simp

theorem due_timer_runs_witness:
  "\<exists>q S S1. server_step demo_ctl q (S :: (nat, int \<Rightarrow> u32 option) server) S1 \<and> sv_loop S 1 = Loop_expire [] \<and>
     \<lparr>ft_item = FT_cb (Some 33), ft_thread = -1\<rparr> \<in> set q \<and> sv_loop S1 1 = Loop_events []"
proof -
  obtain qs S w where S: "server_acts demo_ctl [1, 2] (take 5 timer_run) demo_server = Some (qs, S)"
    "sv_thr S 1 = Some w" "w_pc w = In_idle" "sv_loop S 1 = Loop_expire []" "m_timers (sv_tm S) = [70]"
    "deadlines (sv_tm S) 70 = Some 150" "tm_cb (tm_at (theap (sv_tm S)) 70) = Some 33"
    using waiting_server by auto
  have "server_inv S" using demo_runs [OF S(1)] by blast
  from due_timer_runs [OF this, of 1 w "[]" 71 70 150 151 33 demo_ctl] S show ?thesis by auto
qed


text \<open>A callback that waits for input on descriptor 3, which epoll reports to worker 1.\<close>

definition event_run :: "nat sv_act list" where
  "event_run =
     [SA_add 5 3 EV_READ (Some 44), SA_pick 1, SA_dispatch 1 30, SA_check 1 120,
      SA_woken 1 (Wait_ready [\<lparr>ee_events = EPOLLIN, ee_data = Data_ctx 3\<rparr>]), SA_expire 1 121 71]"

lemma event_run_facts:
  "map_option (\<lambda>(qs, S). (map_option w_pc (sv_thr S 1), sv_loop S 1, length (m_fd_contexts (sv_io S)),
       m_events (m_fd_contexts (sv_io S) ! 3), m_events (m_fd_contexts (sv_io S) ! 4), fc_read (m_fd_contexts (sv_io S) ! 3), io_self (sv_io S), sv_k S 3))
     (server_acts demo_ctl [1, 2] event_run demo_server) =
   Some (Some In_idle, Loop_events [\<lparr>ee_events = EPOLLIN, ee_data = Data_ctx 3\<rparr>], 32, 1, 0,
     \<lparr>ec_scheduler = Some 0, ec_fiber = None, ec_cb = Some 44\<rparr>, 0, Some (EPOLLET OR EV_READ))"
  by code_simp


text \<open>
  C5 (server_interest_list). If the kernel does what epoll_ctl(2) documents, then from the construction of the manager on, in every interleaving of
  the steps of the server (theorem \<open>server_invariant\<close>; so without overlapping removals on one descriptor) in which no descriptor is closed while it has registered events,
  the kernel's interest list and the registered events are in step: a descriptor (other than the
  tickle pipe's) is in the list exactly when it has registered events, with exactly those and edge-triggered. So a fiber or callback waits for an event
  of a descriptor exactly when the kernel watches the descriptor for that event.
\<close>

theorem server_interest_list:
  assumes "IOManager_new epfd prt frt crt ids self ss = Inr m" and "m_fibers (ss self) = []"
    and "m_active_thread_count (ss self) = 0" and "m_idle_thread_count (ss self) = 0" and "workers_ready g thr"
    and spec: "epoll_ctl_spec ctl interest" and new: "\<And>fd. 0 \<le> fd \<Longrightarrow> fd \<noteq> tfd \<Longrightarrow> interest k fd = None"
    and run: "runs (server_step ctl) (server_start m g thr k) qs S"
  shows "(\<forall>fd. 0 \<le> fd \<and> fd \<noteq> tfd \<longrightarrow> interest (sv_k S) fd =
      (if registered (sv_io S) fd = 0 then None else Some (EPOLLET OR registered (sv_io S) fd))) \<and>
    (\<forall>i < length (m_fd_contexts (sv_io S)). \<forall>ev \<in> {EV_READ, EV_WRITE}. int i \<noteq> tfd \<longrightarrow>
      (waiting (slot ev (m_fd_contexts (sv_io S) ! i)) \<longleftrightarrow>
       (\<exists>evs. interest (sv_k S) (int i) = Some evs \<and> evs AND ev \<noteq> 0)))"
proof -
  have start: "server_inv (server_start m g thr k)" by (rule server_start_inv [OF assms(1-5)])
  have "registered m fd = 0" for fd
    using assms(1) by (auto simp: IOManager_new_def result_simps registered_def context_resize_def FdContext_new_def)
  then have "server_sync tfd interest (server_start m g thr k)"
    using new by (simp add: kernel_sync_def server_start_def)
  from server_runs_sync [OF run start spec this]
  have il: "interest (sv_k S) fd = (if registered (sv_io S) fd = 0 then None else Some (EPOLLET OR registered (sv_io S) fd))"
    if "0 \<le> fd" "fd \<noteq> tfd" for fd using that by (simp add: kernel_sync_def)
  have io: "io_inv (sv_io S)" using server_invD(4) [OF servers.inv_runs [OF run start]] .
  have "waiting (slot ev (m_fd_contexts (sv_io S) ! i)) \<longleftrightarrow>
       (\<exists>evs. interest (sv_k S) (int i) = Some evs \<and> evs AND ev \<noteq> 0)"
    if i: "i < length (m_fd_contexts (sv_io S))" "int i \<noteq> tfd" and ev: "ev \<in> {EV_READ, EV_WRITE}" for i ev
  proof -
    let ?c = "m_fd_contexts (sv_io S) ! i"
    have ok: "fd_ctx_ok ?c" using io_inv_ctx [OF io i(1)] by simp
    have "waiting (slot ev ?c) \<longleftrightarrow> m_events ?c AND ev \<noteq> 0"
      using ok ev by (auto simp: fd_ctx_ok_def slot_ok_def slot_def waiting_def event_context_empty_def split: if_splits)
    moreover have "(EPOLLET OR m_events ?c) AND ev = m_events ?c AND ev"
      using io_inv_events [OF io i(1)] ev by auto
    ultimately show ?thesis using il [of "int i"] i by (auto simp: registered_def)
  qed
  with il show ?thesis by simp
qed

theorem server_interest_list_witness:
  "\<exists>qs S. runs (server_step demo_ctl) demo_server qs S \<and> registered (sv_io S) 3 = EV_READ \<and>
     demo_interest (sv_k S) 3 = Some (EPOLLET OR EV_READ) \<and> demo_interest (sv_k S) 4 = None"
proof -
  obtain qs S where S: "server_acts demo_ctl [1, 2] event_run demo_server = Some (qs, S)"
    "length (m_fd_contexts (sv_io S)) = 32" "m_events (m_fd_contexts (sv_io S) ! 3) = 1" "m_events (m_fd_contexts (sv_io S) ! 4) = 0"
    using event_run_facts by auto
  have r: "runs (server_step demo_ctl) (server_start demo_new_io (w_glob demo_world) (w_thr demo_world) Map.empty) qs S"
    using demo_runs [OF S(1)] unfolding demo_server_def by blast
  have new: "demo_interest Map.empty fd = None" for fd by (simp add: demo_interest_def)
  have reg: "registered (sv_io S) 3 = EV_READ" "registered (sv_io S) 4 = 0" using S(2-4) by (simp_all add: registered_def)
  from server_interest_list [where tfd = 99, OF demo_new_io demo_server_start demo_workers_ready demo_ctl_spec new r]
  have "demo_interest (sv_k S) fd = (if registered (sv_io S) fd = 0 then None else Some (EPOLLET OR registered (sv_io S) fd))"
    if "0 \<le> fd" "fd \<noteq> 99" for fd using that by simp
  from this [of 3] this [of 4] reg show ?thesis
    using r unfolding demo_server_def by (intro exI [of _ qs] exI [of _ S]) simp
qed

text \<open>
  Theorem (wakeup_missed). A thread counts itself as idle only after it has searched the queue and let go of the lock. A task that is queued
  in between finds no idle thread, so \<open>tickle\<close> writes nothing; the thread then waits in \<open>epoll_wait\<close> for the full five
  seconds (no timer being set) although a task is pending. Here both workers do.
\<close>

definition missed_run :: "nat sv_act list" where
  "missed_run =
     [SA_pick 1, SA_pick 2, SA_schedule (FT_cb (Some 44)) (-1), SA_dispatch 1 30, SA_dispatch 2 31, SA_check 1 120, SA_check 2 120]"

lemma missed_run_facts:
  "map_option (\<lambda>(qs, S). (m_fibers (own (sv_io S)), tickle_pipe (sv_io S), map_option w_pc (sv_thr S 1), map_option w_pc (sv_thr S 2),
       sv_loop S 1, sv_loop S 2))
     (server_acts demo_ctl [1, 2] missed_run demo_server) =
   Some ([\<lparr>ft_item = FT_cb (Some 44), ft_thread = -1\<rparr>], 0, Some In_idle, Some In_idle, Loop_wait 5000, Loop_wait 5000)"
  by code_simp

theorem wakeup_missed:
  "\<exists>qs S. runs (server_step demo_ctl) demo_server qs S \<and>
     m_fibers (own (sv_io S)) = [\<lparr>ft_item = FT_cb (Some 44), ft_thread = -1\<rparr>] \<and> tickle_pipe (sv_io S) = 0 \<and>
     (\<forall>tid w. sv_thr S tid = Some w \<longrightarrow> w_pc w = In_idle \<and> sv_loop S tid = Loop_wait 5000)"
proof -
  obtain qs S where S: "server_acts demo_ctl [1, 2] missed_run demo_server = Some (qs, S)"
    "m_fibers (own (sv_io S)) = [\<lparr>ft_item = FT_cb (Some 44), ft_thread = -1\<rparr>]" "tickle_pipe (sv_io S) = 0"
    "map_option w_pc (sv_thr S 1) = Some In_idle" "map_option w_pc (sv_thr S 2) = Some In_idle"
    "sv_loop S 1 = Loop_wait 5000" "sv_loop S 2 = Loop_wait 5000"
    using missed_run_facts by auto
  have r: "runs (server_step demo_ctl) demo_server qs S" using demo_runs [OF S(1)] by blast
  have "dom (sv_thr S) \<subseteq> {1, 2}"
    using server_acts_runs [OF S(1) demo_server_inv(2,1)] by auto
  then have "w_pc w = In_idle \<and> sv_loop S tid = Loop_wait 5000" if "sv_thr S tid = Some w" for tid w
    using that S(4-7) by auto
  with r S(2,3) show ?thesis by blast
qed

end
