(* ===== verification/Wakeup.thy ===== *)
theory Wakeup
  imports Hook_Wait Scheduler_System
begin

text \<open>
  The composition of the hooks, the timers, the event loop, the scheduler and the fibers: a fiber that a
  hooked call suspended gets its processor back.
\<close>

section \<open>Resuming a queued fiber\<close>

lemma swapIn_eq:
  assumes "fheap g f = Some fb" and "m_state fb \<noteq> EXEC" and "m_ctx fb \<noteq> Past_end"
    and "t_main t = Some mw" and "fheap g mw = Some wb" and "mw \<noteq> f"
  shows "Fiber_swapIn f (t, g) =
    Inr (t\<lparr>t_fiber := Some f, cpu := Some f\<rparr>,
         fiber_set mw (wb\<lparr>m_ctx := Saved\<rparr>) (fiber_set f (fb\<lparr>m_state := EXEC\<rparr>) g))"
  using assms
  by (simp add: Fiber_swapIn_def Fiber_switch_in_def swapcontext_def Fiber_SetThis_def fiber_get_def
      fiber_set_def ptr_get_def Let_def)

text \<open>
  A worker takes a suspended fiber that is queued behind tasks \<open>q\<close> that it passes over because they are pinned to other threads, switches to it and leaves
  these tasks in the queue.
\<close>

definition resumes_on :: "int \<Rightarrow> 'cb worker \<Rightarrow> 'cb sched \<Rightarrow> 'cb fglobal \<Rightarrow> 'cb task list \<Rightarrow> nat \<Rightarrow> bool" where
  "resumes_on tid w s g q f \<longleftrightarrow> (\<forall>b dflt. \<exists>w1 s1 w2 s2 g2.
     run_pick tid w s g = Inr (w1, s1) \<and> run_dispatch b dflt w1 s1 g = Inr (w2, s2, g2) \<and>
     w_pc w2 = In_fiber f \<and> t_fiber (w_tls w2) = Some f \<and> cpu (w_tls w2) = Some f \<and> m_fibers s2 = q \<and>
     map_option (\<lambda>fb. (m_state fb, m_ctx fb)) (fheap g2 f) = Some (EXEC, Saved))"

lemma scan_pinned:
  assumes "\<forall>x \<in> set q. pinned_elsewhere tid x" and "ft_thread t = -1" and "ft_item t = FT_fiber (Some f)"
    and "fheap g f = Some fb" and "m_state fb \<noteq> EXEC"
  shows "\<exists>tk. scan g tid (q @ [t]) = Inr (Some t, q, tk)"
  using assms(1)
proof (induction q)
  case Nil
  then show ?case using assms(2-5) by (intro exI [of _ False]) (simp add: fiber_get_def)
next
  case (Cons x q)
  then obtain tk where "scan g tid (q @ [t]) = Inr (Some t, q, tk)" by auto
  with Cons.prems show ?case by (intro exI [of _ True]) (simp add: pinned_elsewhere_def)
qed

lemma queued_fiber_resumes:
  assumes "fheap g f = Some fb" and "m_state fb \<notin> {EXEC, TERM_st}" and "m_ctx fb = Saved"
    and "t_main (w_tls w) = Some mw" and "fheap g mw = Some wb" and "mw \<noteq> f"
    and "\<forall>x \<in> set (m_fibers s). pinned_elsewhere tid x"
  shows "resumes_on tid w (schedule (FT_fiber (Some f)) (-1) s) g (m_fibers s) f"
proof -
  let ?t = "\<lparr>ft_item = FT_fiber (Some f), ft_thread = -1\<rparr>"
  let ?w1 = "w\<lparr>w_ft := ?t, w_pc := At_dispatch\<rparr>"
  let ?s = "schedule (FT_fiber (Some f)) (-1) s"
  obtain tk where "scan g tid (m_fibers s @ [?t]) = Inr (Some ?t, m_fibers s, tk)"
    using scan_pinned [OF assms(7), of ?t f g fb] assms(1,2) by auto
  then obtain s1 where pick: "run_pick tid w ?s g = Inr (?w1, s1)" and q: "m_fibers s1 = m_fibers s"
    by (auto simp: run_pick_def Let_def tickle_def)
  have "Fiber_swapIn f (w_tls w, g) =
      Inr ((w_tls w)\<lparr>t_fiber := Some f, cpu := Some f\<rparr>,
           fiber_set mw (wb\<lparr>m_ctx := Saved\<rparr>) (fiber_set f (fb\<lparr>m_state := EXEC\<rparr>) g))"
    using assms(2) by (intro swapIn_eq [OF assms(1) _ _ assms(4-6)]) (use assms(3) in simp_all)
  then show ?thesis
    using pick q assms(1-3,6) by (simp add: resumes_on_def run_dispatch_def fiber_get_def)
qed

section \<open>Properties\<close>

text \<open>
  C13 (hooked_io_resumes). From the blocking call to the processor and back: a hooked call on a socket that is not
  ready suspends its fiber, with an event and a time-out (the suspension is one step, see \<open>hold_before_saved\<close> below). Whichever of the
  two comes first, the event reported by epoll or the timer, the fiber is queued on its scheduler; and if that scheduler had nothing queued
  but tasks pinned to other threads, the worker that looks next takes the fiber and switches to it: it is in \<open>EXEC\<close> and continues
  from the context that was saved when it was suspended, and the other tasks stay queued.
\<close>

theorem hooked_io_resumes:
  fixes w :: "'f tcb worker"
  assumes "io_inv m" and "fd_ok fd" and "ev \<in> {EV_READ, EV_WRITE}" and "registered m fd AND ev = 0"
    and "tm_wf tm" and "deadlines tm ta = None" and "timeout \<noteq> - 1"
    and "fheap g f = Some fb" and "fheap g mf = Some mb" and "f \<noteq> mf" and "m_ctx mb \<noteq> Past_end"
    and "t_fiber t = Some f" and "t_main t = Some mf" and "m_state fb = EXEC"
    and "ctl (if registered m fd \<noteq> 0 then EPOLL_CTL_MOD else EPOLL_CTL_ADD) fd
      (EPOLLET OR registered m fd OR ev) k = (0, k1)"
    and "ctl (left_op (registered m fd)) fd (EPOLLET OR registered m fd) k1 = (0, k2)"
    and "infos ti = Some 0" and "\<forall>x \<in> set (m_fibers (io_scheds m sid)). pinned_elsewhere tid x"
    and "t_main (w_tls w) = Some mw" and "fheap g mw = Some wb" and "mw \<noteq> f"
  shows "\<exists>tm' m' g'. io_suspend ctl now ta a (Some sid) fd ev timeout ti (tm, m, k, (t, g)) =
      Some (Inr (True, tm', m', k1, (t\<lparr>t_fiber := Some mf, cpu := Some mf\<rparr>, g'))) \<and>
    deadlines tm' ta = Some (now + timeout) \<and> st_of g' f = Some HOLD \<and>
    (\<exists>m1. handle_event ctl \<lparr>ee_events = ev, ee_data = Data_ctx (nat fd)\<rparr> (m', k1) = Inr (m1, k2) \<and>
       resumes_on tid w (io_scheds m1 sid) g' (m_fibers (io_scheds m sid)) f) \<and>
    call_timer_cb (\<lambda>_. True) (the (tm_cb (tm_at (theap tm') ta))) = Inr (Some (Cb_io_timeout fd ev ti)) \<and>
    (\<exists>m1. run_hook_cb ctl (Cb_io_timeout fd ev ti :: 'f hook_cb) (infos, m', k1) = Inr (infos(ti \<mapsto> ETIMEDOUT), m1, k2) \<and>
       resumes_on tid w (io_scheds m1 sid) g' (m_fibers (io_scheds m sid)) f)"
proof -
  let ?g = "fiber_set f (fb\<lparr>m_state := HOLD, m_ctx := Saved\<rparr>) g"
  have resumes: "resumes_on tid w (ss sid) ?g (m_fibers (io_scheds m sid)) f"
    if "ss = (io_scheds m)(sid := schedule (FT_fiber (Some f)) (-1) (io_scheds m sid))" for ss
    unfolding that fun_upd_same
    by (rule queued_fiber_resumes [where fb = "fb\<lparr>m_state := HOLD, m_ctx := Saved\<rparr>" and mw = mw and wb = wb])
      (use assms(18-21) in \<open>simp_all add: fiber_set_def\<close>)
  have hold: "st_of ?g f = Some HOLD" by simp
  obtain tm' m' where out: "io_suspend ctl now ta a (Some sid) fd ev timeout ti (tm, m, k, (t, g)) =
      Some (Inr (True, tm', m', k1, (t\<lparr>t_fiber := Some mf, cpu := Some mf\<rparr>, ?g)))"
    "deadlines tm' = (deadlines tm)(ta \<mapsto> now + timeout)"
    "call_timer_cb (\<lambda>_. True) (the (tm_cb (tm_at (theap tm') ta))) = Inr (Some (Cb_io_timeout fd ev ti))"
    "\<exists>m1. run_hook_cb ctl (Cb_io_timeout fd ev ti :: 'f hook_cb) (infos, m', k1) = Inr (infos(ti \<mapsto> ETIMEDOUT), m1, k2) \<and>
       io_scheds m1 = (io_scheds m)(sid := schedule (FT_fiber (Some f)) (-1) (io_scheds m sid))"
    "\<exists>m1. handle_event ctl \<lparr>ee_events = ev, ee_data = Data_ctx (nat fd)\<rparr> (m', k1) = Inr (m1, k2) \<and>
       io_scheds m1 = (io_scheds m)(sid := schedule (FT_fiber (Some f)) (-1) (io_scheds m sid))"
    using io_wait_outcome [where ctl = ctl and infos = infos and now = now and ta = ta and a = a and sid = sid,
        OF assms(1-17) refl refl] by (elim exE conjE) blast
  from out(4) obtain m1 where m1: "run_hook_cb ctl (Cb_io_timeout fd ev ti :: 'f hook_cb) (infos, m', k1) =
      Inr (infos(ti \<mapsto> ETIMEDOUT), m1, k2)"
    "io_scheds m1 = (io_scheds m)(sid := schedule (FT_fiber (Some f)) (-1) (io_scheds m sid))"
    by (elim exE conjE)
  from out(5) obtain m2 where m2: "handle_event ctl \<lparr>ee_events = ev, ee_data = Data_ctx (nat fd)\<rparr> (m', k1) = Inr (m2, k2)"
    "io_scheds m2 = (io_scheds m)(sid := schedule (FT_fiber (Some f)) (-1) (io_scheds m sid))"
    by (elim exE conjE)
  have "deadlines tm' ta = Some (now + timeout)" using out(2) by simp
  with out(1,3) hold m1(1) m2(1) resumes [OF m1(2)] resumes [OF m2(2)] show ?thesis
    by (intro exI [of _ tm'] exI [of _ m'] exI [of _ ?g] conjI exI [of _ m1] exI [of _ m2]) assumption+
qed

definition wait_worker :: "nat tcb worker" where
  "wait_worker = \<lparr>w_tls = wait_tls\<lparr>t_fiber := Some 1, cpu := Some 1\<rparr>, w_pc = At_pick, w_ft = FT_reset,
     w_idle_fiber = 9, w_cb_fiber = None, w_hook = True\<rparr>"

text \<open>A manager whose scheduler has a callback queued for thread 9.\<close>

definition busy_task :: "nat tcb task" where
  "busy_task = \<lparr>ft_item = FT_cb (Some (Plain_cb (Cb_user 5))), ft_thread = 9\<rparr>"

definition busy_io :: "nat tcb iomanager" where
  "busy_io = wait_io\<lparr>io_scheds := (\<lambda>_. sched_running\<lparr>m_fibers := [busy_task]\<rparr>)\<rparr>"

lemma busy_io_facts: "io_inv busy_io" "registered busy_io fd = 0"
proof -
  have "registered busy_io fd = registered wait_io fd" by (simp add: busy_io_def registered_def)
  then show "io_inv busy_io" "registered busy_io fd = 0"
    using wait_io_facts io_inv_cong [of busy_io wait_io] by (simp_all add: busy_io_def)
qed

theorem hooked_io_resumes_witness:
  "\<exists>tm' m' k' g' m1 k1. io_suspend demo_ctl 1000 70 50 (Some 0) 3 EV_READ 250 90
       (empty_manager, busy_io, Map.empty, (wait_tls, wait_fibers)) =
     Some (Inr (True, tm', m', k', (wait_tls\<lparr>t_fiber := Some 1, cpu := Some 1\<rparr>, g'))) \<and>
   handle_event demo_ctl \<lparr>ee_events = EV_READ, ee_data = Data_ctx 3\<rparr> (m', k') = Inr (m1, k1) \<and>
   resumes_on 1 wait_worker (io_scheds m1 0) g' [busy_task] 2"
proof -
  have "demo_ctl (if registered busy_io 3 \<noteq> 0 then EPOLL_CTL_MOD else EPOLL_CTL_ADD) 3
      (EPOLLET OR registered busy_io 3 OR EV_READ) Map.empty = (0, [3 \<mapsto> EPOLLET OR EV_READ])"
    "demo_ctl (left_op (registered busy_io 3)) 3 (EPOLLET OR registered busy_io 3) [3 \<mapsto> EPOLLET OR EV_READ] = (0, Map.empty)"
    by (simp_all add: demo_ctl_def busy_io_facts left_op_def)
  note ctl = this
  have q: "\<forall>x \<in> set (m_fibers (io_scheds busy_io 0)). pinned_elsewhere 1 x"
    by (simp add: busy_io_def busy_task_def pinned_elsewhere_def)
  have w: "t_main (w_tls wait_worker) = Some 1" by (simp add: wait_worker_def wait_tls_def)
  from hooked_io_resumes [where ctl = demo_ctl and timeout = 250, OF busy_io_facts(1) _ _ _ tm_wf_empty _ _
      wait_fibers_facts(1-6) wait_fibers_facts(7) ctl _ q w wait_fibers_facts(2), where infos = "[90 \<mapsto> 0]"
      and ti = 90 and now = 1000 and ta = 70 and a = 50]
  show ?thesis by (auto simp: busy_io_facts deadlines_empty fd_ok_def) (auto simp: busy_io_def)
qed

text \<open>
  Theorem (hold_before_saved). \<open>Yield_to_Hold\<close> sets the state of the running fiber before it saves its context. If the fiber has
  been queued by then (its event came, or its timer fired), a worker that looks into the queue in between takes it and switches to it,
  to the context of an earlier suspension, while its first thread still executes it; before the state was set the worker would
  have passed it over.
\<close>

theorem hold_before_saved:
  assumes "fheap g f = Some fb" and "m_state fb = EXEC" and "m_ctx fb = Saved" and "cpu t = Some f"
    and "t_main (w_tls w) = Some mw" and "fheap g mw = Some wb" and "mw \<noteq> f" and "m_fibers s = []"
  shows "\<exists>g1. Fiber_setState f HOLD g = Inr g1 \<and> resumes_on tid w (schedule (FT_fiber (Some f)) (-1) s) g1 [] f \<and>
    cpu t = Some f \<and> (\<exists>w1 s1. run_pick tid w (schedule (FT_fiber (Some f)) (-1) s) g = Inr (w1, s1) \<and> w_ft w1 = FT_reset)"
proof -
  let ?g = "fiber_set f (fb\<lparr>m_state := HOLD\<rparr>) g"
  have "resumes_on tid w (schedule (FT_fiber (Some f)) (-1) s) ?g (m_fibers s) f"
    by (rule queued_fiber_resumes [where fb = "fb\<lparr>m_state := HOLD\<rparr>" and mw = mw and wb = wb])
      (use assms in simp_all)
  moreover have "\<exists>w1 s1. run_pick tid w (schedule (FT_fiber (Some f)) (-1) s) g = Inr (w1, s1) \<and> w_ft w1 = FT_reset"
    using assms(1,2,8) by (simp add: run_pick_def Let_def)
  ultimately show ?thesis using assms by (simp add: Fiber_setState_def)
qed

theorem hold_before_saved_witness:
  "\<exists>g1. Fiber_setState 2 HOLD wait_fibers = Inr g1 \<and>
     resumes_on 1 wait_worker (schedule (FT_fiber (Some 2)) (-1) sched_running) g1 [] 2"
proof -
  have "m_ctx (the (fheap wait_fibers 2)) = Saved" "cpu wait_tls = Some 2" "t_main (w_tls wait_worker) = Some 1"
    "m_fibers (sched_running :: nat tcb sched) = []"
    by (simp_all add: wait_fibers_def wait_tls_def wait_worker_def sched_running_def)
  from hold_before_saved [OF wait_fibers_facts(1,7) this(1,2,3) wait_fibers_facts(2) _ this(4)] show ?thesis by auto
qed

end
