(* ===== verification/Lock_Order.thy ===== *)
theory Lock_Order
  imports Locks "HOL-Library.Multiset"
begin

text \<open>
  Threads that take and release the locks of theory \<open>Locks\<close>, and the argument that a global order on the locks
  excludes deadlock.

  A thread is seen as the sequence of its acquisitions and releases (its \<^emph>\<open>trace\<close>); what it does in between does
  not matter here. A piece of code is the set of the traces it can leave, built up with the combinators below the
  way the code is: a guard around a block, one block after another, a loop. \<open>ranked\<close> is a condition on such sets
  that can be checked along the combinators: every lock is released again, and inside a guard only locks of
  higher rank are taken.
\<close>

section \<open>Traces\<close>

datatype lock_mode = Excl | Rd | Wr

datatype 'l lock_op = Acquire lock_mode 'l | Release lock_mode 'l

type_synonym 'l locking = "'l lock_op list set"

definition no_locks :: "'l locking" where
  "no_locks = {[]}"

text \<open>A guard (\<open>Mutex::Lock\<close>, \<open>RWMutex::ReadLock\<close>, \<open>RWMutex::WriteLock\<close>) over a block.\<close>

definition guarded :: "lock_mode \<Rightarrow> 'l \<Rightarrow> 'l locking \<Rightarrow> 'l locking" where
  "guarded m l A = {Acquire m l # t @ [Release m l] | t. t \<in> A}"

definition after :: "'l locking \<Rightarrow> 'l locking \<Rightarrow> 'l locking" where
  "after A B = {s @ t | s t. s \<in> A \<and> t \<in> B}"

definition maybe :: "'l locking \<Rightarrow> 'l locking" where
  "maybe A = no_locks \<union> A"

inductive_set many :: "'l locking \<Rightarrow> 'l locking" for A where
  many_Nil: "[] \<in> many A"
| many_Cons: "s \<in> A \<Longrightarrow> t \<in> many A \<Longrightarrow> s @ t \<in> many A"

section \<open>The order\<close>

type_synonym 'l held = "(lock_mode \<times> 'l) list"

text \<open>\<open>h\<close> is what the thread holds: it releases all of it and acquires only above all of it.\<close>

fun ordered :: "('l \<Rightarrow> nat) \<Rightarrow> 'l held \<Rightarrow> 'l lock_op list \<Rightarrow> bool" where
  "ordered rank h [] \<longleftrightarrow> h = []"
| "ordered rank h (Acquire m l # ops) \<longleftrightarrow>
     (\<forall>(m', l') \<in> set h. rank l' < rank l) \<and> ordered rank ((m, l) # h) ops"
| "ordered rank h (Release m l # ops) \<longleftrightarrow> (m, l) \<in> set h \<and> ordered rank (remove1 (m, l) h) ops"

definition ranked :: "('l \<Rightarrow> nat) \<Rightarrow> nat \<Rightarrow> 'l locking \<Rightarrow> bool" where
  "ranked rank n A \<longleftrightarrow>
     (\<forall>t \<in> A. \<forall>h ops. (\<forall>(m, l) \<in> set h. rank l \<le> n) \<longrightarrow> ordered rank h ops \<longrightarrow> ordered rank h (t @ ops))"

named_theorems ranked_intros \<open>rules that check a piece of code against the order\<close>

lemma ranked_no_locks [ranked_intros]: "ranked rank n no_locks"
  by (simp add: ranked_def no_locks_def)

lemma ranked_guarded [ranked_intros]:
  assumes "n < rank l" and "ranked rank (rank l) A"
  shows "ranked rank n (guarded m l A)"
proof -
  have "ordered rank h ((Acquire m l # t @ [Release m l]) @ ops)"
    if "t \<in> A" and h: "\<forall>(m, l) \<in> set h. rank l \<le> n" and "ordered rank h ops" for t h ops
  proof -
    have below: "\<forall>(m', l') \<in> set h. rank l' < rank l" using h assms(1) by fastforce
    have "ordered rank ((m, l) # h) (Release m l # ops)" using that(3) by simp
    moreover have "\<forall>(m', l') \<in> set ((m, l) # h). rank l' \<le> rank l" using below by fastforce
    ultimately have "ordered rank ((m, l) # h) (t @ Release m l # ops)"
      using assms(2) that(1) unfolding ranked_def by blast
    with below show ?thesis by simp
  qed
  then show ?thesis unfolding ranked_def guarded_def by blast
qed

lemma ranked_after [ranked_intros]: "ranked rank n A \<Longrightarrow> ranked rank n B \<Longrightarrow> ranked rank n (after A B)"
  unfolding ranked_def after_def by fastforce

lemma ranked_Un [ranked_intros]: "ranked rank n A \<Longrightarrow> ranked rank n B \<Longrightarrow> ranked rank n (A \<union> B)"
  unfolding ranked_def by blast

lemma ranked_maybe [ranked_intros]: "ranked rank n A \<Longrightarrow> ranked rank n (maybe A)"
  unfolding maybe_def by (intro ranked_intros)

lemma ranked_UN [ranked_intros]: "(\<And>x. x \<in> X \<Longrightarrow> ranked rank n (A x)) \<Longrightarrow> ranked rank n (\<Union>x \<in> X. A x)"
  unfolding ranked_def by blast

lemma ranked_many [ranked_intros]:
  assumes "ranked rank n A"
  shows "ranked rank n (many A)"
proof -
  have "ordered rank h (t @ ops)"
    if "t \<in> many A" and "\<forall>(m, l) \<in> set h. rank l \<le> n" and "ordered rank h ops" for t h ops
    using that
  proof (induction arbitrary: ops rule: many.induct)
    case (many_Cons s t)
    then have "ordered rank h (t @ ops)" by blast
    with many_Cons assms show ?case unfolding ranked_def by simp
  qed simp
  then show ?thesis unfolding ranked_def by blast
qed

lemma ranked_mono: "ranked rank n A \<Longrightarrow> k \<le> n \<Longrightarrow> ranked rank k A"
  unfolding ranked_def by (simp add: split_beta) (meson order_trans)

lemma ranked_ordered: "ranked rank n A \<Longrightarrow> t \<in> A \<Longrightarrow> ordered rank [] t"
  unfolding ranked_def by (metis append_Nil2 empty_iff list.set(1) ordered.simps(1))


section \<open>The system of threads\<close>

text \<open>The state of every lock: a mutex or a read-write lock stands behind each name.\<close>

record 'l lock_state =
  ls_mutex :: "'l \<Rightarrow> mutex"
  ls_rw :: "'l \<Rightarrow> rwmutex"

definition locks_free :: "'l lock_state" where
  "locks_free = \<lparr>ls_mutex = \<lambda>l. None, ls_rw = \<lambda>l. RWMutex_new\<rparr>"

definition acquire :: "tid \<Rightarrow> lock_mode \<Rightarrow> 'l \<Rightarrow> 'l lock_state \<Rightarrow> 'l lock_state option" where
  "acquire t m l S =
     (case m of
        Excl \<Rightarrow> map_option (\<lambda>x. S\<lparr>ls_mutex := (ls_mutex S)(l := x)\<rparr>) (Mutex_lock t (ls_mutex S l))
      | Rd \<Rightarrow> map_option (\<lambda>x. S\<lparr>ls_rw := (ls_rw S)(l := x)\<rparr>) (RWMutex_rdlock t (ls_rw S l))
      | Wr \<Rightarrow> map_option (\<lambda>x. S\<lparr>ls_rw := (ls_rw S)(l := x)\<rparr>) (RWMutex_wrlock t (ls_rw S l)))"

definition release :: "tid \<Rightarrow> lock_mode \<Rightarrow> 'l \<Rightarrow> 'l lock_state \<Rightarrow> 'l lock_state result" where
  "release t m l S =
     (if m = Excl
      then rbind (Mutex_unlock t (ls_mutex S l)) (\<lambda>x. Inr (S\<lparr>ls_mutex := (ls_mutex S)(l := x)\<rparr>))
      else rbind (RWMutex_unlock t (ls_rw S l)) (\<lambda>x. Inr (S\<lparr>ls_rw := (ls_rw S)(l := x)\<rparr>)))"

text \<open>One thread makes the next step of its trace. A thread whose lock is taken makes no step.\<close>

type_synonym 'l threads = "tid \<Rightarrow> 'l lock_op list"

inductive lock_step :: "'l lock_state \<times> 'l threads \<Rightarrow> 'l lock_state \<times> 'l threads \<Rightarrow> bool" where
  ls_acquire: "T t = Acquire m l # ops \<Longrightarrow> acquire t m l S = Some S' \<Longrightarrow>
    lock_step (S, T) (S', T(t := ops))"
| ls_release: "T t = Release m l # ops \<Longrightarrow> release t m l S = Inr S' \<Longrightarrow>
    lock_step (S, T) (S', T(t := ops))"

text \<open>\<open>H t\<close> is what thread \<open>t\<close> holds, and the locks agree.\<close>

definition holding :: "'l lock_state \<Rightarrow> (tid \<Rightarrow> 'l held) \<Rightarrow> bool" where
  "holding S H \<longleftrightarrow> (\<forall>t l.
     ((Excl, l) \<in> set (H t) \<longleftrightarrow> ls_mutex S l = Some t) \<and>
     ((Wr, l) \<in> set (H t) \<longleftrightarrow> rw_writer (ls_rw S l) = Some t) \<and>
     count_list (H t) (Rd, l) = count_list (rw_readers (ls_rw S l)) t)"

definition lock_inv :: "('l \<Rightarrow> nat) \<Rightarrow> 'l lock_state \<times> 'l threads \<Rightarrow> bool" where
  "lock_inv rank = (\<lambda>(S, T). finite {t. T t \<noteq> []} \<and>
     (\<exists>H. holding S H \<and> (\<forall>t. ordered rank (H t) (T t) \<and> distinct (map snd (H t)))))"

lemma holding_acquire:
  assumes "holding S H" and "acquire t m l S = Some S'"
  shows "holding S' (H(t := (m, l) # H t))"
  using assms
  by (cases m)
    (auto simp: holding_def acquire_def Mutex_lock_def RWMutex_rdlock_def RWMutex_wrlock_def
      split: option.splits if_splits)

lemma distinct_snd_unique:
  "distinct (map snd h) \<Longrightarrow> (m, l) \<in> set h \<Longrightarrow> (m', l) \<in> set h \<Longrightarrow> m' = m"
  by (metis distinct_map fst_conv inj_onD snd_conv)

lemma distinct_snd_remove1: "distinct (map snd h) \<Longrightarrow> distinct (map snd (remove1 x h))"
  by (auto simp: distinct_map intro: inj_on_diff)

lemma held_release:
  assumes "holding S H" and "(m, l) \<in> set (H t)" and "distinct (map snd (H t))"
  shows "\<exists>S'. release t m l S = Inr S' \<and> holding S' (H(t := remove1 (m, l) (H t)))"
proof -
  have d: "distinct (H t)" using assms(3) by (simp add: distinct_map)
  show ?thesis
  proof (cases m)
    case Excl
    then have "ls_mutex S l = Some t" using assms(1,2) by (auto simp: holding_def)
    with assms(1) d Excl show ?thesis
      by (auto simp: release_def Mutex_unlock_def holding_def count_list_remove1)
  next
    case Rd
    then have "(Wr, l) \<notin> set (H t)" using distinct_snd_unique [OF assms(3,2)] by blast
    then have "rw_writer (ls_rw S l) \<noteq> Some t" using assms(1) by (auto simp: holding_def)
    moreover have "t \<in> set (rw_readers (ls_rw S l))"
      using assms(1,2) Rd by (metis count_list_0_iff holding_def)
    ultimately show ?thesis
      using assms(1) d Rd by (auto simp: release_def RWMutex_unlock_def holding_def count_list_remove1)
  next
    case Wr
    then have "rw_writer (ls_rw S l) = Some t" using assms(1,2) by (auto simp: holding_def)
    with assms(1) d Wr show ?thesis
      by (auto simp: release_def RWMutex_unlock_def holding_def count_list_remove1)
  qed
qed

lemma not_acquired_held:
  assumes "holding S H" and "acquire t m l S = None"
  shows "\<exists>u m'. (m', l) \<in> set (H u)"
proof -
  have "(\<exists>u. ls_mutex S l = Some u) \<or> (\<exists>u. rw_writer (ls_rw S l) = Some u) \<or> rw_readers (ls_rw S l) \<noteq> []"
    using assms(2)
    by (auto simp: acquire_def Mutex_lock_def RWMutex_rdlock_def RWMutex_wrlock_def
        split: lock_mode.splits option.splits if_splits)
  then consider u where "ls_mutex S l = Some u" | u where "rw_writer (ls_rw S l) = Some u"
    | u where "u \<in> set (rw_readers (ls_rw S l))"
    by (meson hd_in_set)
  then show ?thesis
  proof cases
    case (3 u)
    then have "count_list (H u) (Rd, l) \<noteq> 0" using assms(1) by (simp add: holding_def count_list_0_iff)
    then show ?thesis by (metis count_list_0_iff)
  qed (use assms(1) in \<open>auto simp: holding_def\<close>)
qed


lemma lock_inv_step:
  assumes "lock_step s s'" and "lock_inv rank s"
  shows "lock_inv rank s'"
  using assms
proof (induction rule: lock_step.induct)
  case (ls_acquire T t m l ops S S')
  then obtain H where fin: "finite {t. T t \<noteq> []}" and H: "holding S H"
    "\<And>t. ordered rank (H t) (T t)" "\<And>t. distinct (map snd (H t))"
    by (auto simp: lock_inv_def)
  have new: "(\<forall>(m', l') \<in> set (H t). rank l' < rank l)" "ordered rank ((m, l) # H t) ops"
    using H(2) [of t] ls_acquire(1) by simp_all
  then have "l \<notin> snd ` set (H t)" by auto
  moreover have "finite {u. (T(t := ops)) u \<noteq> []}"
    by (rule finite_subset [OF _ finite.insertI [OF fin, of t]]) auto
  ultimately show ?case
    using holding_acquire [OF H(1) ls_acquire(2)] H new
    by (auto simp: lock_inv_def intro!: exI [of _ "H(t := (m, l) # H t)"])
next
  case (ls_release T t m l ops S S')
  then obtain H where fin: "finite {t. T t \<noteq> []}" and H: "holding S H"
    "\<And>t. ordered rank (H t) (T t)" "\<And>t. distinct (map snd (H t))"
    by (auto simp: lock_inv_def)
  have held: "(m, l) \<in> set (H t)" "ordered rank (remove1 (m, l) (H t)) ops"
    using H(2) [of t] ls_release(1) by simp_all
  from held_release [OF H(1) held(1) H(3)] ls_release(2)
  have "holding S' (H(t := remove1 (m, l) (H t)))" by simp
  moreover have "finite {u. (T(t := ops)) u \<noteq> []}"
    by (rule finite_subset [OF _ finite.insertI [OF fin, of t]]) auto
  ultimately show ?case
    using H held distinct_snd_remove1 [OF H(3)]
    by (auto simp: lock_inv_def intro!: exI [of _ "H(t := remove1 (m, l) (H t))"])
qed

text \<open>
  Of the threads that wait, consider one whose lock has the highest rank. The holder of that lock
  is not finished; if it waited too, it would wait for a lock of higher rank still.
\<close>

lemma lock_progress:
  assumes "lock_inv rank (S, T)" and "T t \<noteq> []"
  shows "\<exists>s'. lock_step (S, T) s'"
proof (rule ccontr)
  assume stuck: "\<nexists>s'. lock_step (S, T) s'"
  obtain H where fin: "finite {t. T t \<noteq> []}" and H: "holding S H"
    "\<And>t. ordered rank (H t) (T t)" "\<And>t. distinct (map snd (H t))"
    using assms(1) by (auto simp: lock_inv_def)
  define want where "want u = (case T u of Acquire m l # ops \<Rightarrow> rank l | _ \<Rightarrow> 0)" for u
  have waits: "\<exists>m l ops. T u = Acquire m l # ops \<and> acquire u m l S = None" if "T u \<noteq> []" for u
  proof -
    obtain x ops where ops: "T u = x # ops" using \<open>T u \<noteq> []\<close> by (cases "T u") auto
    show ?thesis
    proof (cases x)
      case (Acquire m l)
      then show ?thesis using stuck ops ls_acquire [of T u m l ops S] by (cases "acquire u m l S") auto
    next
      case (Release m l)
      then have "(m, l) \<in> set (H u)" using H(2) [of u] ops by simp
      from held_release [OF H(1) this H(3)] show ?thesis
        using stuck ops Release ls_release [of T u m l ops S] by blast
    qed
  qed
  obtain u where u: "T u \<noteq> []" "\<And>v. T v \<noteq> [] \<Longrightarrow> want v \<le> want u"
  proof -
    have "Max (want ` {t. T t \<noteq> []}) \<in> want ` {t. T t \<noteq> []}" using fin assms(2) by (intro Max_in) auto
    then obtain u where "T u \<noteq> []" "want u = Max (want ` {t. T t \<noteq> []})" by auto
    with that [of u] fin show ?thesis by simp
  qed
  from waits [OF u(1)] obtain m l ops where l: "T u = Acquire m l # ops" "acquire u m l S = None" by blast
  from not_acquired_held [OF H(1) l(2)] obtain v m' where v: "(m', l) \<in> set (H v)" by blast
  then have "T v \<noteq> []" using H(2) [of v] by auto
  from waits [OF this] obtain m2 l2 ops2 where "T v = Acquire m2 l2 # ops2" by blast
  with H(2) [of v] v have "rank l < rank l2" "want v = rank l2" by (auto simp: want_def)
  with u(2) [OF \<open>T v \<noteq> []\<close>] l(1) show False by (simp add: want_def)
qed

definition pending_ops :: "'l lock_state \<times> 'l threads \<Rightarrow> nat" where
  "pending_ops = (\<lambda>(S, T). \<Sum>t \<in> {t. T t \<noteq> []}. length (T t))"

lemma pending_ops_step:
  assumes "lock_step s s'" and "lock_inv rank s"
  shows "pending_ops s = Suc (pending_ops s')"
proof -
  obtain S T S' t x ops where s: "s = (S, T)" "s' = (S', T(t := ops))" "T t = x # ops"
    using assms(1) by (auto elim!: lock_step.cases)
  let ?D = "{u. T u \<noteq> []}" and ?D' = "{u. (T(t := ops)) u \<noteq> []}"
  have fin: "finite ?D" "t \<in> ?D" using assms(2) s by (auto simp: lock_inv_def)
  have "?D' \<subseteq> ?D" using s(3) by auto
  then have "(\<Sum>u \<in> ?D'. length ((T(t := ops)) u)) = (\<Sum>u \<in> ?D. length ((T(t := ops)) u))"
    using fin by (intro sum.mono_neutral_left) auto
  also have "\<dots> = length ops + (\<Sum>u \<in> ?D - {t}. length (T u))"
    using fin by (simp add: sum.remove)
  finally show ?thesis
    using fin s by (simp add: pending_ops_def sum.remove [of ?D t])
qed

lemma lock_inv_done: "lock_inv rank (S, \<lambda>t. []) \<Longrightarrow> S = locks_free"
proof -
  assume "lock_inv rank (S, \<lambda>t. [])"
  then obtain H where "holding S H" and "\<And>t. H t = []" by (auto simp: lock_inv_def)
  then have none: "ls_mutex S l \<noteq> Some t" "rw_writer (ls_rw S l) \<noteq> Some t"
    "t \<notin> set (rw_readers (ls_rw S l))" for t l
    by (auto simp: holding_def count_list_0_iff)
  have "ls_mutex S l = None" "ls_rw S l = RWMutex_new" for l
    using none(1) [of l] none(2) [of l] none(3) [of _ l]
    by (cases "ls_mutex S l"; cases "rw_writer (ls_rw S l)"; cases "rw_readers (ls_rw S l)";
        auto simp: RWMutex_new_def)+
  then show ?thesis by (cases S) (simp add: locks_free_def fun_eq_iff)
qed

section \<open>Programs that keep the order\<close>

text \<open>
  What the order buys: threads whose programs keep it, started with all locks free, never block each
  other for good. Whatever the interleaving, the threads that are not finished can go on, no run is
  longer than the programs together, and where a run ends every thread is finished and every lock free.
\<close>

locale lock_order =
  fixes rank :: "'l \<Rightarrow> nat" and programs :: "'l locking"
  assumes keeps_order: "ranked rank 0 programs"
begin

lemma start_inv:
  assumes "finite {t. T t \<noteq> []}" and "\<And>t. T t \<noteq> [] \<Longrightarrow> T t \<in> programs"
  shows "lock_inv rank (locks_free, T)"
proof -
  have "holding locks_free (\<lambda>t. [])" by (simp add: holding_def locks_free_def RWMutex_new_def)
  moreover have "ordered rank [] (T t)" for t
    using assms(2) [of t] ranked_ordered [OF keeps_order] by (cases "T t = []") auto
  ultimately show ?thesis
    using assms(1) by (auto simp: lock_inv_def intro!: exI [of _ "\<lambda>t. []"])
qed

lemma run_inv:
  assumes "(lock_step ^^ n) s s'" and "lock_inv rank s"
  shows "lock_inv rank s' \<and> pending_ops s = n + pending_ops s'"
  using assms
proof (induction n arbitrary: s')
  case (Suc n)
  then obtain s1 where s1: "(lock_step ^^ n) s s1" "lock_step s1 s'" by auto
  with Suc have "lock_inv rank s1" "pending_ops s = n + pending_ops s1" by auto
  with lock_inv_step [OF s1(2)] pending_ops_step [OF s1(2)] show ?case by auto
qed simp

lemma no_deadlock:
  assumes "finite {t. T t \<noteq> []}" and "\<And>t. T t \<noteq> [] \<Longrightarrow> T t \<in> programs"
    and "(lock_step ^^ n) (locks_free, T) (S', T')"
  shows "n \<le> pending_ops (locks_free, T) \<and>
    ((\<exists>s'. lock_step (S', T') s') \<or> S' = locks_free \<and> T' = (\<lambda>t. []))"
proof -
  have inv: "lock_inv rank (S', T')" "pending_ops (locks_free, T) = n + pending_ops (S', T')"
    using run_inv [OF assms(3)] start_inv [of T] assms(1,2) by blast+
  show ?thesis
  proof (cases "\<exists>t. T' t \<noteq> []")
    case True
    with lock_progress [OF inv(1)] inv(2) show ?thesis by auto
  next
    case False
    then have "T' = (\<lambda>t. [])" by auto
    with lock_inv_done [of rank S'] inv show ?thesis by auto
  qed
qed

end

end
