(* ===== verification/Lock_Programs.thy ===== *)
theory Lock_Programs
  imports Lock_Order Logger
begin

text \<open>
  The locks of the server and what every operation does with them: for each operation of src/sylar that takes a
  lock, the set of the lock traces it can leave. A guard of the source is \<open>guarded\<close>, \<open>unlock()\<close> in the middle of a
  block ends it, a branch is a union and a loop is \<open>many\<close>; logging calls inside a locked block are kept, because
  they take the locks of the logger, of the root logger and of the appenders. Operations of the source that take no lock
  have no entry. Assertions that fail abort the process and end a trace; they are not followed.

  Objects are named by numbers: \<open>r\<close> is the root logger, \<open>g\<close> the logger \<open>"system"\<close> that the modules log to, \<open>i\<close> an
  \<open>IOManager\<close> (a \<open>Scheduler\<close> and a \<open>TimerManager\<close> at once).
\<close>

datatype lock_name =
    L_config
  | L_var nat
  | L_iom nat
  | L_fd_ctx nat int
  | L_timer nat
  | L_sched nat
  | L_log_mgr
  | L_logger nat
  | L_appender nat
  | L_fd_mgr

lemma guardedI: "t \<in> A \<Longrightarrow> Acquire m l # t @ [Release m l] \<in> guarded m l A"
  by (auto simp: guarded_def)

lemma afterI: "s \<in> A \<Longrightarrow> t \<in> B \<Longrightarrow> s @ t \<in> after A B"
  by (auto simp: after_def)

lemma maybeI: "t \<in> A \<Longrightarrow> t \<in> maybe A"
  by (simp add: maybe_def)

text \<open>The order of the locks: a lock is only taken under locks that come before it.\<close>

fun lock_rank :: "nat \<Rightarrow> lock_name \<Rightarrow> nat" where
  "lock_rank r L_config = 1"
| "lock_rank r (L_var v) = 2"
| "lock_rank r (L_iom i) = 3"
| "lock_rank r (L_fd_ctx i fd) = 4"
| "lock_rank r (L_timer i) = 5"
| "lock_rank r (L_sched i) = 6"
| "lock_rank r L_log_mgr = 7"
| "lock_rank r (L_logger l) = (if l = r then 9 else 8)"
| "lock_rank r (L_appender a) = 10"
| "lock_rank r L_fd_mgr = 11"

section \<open>Descriptors\<close>

definition getFdCtx_locks :: "lock_name locking" where
  "getFdCtx_locks = after (guarded Rd L_fd_mgr no_locks) (maybe (guarded Wr L_fd_mgr no_locks))"

definition delFdCtx_locks :: "lock_name locking" where
  "delFdCtx_locks = guarded Wr L_fd_mgr no_locks"

text \<open>
  A hooked \<open>read\<close> or \<open>write\<close> on a descriptor that is no socket (the tickle pipe, a log file): \<open>do_io\<close> looks the
  descriptor up, if hooks are on, and calls the original function.
\<close>

definition plain_io_locks :: "lock_name locking" where
  "plain_io_locks = maybe (guarded Rd L_fd_mgr no_locks)"

section \<open>Logging\<close>

definition Appender_getFormatter_locks :: "nat \<Rightarrow> lock_name locking" where
  "Appender_getFormatter_locks a = guarded Excl (L_appender a) no_locks"

definition Appender_setFormatter_locks :: "nat \<Rightarrow> lock_name locking" where
  "Appender_setFormatter_locks a = guarded Excl (L_appender a) no_locks"

definition Appender_toYaml_locks :: "nat \<Rightarrow> lock_name locking" where
  "Appender_toYaml_locks a = guarded Excl (L_appender a) no_locks"

definition reopen_locks :: "nat \<Rightarrow> lock_name locking" where
  "reopen_locks a = guarded Excl (L_appender a) (many plain_io_locks)"

definition Appender_log_locks :: "appender_kind \<Rightarrow> nat \<Rightarrow> lock_name locking" where
  "Appender_log_locks k a =
     maybe (case k of
              StdoutLogAppender \<Rightarrow> guarded Excl (L_appender a) (many plain_io_locks)
            | FileLogAppender f \<Rightarrow>
                after (reopen_locks a) (guarded Excl (L_appender a) (many plain_io_locks)))"

text \<open>\<open>Logger::log\<close>: the level is too low, or the appenders are called, or the root logger is, under the logger's lock.\<close>

inductive logs :: "nat \<Rightarrow> nat \<Rightarrow> lock_name lock_op list \<Rightarrow> bool" for r where
  logs_filtered: "logs r l []"
| logs_appenders: "t \<in> many (\<Union>k. \<Union>a. Appender_log_locks k a) \<Longrightarrow>
    logs r l (Acquire Excl (L_logger l) # t @ [Release Excl (L_logger l)])"
| logs_root: "l \<noteq> r \<Longrightarrow> logs r r t \<Longrightarrow>
    logs r l (Acquire Excl (L_logger l) # t @ [Release Excl (L_logger l)])"

definition SYLAR_LOG_locks :: "nat \<Rightarrow> nat \<Rightarrow> lock_name locking" where
  "SYLAR_LOG_locks r l = {t. logs r l t}"

definition addAppender_locks :: "nat \<Rightarrow> nat \<Rightarrow> lock_name locking" where
  "addAppender_locks l a =
     guarded Excl (L_logger l) (after (Appender_getFormatter_locks a) (maybe (Appender_setFormatter_locks a)))"

text \<open>
  \<open>delAppender\<close>, \<open>clearAppenders\<close> and \<open>setFormatter\<close>. A file appender that is dropped here writes what its stream
  still holds.
\<close>

definition delAppender_locks :: "nat \<Rightarrow> lock_name locking" where
  "delAppender_locks l = guarded Excl (L_logger l) (many plain_io_locks)"

definition clearAppenders_locks :: "nat \<Rightarrow> lock_name locking" where
  "clearAppenders_locks l = guarded Excl (L_logger l) (many plain_io_locks)"

definition Logger_setFormatter_locks :: "nat \<Rightarrow> lock_name locking" where
  "Logger_setFormatter_locks l = guarded Excl (L_logger l) no_locks"

definition Logger_toYaml_locks :: "nat \<Rightarrow> lock_name locking" where
  "Logger_toYaml_locks l = guarded Excl (L_logger l) (many (\<Union>a. Appender_toYaml_locks a))"

definition getLogger_locks :: "lock_name locking" where
  "getLogger_locks = guarded Excl L_log_mgr no_locks"

definition addLogger_locks :: "lock_name locking" where
  "addLogger_locks = guarded Excl L_log_mgr (many plain_io_locks)"

definition LoggerManager_toYaml_locks :: "lock_name locking" where
  "LoggerManager_toYaml_locks = guarded Excl L_log_mgr (many (\<Union>l. Logger_toYaml_locks l))"

text \<open>The listener of the \<open>logs\<close> variable: what it does for a new or changed entry, and for a removed one.\<close>

definition apply_define_locks :: "lock_name locking" where
  "apply_define_locks =
     (\<Union>l. after (maybe getLogger_locks)
           (after (maybe (Logger_setFormatter_locks l))
           (after (many (\<Union>a. addAppender_locks l a)) addLogger_locks)))"

definition retire_define_locks :: "lock_name locking" where
  "retire_define_locks = (\<Union>l. after getLogger_locks (clearAppenders_locks l))"

definition log_listener_locks :: "nat \<Rightarrow> lock_name locking" where
  "log_listener_locks r =
     after (SYLAR_LOG_locks r r) (after (many apply_define_locks) (many retire_define_locks))"

section \<open>Configuration\<close>

definition ConfigVar_getValue_locks :: "nat \<Rightarrow> lock_name locking" where
  "ConfigVar_getValue_locks v = guarded Rd (L_var v) no_locks"

definition ConfigVar_toString_locks :: "nat \<Rightarrow> nat \<Rightarrow> lock_name locking" where
  "ConfigVar_toString_locks r v = after (guarded Rd (L_var v) no_locks) (maybe (SYLAR_LOG_locks r r))"

text \<open>The listeners the program itself registers: on \<open>logs\<close>, and on \<open>tcp.connect.timeout\<close>, which logs.\<close>

definition listener_locks :: "nat \<Rightarrow> nat \<Rightarrow> lock_name locking" where
  "listener_locks r g = log_listener_locks r \<union> SYLAR_LOG_locks r g"

definition setValue_locks :: "nat \<Rightarrow> nat \<Rightarrow> nat \<Rightarrow> lock_name locking" where
  "setValue_locks r g v =
     after (guarded Rd (L_var v) (many (listener_locks r g))) (maybe (guarded Wr (L_var v) no_locks))"

definition ConfigVar_fromString_locks :: "nat \<Rightarrow> nat \<Rightarrow> nat \<Rightarrow> lock_name locking" where
  "ConfigVar_fromString_locks r g v = after (maybe (setValue_locks r g v)) (maybe (SYLAR_LOG_locks r r))"

text \<open>\<open>addListener\<close> and \<open>delListener\<close>; \<open>getListener\<close>.\<close>

definition addListener_locks :: "nat \<Rightarrow> lock_name locking" where
  "addListener_locks v = guarded Wr (L_var v) no_locks"

definition delListener_locks :: "nat \<Rightarrow> lock_name locking" where
  "delListener_locks v = guarded Wr (L_var v) no_locks"

definition getListener_locks :: "nat \<Rightarrow> lock_name locking" where
  "getListener_locks v = guarded Rd (L_var v) no_locks"

definition Lookup_locks :: "nat \<Rightarrow> lock_name locking" where
  "Lookup_locks r =
     guarded Wr L_config
       (maybe (SYLAR_LOG_locks r r) \<union>
        (\<Union>v. after (ConfigVar_toString_locks r v)
               (after (SYLAR_LOG_locks r r) (maybe (SYLAR_LOG_locks r r)))))"

definition LookupBase_locks :: "lock_name locking" where
  "LookupBase_locks = guarded Rd L_config no_locks"

definition LoadFromYaml_locks :: "nat \<Rightarrow> nat \<Rightarrow> lock_name locking" where
  "LoadFromYaml_locks r g =
     after (many (SYLAR_LOG_locks r r))
       (many (after LookupBase_locks (maybe (\<Union>v. ConfigVar_fromString_locks r g v))))"

text \<open>\<open>Config::Visit\<close> with a callback that prints the variables.\<close>

definition Visit_locks :: "nat \<Rightarrow> nat \<Rightarrow> lock_name locking" where
  "Visit_locks r g =
     guarded Rd L_config (many (\<Union>v. after (ConfigVar_toString_locks r v) (maybe (SYLAR_LOG_locks r g))))"

section \<open>Scheduler and timers\<close>

text \<open>\<open>tickle()\<close> writes to the pipe if a thread is idle (and does nothing in the base class).\<close>

definition tickle_locks :: "lock_name locking" where
  "tickle_locks = maybe plain_io_locks"

definition schedule_locks :: "nat \<Rightarrow> lock_name locking" where
  "schedule_locks i = after (guarded Excl (L_sched i) no_locks) (maybe tickle_locks)"

definition run_pick_locks :: "nat \<Rightarrow> lock_name locking" where
  "run_pick_locks i = after (guarded Excl (L_sched i) no_locks) (maybe tickle_locks)"

definition run_after_locks :: "nat \<Rightarrow> nat \<Rightarrow> nat \<Rightarrow> lock_name locking" where
  "run_after_locks r g i = schedule_locks i \<union> maybe (SYLAR_LOG_locks r g)"

definition Fiber_new_locks :: "nat \<Rightarrow> nat \<Rightarrow> lock_name locking" where
  "Fiber_new_locks r g = after (maybe (\<Union>v. ConfigVar_getValue_locks v)) (SYLAR_LOG_locks r g)"

definition Fiber_delete_locks :: "nat \<Rightarrow> nat \<Rightarrow> lock_name locking" where
  "Fiber_delete_locks r g = after (maybe (SYLAR_LOG_locks r g)) (SYLAR_LOG_locks r g)"

definition start_locks :: "nat \<Rightarrow> nat \<Rightarrow> nat \<Rightarrow> lock_name locking" where
  "start_locks r g i =
     guarded Excl (L_sched i) (maybe (after (SYLAR_LOG_locks r g) (many (SYLAR_LOG_locks r g))))"

definition get_next_timeout_locks :: "nat \<Rightarrow> lock_name locking" where
  "get_next_timeout_locks i = guarded Rd (L_timer i) no_locks"

definition stopping_locks :: "nat \<Rightarrow> lock_name locking" where
  "stopping_locks i = after (maybe (get_next_timeout_locks i)) (maybe (guarded Excl (L_sched i) no_locks))"

text \<open>
  \<open>Scheduler::stop()\<close>. The root fiber it may call runs the main loop of this thread, \<open>W\<close>, and no
  lock is held meanwhile.
\<close>

definition stop_locks :: "nat \<Rightarrow> nat \<Rightarrow> nat \<Rightarrow> lock_name locking \<Rightarrow> lock_name locking" where
  "stop_locks r g i W =
     after (maybe (after (SYLAR_LOG_locks r g) (stopping_locks i)))
    (after (maybe (after (stopping_locks i) (maybe (after (SYLAR_LOG_locks r g) W))))
    (after (many tickle_locks)
    (after (guarded Excl (L_sched i) no_locks)
    (after (many (maybe (SYLAR_LOG_locks r g))) (stopping_locks i)))))"

text \<open>The end of \<open>add_timer(timer, lock)\<close>, after it unlocked the guard it was given.\<close>

definition at_front_locks :: "nat \<Rightarrow> nat \<Rightarrow> lock_name locking" where
  "at_front_locks r g = maybe (after (SYLAR_LOG_locks r g) tickle_locks)"

definition add_timer_locks :: "nat \<Rightarrow> nat \<Rightarrow> nat \<Rightarrow> lock_name locking" where
  "add_timer_locks r g i = after (guarded Wr (L_timer i) (SYLAR_LOG_locks r g)) (at_front_locks r g)"

text \<open>\<open>Timer::cancel()\<close> drops the callback, and with it perhaps the last reference to a fiber, under the lock.\<close>

definition Timer_cancel_locks :: "nat \<Rightarrow> nat \<Rightarrow> nat \<Rightarrow> lock_name locking" where
  "Timer_cancel_locks r g i = guarded Wr (L_timer i) (many (Fiber_delete_locks r g))"

definition Timer_refresh_locks :: "nat \<Rightarrow> nat \<Rightarrow> nat \<Rightarrow> lock_name locking" where
  "Timer_refresh_locks r g i = guarded Wr (L_timer i) no_locks \<union> add_timer_locks r g i"

definition Timer_reset_locks :: "nat \<Rightarrow> nat \<Rightarrow> nat \<Rightarrow> lock_name locking" where
  "Timer_reset_locks r g i = no_locks \<union> guarded Wr (L_timer i) no_locks \<union> add_timer_locks r g i"

text \<open>
  \<open>list_expired_cbs\<close>: the first recurring timer put back releases the guard, the others are put back without it.
\<close>

definition list_expired_locks :: "nat \<Rightarrow> nat \<Rightarrow> nat \<Rightarrow> lock_name locking" where
  "list_expired_locks r g i =
     after (guarded Rd (L_timer i) no_locks)
       (maybe (guarded Wr (L_timer i) no_locks \<union>
               after (add_timer_locks r g i) (many (after (SYLAR_LOG_locks r g) (at_front_locks r g)))))"

section \<open>Events\<close>

text \<open>\<open>FdContext::triggerEvent\<close> logs and queues the task on the scheduler of the slot.\<close>

definition trigger_locks :: "nat \<Rightarrow> nat \<Rightarrow> lock_name locking" where
  "trigger_locks r g = after (SYLAR_LOG_locks r g) (\<Union>j. schedule_locks j)"

definition add_event_locks :: "nat \<Rightarrow> nat \<Rightarrow> nat \<Rightarrow> int \<Rightarrow> lock_name locking" where
  "add_event_locks r g i fd =
     after (guarded Rd (L_iom i) no_locks)
    (after (maybe (guarded Wr (L_iom i) no_locks))
       (guarded Excl (L_fd_ctx i fd)
          (SYLAR_LOG_locks r g \<union> after (SYLAR_LOG_locks r g) (maybe (SYLAR_LOG_locks r g)))))"

text \<open>\<open>del_event\<close>, \<open>cancel_event\<close> and \<open>cancel_all\<close> copy the descriptor's mutex instead of locking it.\<close>

definition del_event_locks :: "nat \<Rightarrow> nat \<Rightarrow> nat \<Rightarrow> lock_name locking" where
  "del_event_locks r g i =
     guarded Rd (L_iom i) (SYLAR_LOG_locks r g) \<union>
     after (guarded Rd (L_iom i) no_locks) (maybe (SYLAR_LOG_locks r g) \<union> many (Fiber_delete_locks r g))"

definition cancel_event_locks :: "nat \<Rightarrow> nat \<Rightarrow> nat \<Rightarrow> lock_name locking" where
  "cancel_event_locks r g i =
     guarded Rd (L_iom i) (SYLAR_LOG_locks r g) \<union>
     after (guarded Rd (L_iom i) no_locks) (SYLAR_LOG_locks r g \<union> trigger_locks r g)"

definition cancel_all_locks :: "nat \<Rightarrow> nat \<Rightarrow> nat \<Rightarrow> lock_name locking" where
  "cancel_all_locks r g i =
     guarded Rd (L_iom i) (SYLAR_LOG_locks r g) \<union>
     after (guarded Rd (L_iom i) no_locks)
       (SYLAR_LOG_locks r g \<union> after (maybe (trigger_locks r g)) (maybe (trigger_locks r g)))"

text \<open>
  One reported event: the pipe is read empty; or the handler logs, takes the lock of the context (not a copy), logs \<open>ERR or HUP\<close>, and goes on
  without a change, logs that the kernel refused, or triggers the reader and the writer, each after a log message of its own.
\<close>

definition handle_event_locks :: "nat \<Rightarrow> nat \<Rightarrow> nat \<Rightarrow> int \<Rightarrow> lock_name locking" where
  "handle_event_locks r g i fd =
     many plain_io_locks \<union>
     after (SYLAR_LOG_locks r g)
       (guarded Excl (L_fd_ctx i fd)
          (after (maybe (SYLAR_LOG_locks r g))
             (maybe (SYLAR_LOG_locks r g \<union>
                     after (maybe (after (SYLAR_LOG_locks r g) (trigger_locks r g)))
                           (maybe (after (SYLAR_LOG_locks r g) (trigger_locks r g)))))))"

text \<open>For instance a hang-up with a reader and a writer waiting: six log messages, five of them under the lock, and two tasks queued.\<close>

lemma hangup_trace:
  assumes "\<And>n. l n \<in> SYLAR_LOG_locks r g" and "s1 \<in> schedule_locks j1" and "s2 \<in> schedule_locks j2"
  shows "l 0 @ Acquire Excl (L_fd_ctx i fd) # (l 1 @ (l 2 @ l 3 @ s1) @ (l 4 @ l 5 @ s2)) @ [Release Excl (L_fd_ctx i fd)]
    \<in> handle_event_locks r g i fd"
proof -
  have trig: "l m @ l n @ s \<in> maybe (after (SYLAR_LOG_locks r g) (trigger_locks r g))" if "s \<in> schedule_locks j" for m n s j
    unfolding trigger_locks_def using assms(1) that by (blast intro: maybeI afterI)
  show ?thesis
    unfolding handle_event_locks_def
    by (rule UnI2, rule afterI [OF assms(1)], rule guardedI, rule afterI [OF maybeI [OF assms(1)]], rule maybeI,
        rule UnI2, rule afterI [OF trig [OF assms(2)] trig [OF assms(3)]])
qed

definition IO_idle_locks :: "nat \<Rightarrow> nat \<Rightarrow> nat \<Rightarrow> lock_name locking" where
  "IO_idle_locks r g i =
     after (stopping_locks i)
       (SYLAR_LOG_locks r g \<union>
        after (many (SYLAR_LOG_locks r g))
       (after (list_expired_locks r g i)
       (after (maybe (after (SYLAR_LOG_locks r g) (schedule_locks i)))
       (after (SYLAR_LOG_locks r g) (many (\<Union>fd. handle_event_locks r g i fd))))))"

section \<open>The server\<close>

text \<open>The main loop of a worker: whatever it takes from the queue, it holds no lock while it runs it.\<close>

definition client_locks :: "nat \<Rightarrow> nat \<Rightarrow> lock_name locking" where
  "client_locks r g =
     getFdCtx_locks \<union> delFdCtx_locks \<union> plain_io_locks \<union> (\<Union>l. SYLAR_LOG_locks r l) \<union>
     (\<Union>a. Appender_getFormatter_locks a) \<union> (\<Union>a. Appender_setFormatter_locks a) \<union> (\<Union>a. reopen_locks a) \<union>
     (\<Union>l. \<Union>a. addAppender_locks l a) \<union> (\<Union>l. delAppender_locks l) \<union> (\<Union>l. clearAppenders_locks l) \<union>
     (\<Union>l. Logger_setFormatter_locks l) \<union> (\<Union>l. Logger_toYaml_locks l) \<union> getLogger_locks \<union> addLogger_locks \<union>
     LoggerManager_toYaml_locks \<union>
     (\<Union>v. ConfigVar_getValue_locks v) \<union> (\<Union>v. ConfigVar_toString_locks r v) \<union> (\<Union>v. setValue_locks r g v) \<union>
     (\<Union>v. ConfigVar_fromString_locks r g v) \<union> (\<Union>v. addListener_locks v) \<union> (\<Union>v. delListener_locks v) \<union>
     (\<Union>v. getListener_locks v) \<union> Lookup_locks r \<union> LookupBase_locks \<union> LoadFromYaml_locks r g \<union> Visit_locks r g \<union>
     (\<Union>i. schedule_locks i) \<union> Fiber_new_locks r g \<union> Fiber_delete_locks r g \<union> (\<Union>i. start_locks r g i) \<union>
     (\<Union>i. add_timer_locks r g i) \<union> (\<Union>i. Timer_cancel_locks r g i) \<union> (\<Union>i. Timer_refresh_locks r g i) \<union>
     (\<Union>i. Timer_reset_locks r g i) \<union>
     (\<Union>i. \<Union>fd. add_event_locks r g i fd) \<union> (\<Union>i. del_event_locks r g i) \<union> (\<Union>i. cancel_event_locks r g i) \<union>
     (\<Union>i. cancel_all_locks r g i)"

definition worker_locks :: "nat \<Rightarrow> nat \<Rightarrow> lock_name locking" where
  "worker_locks r g =
     many (\<Union>i. run_pick_locks i \<union> run_after_locks r g i \<union> IO_idle_locks r g i \<union> client_locks r g)"

definition thread_locks :: "nat \<Rightarrow> nat \<Rightarrow> lock_name locking" where
  "thread_locks r g = many (worker_locks r g \<union> (\<Union>i. stop_locks r g i (worker_locks r g)))"

section \<open>Every operation keeps the order\<close>

lemma fd_ranked [ranked_intros]:
  "n < 11 \<Longrightarrow> ranked (lock_rank r) n getFdCtx_locks" "n < 11 \<Longrightarrow> ranked (lock_rank r) n delFdCtx_locks"
  "n < 11 \<Longrightarrow> ranked (lock_rank r) n plain_io_locks"
  unfolding getFdCtx_locks_def delFdCtx_locks_def plain_io_locks_def
  by (intro ranked_intros; simp)+

lemma appender_ranked [ranked_intros]:
  "n < 10 \<Longrightarrow> ranked (lock_rank r) n (Appender_getFormatter_locks a)"
  "n < 10 \<Longrightarrow> ranked (lock_rank r) n (Appender_setFormatter_locks a)"
  "n < 10 \<Longrightarrow> ranked (lock_rank r) n (Appender_toYaml_locks a)"
  "n < 10 \<Longrightarrow> ranked (lock_rank r) n (reopen_locks a)"
  unfolding Appender_getFormatter_locks_def Appender_setFormatter_locks_def Appender_toYaml_locks_def
    reopen_locks_def
  by (intro ranked_intros; simp)+

lemma Appender_log_ranked [ranked_intros]: "n < 10 \<Longrightarrow> ranked (lock_rank r) n (Appender_log_locks k a)"
  by (cases k) (simp_all add: Appender_log_locks_def ranked_intros)

lemma SYLAR_LOG_locks_unfold:
  "SYLAR_LOG_locks r l =
     maybe (guarded Excl (L_logger l)
       (many (\<Union>k. \<Union>a. Appender_log_locks k a) \<union> (if l = r then {} else SYLAR_LOG_locks r r)))"
  (is "_ = ?R")
proof (rule set_eqI)
  fix t
  have "logs r l t \<longleftrightarrow> t \<in> ?R"
    by (subst logs.simps) (auto simp: SYLAR_LOG_locks_def maybe_def guarded_def no_locks_def)
  then show "t \<in> SYLAR_LOG_locks r l \<longleftrightarrow> t \<in> ?R" by (simp add: SYLAR_LOG_locks_def)
qed

lemma ranked_empty [ranked_intros]: "ranked rank n {}"
  by (simp add: ranked_def)

lemma root_log_ranked: "n < 9 \<Longrightarrow> ranked (lock_rank r) n (SYLAR_LOG_locks r r)"
  by (subst SYLAR_LOG_locks_unfold) (simp add: ranked_intros)

lemma log_ranked [ranked_intros]: "n < 8 \<Longrightarrow> ranked (lock_rank r) n (SYLAR_LOG_locks r l)"
  by (cases "l = r"; subst SYLAR_LOG_locks_unfold) (simp_all add: ranked_intros root_log_ranked)

lemma logger_ranked [ranked_intros]:
  "n < 8 \<Longrightarrow> ranked (lock_rank r) n (addAppender_locks l a)"
  "n < 8 \<Longrightarrow> ranked (lock_rank r) n (delAppender_locks l)"
  "n < 8 \<Longrightarrow> ranked (lock_rank r) n (clearAppenders_locks l)"
  "n < 8 \<Longrightarrow> ranked (lock_rank r) n (Logger_setFormatter_locks l)"
  "n < 8 \<Longrightarrow> ranked (lock_rank r) n (Logger_toYaml_locks l)"
  unfolding addAppender_locks_def delAppender_locks_def clearAppenders_locks_def
    Logger_setFormatter_locks_def Logger_toYaml_locks_def
  by (intro ranked_intros; simp)+

lemma manager_ranked [ranked_intros]:
  "n < 7 \<Longrightarrow> ranked (lock_rank r) n getLogger_locks" "n < 7 \<Longrightarrow> ranked (lock_rank r) n addLogger_locks"
  "n < 7 \<Longrightarrow> ranked (lock_rank r) n LoggerManager_toYaml_locks"
  unfolding getLogger_locks_def addLogger_locks_def LoggerManager_toYaml_locks_def
  by (intro ranked_intros; simp)+

lemma listener_ranked [ranked_intros]: "n < 7 \<Longrightarrow> ranked (lock_rank r) n (listener_locks r g)"
  unfolding listener_locks_def log_listener_locks_def apply_define_locks_def retire_define_locks_def
  by (intro ranked_intros; simp)

lemma var_ranked [ranked_intros]:
  "n < 2 \<Longrightarrow> ranked (lock_rank r) n (ConfigVar_getValue_locks v)"
  "n < 2 \<Longrightarrow> ranked (lock_rank r) n (ConfigVar_toString_locks r v)"
  "n < 2 \<Longrightarrow> ranked (lock_rank r) n (setValue_locks r g v)"
  "n < 2 \<Longrightarrow> ranked (lock_rank r) n (addListener_locks v)"
  "n < 2 \<Longrightarrow> ranked (lock_rank r) n (delListener_locks v)"
  "n < 2 \<Longrightarrow> ranked (lock_rank r) n (getListener_locks v)"
  unfolding ConfigVar_getValue_locks_def ConfigVar_toString_locks_def setValue_locks_def
    addListener_locks_def delListener_locks_def getListener_locks_def
  by (intro ranked_intros; simp)+

lemma fromString_ranked [ranked_intros]:
  "n < 2 \<Longrightarrow> ranked (lock_rank r) n (ConfigVar_fromString_locks r g v)"
  unfolding ConfigVar_fromString_locks_def by (intro ranked_intros; simp)

lemma config_ranked [ranked_intros]:
  "ranked (lock_rank r) 0 (Lookup_locks r)" "ranked (lock_rank r) 0 LookupBase_locks"
  "ranked (lock_rank r) 0 (Visit_locks r g)"
  unfolding Lookup_locks_def LookupBase_locks_def Visit_locks_def
  by (intro ranked_intros; simp)+

lemma load_ranked [ranked_intros]: "ranked (lock_rank r) 0 (LoadFromYaml_locks r g)"
  unfolding LoadFromYaml_locks_def by (intro ranked_intros; simp)

lemma sched_ranked [ranked_intros]:
  "n < 11 \<Longrightarrow> ranked (lock_rank r) n tickle_locks"
  "n < 6 \<Longrightarrow> ranked (lock_rank r) n (start_locks r g i)"
  "n < 7 \<Longrightarrow> ranked (lock_rank r) n (Fiber_delete_locks r g)"
  "n < 2 \<Longrightarrow> ranked (lock_rank r) n (Fiber_new_locks r g)"
  unfolding tickle_locks_def start_locks_def Fiber_delete_locks_def Fiber_new_locks_def
  by (intro ranked_intros; simp)+

lemma schedule_ranked [ranked_intros]:
  "n < 6 \<Longrightarrow> ranked (lock_rank r) n (schedule_locks i)" "n < 6 \<Longrightarrow> ranked (lock_rank r) n (run_pick_locks i)"
  "n < 6 \<Longrightarrow> ranked (lock_rank r) n (trigger_locks r g)"
  unfolding schedule_locks_def run_pick_locks_def trigger_locks_def
  by (intro ranked_intros; simp)+

lemma run_after_ranked [ranked_intros]: "n < 6 \<Longrightarrow> ranked (lock_rank r) n (run_after_locks r g i)"
  unfolding run_after_locks_def by (intro ranked_intros; simp)

lemma timer_ranked [ranked_intros]:
  "n < 5 \<Longrightarrow> ranked (lock_rank r) n (get_next_timeout_locks i)"
  "n < 5 \<Longrightarrow> ranked (lock_rank r) n (Timer_cancel_locks r g i)"
  "n < 5 \<Longrightarrow> ranked (lock_rank r) n (at_front_locks r g)"
  "n < 5 \<Longrightarrow> ranked (lock_rank r) n (stopping_locks i)"
  unfolding get_next_timeout_locks_def Timer_cancel_locks_def at_front_locks_def stopping_locks_def
  by (intro ranked_intros; simp)+

lemma add_timer_ranked [ranked_intros]: "n < 5 \<Longrightarrow> ranked (lock_rank r) n (add_timer_locks r g i)"
  unfolding add_timer_locks_def by (intro ranked_intros; simp)

lemma timer_change_ranked [ranked_intros]:
  "n < 5 \<Longrightarrow> ranked (lock_rank r) n (Timer_refresh_locks r g i)"
  "n < 5 \<Longrightarrow> ranked (lock_rank r) n (Timer_reset_locks r g i)"
  "n < 5 \<Longrightarrow> ranked (lock_rank r) n (list_expired_locks r g i)"
  unfolding Timer_refresh_locks_def Timer_reset_locks_def list_expired_locks_def
  by (intro ranked_intros; simp)+

lemma event_ranked [ranked_intros]:
  "n < 3 \<Longrightarrow> ranked (lock_rank r) n (add_event_locks r g i fd)"
  "n < 3 \<Longrightarrow> ranked (lock_rank r) n (del_event_locks r g i)"
  "n < 3 \<Longrightarrow> ranked (lock_rank r) n (cancel_event_locks r g i)"
  "n < 3 \<Longrightarrow> ranked (lock_rank r) n (cancel_all_locks r g i)"
  "n < 4 \<Longrightarrow> ranked (lock_rank r) n (handle_event_locks r g i fd)"
  unfolding add_event_locks_def del_event_locks_def cancel_event_locks_def cancel_all_locks_def
    handle_event_locks_def
  by (intro ranked_intros; simp)+

lemma idle_ranked [ranked_intros]: "ranked (lock_rank r) 0 (IO_idle_locks r g i)"
  unfolding IO_idle_locks_def by (intro ranked_intros; simp)

lemma client_ranked [ranked_intros]: "ranked (lock_rank r) 0 (client_locks r g)"
  unfolding client_locks_def by (intro ranked_intros; simp)

lemma worker_ranked [ranked_intros]: "ranked (lock_rank r) 0 (worker_locks r g)"
  unfolding worker_locks_def by (intro ranked_intros; simp)

lemma stop_ranked [ranked_intros]:
  "ranked (lock_rank r) 0 W \<Longrightarrow> ranked (lock_rank r) 0 (stop_locks r g i W)"
  unfolding stop_locks_def by (intro ranked_intros; simp)

interpretation server_locks: lock_order "lock_rank r" "thread_locks r g" for r g
  by unfold_locales (unfold thread_locks_def, intro ranked_intros)

section \<open>The traces of the logger model\<close>

text \<open>The locks that \<open>Logger::log\<close> takes in a given state of the loggers; compare \<open>Appender_log\<close> and \<open>Logger_log\<close>.\<close>

definition Appender_log_trace :: "log_world \<Rightarrow> log_level \<Rightarrow> nat \<Rightarrow> lock_name lock_op list" where
  "Appender_log_trace w level a =
     (let lk = [Acquire Excl (L_appender a), Release Excl (L_appender a)]
      in case lw_appenders w a of
           None \<Rightarrow> []
         | Some ap \<Rightarrow> if passes level w ap
                      then (case ap_kind ap of StdoutLogAppender \<Rightarrow> lk | FileLogAppender f \<Rightarrow> lk @ lk)
                      else [])"

partial_function (option) Logger_log_trace :: "log_world \<Rightarrow> log_level \<Rightarrow> nat \<Rightarrow> lock_name lock_op list option" where
  [code]: "Logger_log_trace w level l =
     (case lw_loggers w l of
        None \<Rightarrow> Some []
      | Some lg \<Rightarrow>
          if level \<ge> lg_level lg then
            Option.bind
              (if lg_appenders lg \<noteq> [] then Some (concat (map (Appender_log_trace w level) (lg_appenders lg)))
               else (case lg_root lg of Some r \<Rightarrow> Logger_log_trace w level r | None \<Rightarrow> Some []))
              (\<lambda>t. Some (Acquire Excl (L_logger l) # t @ [Release Excl (L_logger l)]))
          else Some [])"

lemma no_locks_plain: "[] \<in> many plain_io_locks"
  by (rule many_Nil)

lemma Appender_log_trace_locks: "\<exists>k. Appender_log_trace w level a \<in> Appender_log_locks k a"
proof -
  have one: "[Acquire Excl (L_appender a), Release Excl (L_appender a)] \<in>
      guarded Excl (L_appender a) (many plain_io_locks)"
    unfolding guarded_def using no_locks_plain by force
  consider "Appender_log_trace w level a = []"
    | "Appender_log_trace w level a = [Acquire Excl (L_appender a), Release Excl (L_appender a)]"
    | "Appender_log_trace w level a = [Acquire Excl (L_appender a), Release Excl (L_appender a)] @
         [Acquire Excl (L_appender a), Release Excl (L_appender a)]"
    by (cases "lw_appenders w a"; cases "passes level w (the (lw_appenders w a))";
        cases "ap_kind (the (lw_appenders w a))") (auto simp: Appender_log_trace_def Let_def)
  then show ?thesis
  proof cases
    case 1
    then show ?thesis by (auto simp: Appender_log_locks_def maybe_def no_locks_def)
  next
    case 2
    with one have "Appender_log_trace w level a \<in> Appender_log_locks StdoutLogAppender a"
      by (simp add: Appender_log_locks_def maybe_def)
    then show ?thesis by blast
  next
    case 3
    have "Appender_log_trace w level a \<in> after (reopen_locks a) (guarded Excl (L_appender a) (many plain_io_locks))"
      unfolding 3 after_def reopen_locks_def using one by blast
    then have "Appender_log_trace w level a \<in> Appender_log_locks (FileLogAppender []) a"
      by (simp add: Appender_log_locks_def maybe_def)
    then show ?thesis by blast
  qed
qed

lemma appenders_trace_locks:
  "concat (map (Appender_log_trace w level) as) \<in> many (\<Union>k. \<Union>a. Appender_log_locks k a)"
proof (induction as)
  case (Cons a as)
  then show ?case using Appender_log_trace_locks [of w level a] by (auto intro: many_Cons)
qed (simp add: many_Nil)

lemma root_log_trace:
  assumes "lw_loggers w r = Some lg" and "lg_root lg = None"
  shows "\<exists>t. Logger_log_trace w level r = Some t \<and> logs r r t"
proof -
  have "logs r r (Acquire Excl (L_logger r) # concat (map (Appender_log_trace w level) as) @ [Release Excl (L_logger r)])" for as
    by (rule logs_appenders [OF appenders_trace_locks])
  from this [of "lg_appenders lg"] this [of "[]"] assms show ?thesis
    by (subst Logger_log_trace.simps) (auto intro: logs_filtered)
qed

section \<open>Properties\<close>

text \<open>
  Theorem (log_locks_modelled). In every well-formed state of the loggers, the locks that a call of \<open>Logger::log\<close>
  takes, which are those of the logger, of the root logger if the logger has no appender, and of the appenders that write, are
  a trace of the locking programs; the recursion into the root logger ends.
\<close>

theorem log_locks_modelled:
  assumes "log_wf w" and "lw_loggers w l = Some lg"
  shows "\<exists>t. Logger_log_trace w level l = Some t \<and> t \<in> SYLAR_LOG_locks (lw_root w) l"
proof -
  obtain rt where rt: "lw_loggers w (lw_root w) = Some rt" "lg_root rt = None"
    using assms(1) by (auto simp: log_wf_def)
  obtain u where u: "Logger_log_trace w level (lw_root w) = Some u" "logs (lw_root w) (lw_root w) u"
    using root_log_trace [OF rt] by blast
  have app: "logs (lw_root w) l (Acquire Excl (L_logger l) # concat (map (Appender_log_trace w level) as) @
      [Release Excl (L_logger l)])" for as
    by (rule logs_appenders [OF appenders_trace_locks])
  have lgr: "lg_root lg \<in> {None, Some (lw_root w)}"
    using log_wf_logger [OF assms] by (auto simp: logger_ok_def)
  show ?thesis
  proof (cases "l = lw_root w")
    case True
    with u show ?thesis by (auto simp: SYLAR_LOG_locks_def)
  next
    case False
    with lgr u app [of "lg_appenders lg"] app [of "[]"] assms(2) show ?thesis
      unfolding SYLAR_LOG_locks_def
      by (subst Logger_log_trace.simps) (auto intro: logs_filtered logs_root)
  qed
qed

text \<open>
  C12 (server_never_deadlocks). Let any number of threads run any sequences of the server's operations
  (logging, configuration, timers, events, scheduling and descriptors) and interleave their
  lock operations in any way, starting with all locks free. As long as a thread is not finished, some
  thread can go on; no run has more steps than the programs have operations; and when nothing can go on
  all threads are finished and all locks are free again.
\<close>

theorem server_never_deadlocks:
  assumes "finite {t. T t \<noteq> []}" and "\<And>t. T t \<noteq> [] \<Longrightarrow> T t \<in> thread_locks r g"
    and "(lock_step ^^ n) (locks_free, T) (S', T')"
  shows "n \<le> pending_ops (locks_free, T) \<and>
    ((\<exists>s'. lock_step (S', T') s') \<or> S' = locks_free \<and> T' = (\<lambda>t. []))"
  using assms by (rule server_locks.no_deadlock)



text \<open>Running the threads in a given order, for concrete runs.\<close>

fun exec_locks :: "tid list \<Rightarrow> 'l lock_state \<times> 'l threads \<Rightarrow> ('l lock_state \<times> 'l threads) option" where
  "exec_locks [] s = Some s"
| "exec_locks (t # ts) (S, T) =
     (case T t of
        [] \<Rightarrow> None
      | Acquire m l # ops \<Rightarrow>
          (case acquire t m l S of None \<Rightarrow> None | Some S' \<Rightarrow> exec_locks ts (S', T(t := ops)))
      | Release m l # ops \<Rightarrow>
          (case release t m l S of Inl e \<Rightarrow> None | Inr S' \<Rightarrow> exec_locks ts (S', T(t := ops))))"

lemma exec_locks_steps: "exec_locks ts s = Some s' \<Longrightarrow> (lock_step ^^ length ts) s s'"
proof (induction ts arbitrary: s)
  case (Cons t ts)
  obtain S T where s: "s = (S, T)" by (cases s)
  with Cons.prems obtain x ops where "T t = x # ops" by (cases "T t") auto
  with Cons.prems s have "\<exists>s1. lock_step s s1 \<and> exec_locks ts s1 = Some s'"
    by (auto split: lock_op.splits option.splits sum.splits intro: ls_acquire ls_release)
  with Cons.IH show ?case by (metis length_Cons relpowp_Suc_I2)
qed simp

definition named_world :: log_world where
  "named_world = snd (getLogger ''io'' fresh_world)"

lemma named_world_wf: "log_wf named_world"
  using log_reachable_wf [OF lr_getLogger [OF fresh_world_reachable [of "\<lambda>_ _. None"], of "''io''"
        "fst (getLogger ''io'' fresh_world)" named_world]]
  by (simp add: named_world_def)

theorem log_locks_modelled_witness:
  "[Acquire Excl (L_logger 2), Acquire Excl (L_logger 0), Acquire Excl (L_appender 1),
    Release Excl (L_appender 1), Release Excl (L_logger 0), Release Excl (L_logger 2)] \<in> SYLAR_LOG_locks 0 2"
proof -
  have "map_option lg_root (lw_loggers named_world 2) = Some (Some 0)" "lw_root named_world = 0"
    "Logger_log_trace named_world LV_INFO 2 =
       Some [Acquire Excl (L_logger 2), Acquire Excl (L_logger 0), Acquire Excl (L_appender 1),
         Release Excl (L_appender 1), Release Excl (L_logger 0), Release Excl (L_logger 2)]"
    by code_simp+
  with log_locks_modelled [OF named_world_wf, of 2 _ LV_INFO] show ?thesis by auto
qed


text \<open>Thread 1 describes the loggers while thread 2 logs through logger 2 to the root logger 0.\<close>

definition demo_threads :: "lock_name threads" where
  "demo_threads = (\<lambda>t.
     if t = 1 then [Acquire Excl L_log_mgr, Acquire Excl (L_logger 0), Acquire Excl (L_appender 1),
       Release Excl (L_appender 1), Release Excl (L_logger 0), Release Excl L_log_mgr]
     else if t = 2 then [Acquire Excl (L_logger 2), Acquire Excl (L_logger 0), Acquire Excl (L_appender 1),
       Release Excl (L_appender 1), Release Excl (L_logger 0), Release Excl (L_logger 2)]
     else [])"

lemma many_single: "s \<in> A \<Longrightarrow> s \<in> many A"
  using many_Cons [OF _ many_Nil, of s A] by simp

lemma client_thread: "t \<in> client_locks r g \<Longrightarrow> t \<in> thread_locks r g"
  unfolding thread_locks_def worker_locks_def by (blast intro: many_single)

lemma demo_threads_locks:
  assumes "demo_threads t \<noteq> []"
  shows "demo_threads t \<in> thread_locks 0 g"
proof -
  have a: "[Acquire Excl (L_appender 1), Release Excl (L_appender 1)] \<in> guarded Excl (L_appender 1) B"
    if "[] \<in> B" for B using guardedI [OF that, of Excl "L_appender 1"] by simp
  have y: "[Acquire Excl (L_appender 1), Release Excl (L_appender 1)] \<in> many (\<Union>a. Appender_toYaml_locks a)"
    using a [of no_locks] unfolding Appender_toYaml_locks_def no_locks_def by (blast intro: many_single)
  have "demo_threads 1 \<in> LoggerManager_toYaml_locks"
    using guardedI [OF many_single, of _ "\<Union>l. Logger_toYaml_locks l" Excl L_log_mgr]
      guardedI [OF y, of Excl "L_logger 0"]
    unfolding LoggerManager_toYaml_locks_def demo_threads_def Logger_toYaml_locks_def by force
  moreover have "[Acquire Excl (L_appender 1), Release Excl (L_appender 1)] \<in> Appender_log_locks StdoutLogAppender 1"
    using a [of "many plain_io_locks"] no_locks_plain by (simp add: Appender_log_locks_def maybe_def)
  then have "[Acquire Excl (L_appender 1), Release Excl (L_appender 1)] \<in>
      many (\<Union>k. \<Union>a. Appender_log_locks k a)"
    by (blast intro: many_single)
  from logs_root [OF _ logs_appenders [OF this], of 2 0] have "demo_threads 2 \<in> SYLAR_LOG_locks 0 2"
    by (simp add: SYLAR_LOG_locks_def demo_threads_def)
  ultimately have "demo_threads 1 \<in> client_locks 0 g" "demo_threads 2 \<in> client_locks 0 g"
    unfolding client_locks_def by blast+
  moreover have "t = 1 \<or> t = 2" using assms by (auto simp: demo_threads_def split: if_splits)
  ultimately show ?thesis by (auto intro: client_thread)
qed

theorem server_never_deadlocks_witness:
  "\<exists>S' T'. exec_locks [2, 1, 1] (locks_free, demo_threads) = Some (S', T') \<and>
     acquire 2 Excl (L_logger 0) S' = None \<and> (\<exists>s'. lock_step (S', T') s')"
proof -
  have run: "map_option (\<lambda>(S', T'). (T' 2 = [], acquire 2 Excl (L_logger 0) S' = None))
      (exec_locks [2, 1, 1] (locks_free, demo_threads)) = Some (False, True)"
    by (simp add: demo_threads_def acquire_def Mutex_lock_def locks_free_def)
  then obtain S' T' where ST: "exec_locks [2, 1, 1] (locks_free, demo_threads) = Some (S', T')"
    "T' 2 \<noteq> []" "acquire 2 Excl (L_logger 0) S' = None"
    by auto
  have "finite {t. demo_threads t \<noteq> []}"
    by (rule finite_subset [of _ "{1, 2}"]) (auto simp: demo_threads_def split: if_splits)
  from server_never_deadlocks [OF this demo_threads_locks exec_locks_steps [OF ST(1)]] ST
  show ?thesis by auto
qed

text \<open>
  Theorem (listener_setting_its_variable_waits). The order is needed: a listener that sets the variable it listens to asks for
  the write lock while \<open>setValue\<close> holds the read lock on the same thread. The thread then waits for itself, whatever the
  other threads do: no step of theirs releases the lock.
\<close>

theorem listener_setting_its_variable_waits:
  assumes "T t = Acquire Wr (L_var v) # ops" and "t \<in> set (rw_readers (ls_rw S (L_var v)))"
    and "lock_step\<^sup>*\<^sup>* (S, T) (S', T')"
  shows "T' t = T t \<and> acquire t Wr (L_var v) S' = None"
proof -
  have keep: "T2 t = T1 t \<and> t \<in> set (rw_readers (ls_rw S2 (L_var v)))"
    if "lock_step (S1, T1) (S2, T2)" "T1 t = Acquire Wr (L_var v) # ops"
      "t \<in> set (rw_readers (ls_rw S1 (L_var v)))" for S1 T1 S2 T2
    using that
    by (cases rule: lock_step.cases)
      (auto simp: acquire_def release_def Mutex_unlock_def RWMutex_rdlock_def RWMutex_wrlock_def RWMutex_unlock_def
        result_simps split: lock_mode.splits if_splits)
  have "T' t = T t \<and> t \<in> set (rw_readers (ls_rw S' (L_var v)))"
    using assms(3,1,2)
  proof (induction "(S', T')" arbitrary: S' T' rule: rtranclp_induct)
    case (step y)
    obtain S1 T1 where y: "y = (S1, T1)" by (cases y)
    with step keep [of S1 T1 S' T'] show ?case by auto
  qed simp
  then show ?thesis
    by (auto simp: acquire_def RWMutex_wrlock_def)
qed

theorem listener_setting_its_variable_waits_witness:
  "\<exists>S T. exec_locks [1] (locks_free, \<lambda>t. if t = 1 then [Acquire Rd (L_var 0), Acquire Wr (L_var 0)] else []) = Some (S, T) \<and>
     acquire 1 Wr (L_var 0) S = None"
proof -
  let ?T = "\<lambda>t. if t = 1 then [Acquire Rd (L_var 0), Acquire Wr (L_var 0)] else ([] :: lock_name lock_op list)"
  obtain S where S: "exec_locks [1] (locks_free, ?T) = Some (S, ?T(1 := [Acquire Wr (L_var 0)]))"
    "1 \<in> set (rw_readers (ls_rw S (L_var 0)))"
    by (simp add: acquire_def RWMutex_rdlock_def locks_free_def RWMutex_new_def)
  from listener_setting_its_variable_waits [of "?T(1 := [Acquire Wr (L_var 0)])" 1 0 "[]" S S] S show ?thesis by auto
qed

end
