(* ===== verification/Startup.thy ===== *)
theory Startup
  imports Config Hook IO_Events
begin

text \<open>
  The life of the process around the event loop: what the static initialisers of src/sylar/hook.cc and
  src/sylar/fiber.cc set up and how a configuration loaded later reaches the code that uses it, the
  singletons of src/sylar/singleton.h, the thread-local scheduler of src/sylar/scheduler.cc, and the
  destruction of an \<open>IOManager\<close>.
\<close>

section \<open>Singletons\<close>

text \<open>
  \<open>Singleton<T>::GetInstance\<close>: the function-local static, constructed at address \<open>a\<close> by the first call. The
  local of \<open>SingletonPtr<T>::GetInstance\<close> is not static: each call makes a new object.
\<close>

definition Singleton_GetInstance :: "nat \<Rightarrow> nat option \<Rightarrow> nat \<times> nat option" where
  "Singleton_GetInstance a v = (case v of None \<Rightarrow> (a, Some a) | Some b \<Rightarrow> (b, Some b))"

definition SingletonPtr_GetInstance :: "nat \<Rightarrow> nat option \<Rightarrow> nat \<times> nat option" where
  "SingletonPtr_GetInstance a v = (a, v)"

fun instances :: "(nat \<Rightarrow> nat option \<Rightarrow> nat \<times> nat option) \<Rightarrow> nat list \<Rightarrow> nat option \<Rightarrow> nat list" where
  "instances get [] v = []"
| "instances get (a # as) v = (case get a v of (p, v') \<Rightarrow> p # instances get as v')"

section \<open>The hooked functions\<close>

text \<open>The functions of \<open>HOOK_FUN\<close>; for each there is a pointer to the original (\<open>sleep_f\<close>, \<open>read_f\<close>, ...).\<close>

datatype hook_fn =
    F_sleep | F_usleep | F_nanosleep | F_socket | F_accept | F_connect | F_read | F_readv | F_recv
  | F_recvfrom | F_recvmsg | F_write | F_writev | F_send | F_sendto | F_sendmsg | F_close | F_fcntl
  | F_ioctl | F_getsockopt | F_setsockopt

definition HOOK_FUN :: "hook_fn list" where
  "HOOK_FUN = [F_sleep, F_usleep, F_nanosleep, F_socket, F_accept, F_connect, F_read, F_readv, F_recv,
     F_recvfrom, F_recvmsg, F_write, F_writev, F_send, F_sendto, F_sendmsg, F_close, F_fcntl, F_ioctl,
     F_getsockopt, F_setsockopt]"

record hook_state =
  raw_f :: "hook_fn \<Rightarrow> nat option"
  is_inited :: bool
  s_connect_timeout :: u64

text \<open>Before any initialiser ran: null pointers, and \<open>s_connect_timeout = -1\<close>.\<close>

definition hook_static :: hook_state where
  "hook_static = \<lparr>raw_f = \<lambda>_. None, is_inited = False, s_connect_timeout = - 1\<rparr>"

text \<open>\<open>hook_init\<close>; \<open>dlsym\<close> is the answer of \<open>dlsym(RTLD_NEXT, name)\<close>. The flag is tested and never set.\<close>

definition hook_init :: "(hook_fn \<Rightarrow> nat option) \<Rightarrow> hook_state \<Rightarrow> hook_state" where
  "hook_init dlsym h =
     (if is_inited h then h else h\<lparr>raw_f := fold (\<lambda>f t. t(f := dlsym f)) HOOK_FUN (raw_f h)\<rparr>)"

text \<open>A call through one of the pointers.\<close>

definition raw_call :: "hook_fn \<Rightarrow> hook_state \<Rightarrow> nat result" where
  "raw_call f h = (case raw_f h f of None \<Rightarrow> Inl (Null_deref ''raw function'') | Some p \<Rightarrow> Inr p)"

text \<open>\<open>is_hook_enable\<close> and \<open>set_hook_enable\<close> on the thread-local flag.\<close>

definition is_hook_enable :: "bool \<Rightarrow> bool" where
  "is_hook_enable t_hook_enable = t_hook_enable"

definition set_hook_enable :: "bool \<Rightarrow> bool \<Rightarrow> bool" where
  "set_hook_enable flag t_hook_enable = flag"

definition hook_getsockopt :: "hook_state \<Rightarrow> (nat \<Rightarrow> int) \<Rightarrow> int result" where
  "hook_getsockopt h answer = rbind (raw_call F_getsockopt h) (\<lambda>p. Inr (answer p))"

section \<open>The configuration variables of the modules\<close>

datatype module_value = V_int int | V_u32 u32

datatype module_listener = Log_connect_timeout

text \<open>\<open>g_fiber_stack_size\<close> and \<open>g_tcp_connect_timeout\<close>, registered at addresses \<open>a\<close> and \<open>b\<close>.\<close>

definition g_fiber_stack_size ::
    "nat \<Rightarrow> (module_value, 'cb) config \<Rightarrow> (nat \<times> (module_value, 'cb) config) result" where
  "g_fiber_stack_size a c =
     Lookup a ''uint32_t'' ''fiber.stack_size'' (V_u32 (1024 * 1024)) ''fiber stack size'' c"

definition g_tcp_connect_timeout ::
    "nat \<Rightarrow> (module_value, 'cb) config \<Rightarrow> (nat \<times> (module_value, 'cb) config) result" where
  "g_tcp_connect_timeout b c =
     Lookup b ''int'' ''tcp_connect_timeout'' (V_int 5000) ''tcp connect timeout'' c"

definition getValue :: "nat \<Rightarrow> ('v, 'cb) config \<Rightarrow> 'v result" where
  "getValue a c = (case cf_vars c a of None \<Rightarrow> Inl (Undefined ''destroyed variable'') | Some v \<Rightarrow> Inr (cv_val v))"

definition int_value :: "module_value \<Rightarrow> int" where
  "int_value x = (case x of V_int n \<Rightarrow> n | V_u32 n \<Rightarrow> uint n)"

text \<open>\<open>_Hook_initer\<close>: the value is copied once, and the listener only logs.\<close>

definition Hook_initer ::
    "(hook_fn \<Rightarrow> nat option) \<Rightarrow> nat \<Rightarrow> (module_value, module_listener) config \<times> hook_state
       \<Rightarrow> ((module_value, module_listener) config \<times> hook_state) result" where
  "Hook_initer dlsym b = (\<lambda>(c, h).
     let h1 = hook_init dlsym h
     in rbind (getValue b c) (\<lambda>x.
        rbind (addListener b Log_connect_timeout c) (\<lambda>c1.
          Inr (c1, h1\<lparr>s_connect_timeout := word_of_int (int_value x)\<rparr>))))"

fun call_listener :: "module_listener \<Rightarrow> module_value \<Rightarrow> module_value \<Rightarrow> hook_state \<Rightarrow> hook_state" where
  "call_listener Log_connect_timeout old_value new_value h = h"

text \<open>The static initialisers, the fibers' before the hooks'.\<close>

definition static_init ::
    "(hook_fn \<Rightarrow> nat option) \<Rightarrow> nat \<Rightarrow> nat \<Rightarrow> ((module_value, module_listener) config \<times> hook_state) result" where
  "static_init dlsym a b =
     rbind (g_fiber_stack_size a \<lparr>cf_vars = Map.empty, cf_datas = [], cf_fun_id = \<lambda>_. 0\<rparr>) (\<lambda>(_, c1).
     rbind (g_tcp_connect_timeout b c1) (\<lambda>(_, c2). Hook_initer dlsym b (c2, hook_static)))"

text \<open>The constructor of a fiber: \<open>stacksize ? stacksize : g_fiber_stack_size->getValue()\<close>.\<close>

definition Fiber_new_configured ::
    "nat \<Rightarrow> nat \<Rightarrow> 'f option \<Rightarrow> u64 \<Rightarrow> bool \<Rightarrow> bool \<Rightarrow> (module_value, 'cb) config \<Rightarrow> 'f fglobal \<Rightarrow> 'f fglobal result" where
  "Fiber_new_configured v a cb stacksize use_caller stack c g =
     (if stacksize \<noteq> 0 then Inr (Fiber_new a cb stacksize use_caller 0 stack g)
      else rbind (getValue v c) (\<lambda>x.
             Inr (Fiber_new a cb stacksize use_caller (word_of_int (int_value x)) stack g)))"

section \<open>The thread's scheduler\<close>

definition Scheduler_GetThis :: "nat option \<Rightarrow> nat option" where
  "Scheduler_GetThis t_scheduler = t_scheduler"

definition Scheduler_setThis :: "nat \<Rightarrow> nat option \<Rightarrow> nat option" where
  "Scheduler_setThis self t_scheduler = Some self"

definition Scheduler_GetMainFiber :: "tls \<Rightarrow> nat option" where
  "Scheduler_GetMainFiber t = t_main t"

text \<open>\<open>IOManager::GetThis\<close>, a \<open>dynamic_cast\<close>; \<open>is_iom\<close> says which schedulers are \<open>IOManager\<close>s.\<close>

definition IOManager_GetThis :: "(nat \<Rightarrow> bool) \<Rightarrow> nat option \<Rightarrow> nat option" where
  "IOManager_GetThis is_iom t_scheduler =
     (case Scheduler_GetThis t_scheduler of None \<Rightarrow> None | Some s \<Rightarrow> if is_iom s then Some s else None)"

text \<open>\<open>~Scheduler\<close> with its effect on the thread.\<close>

definition Scheduler_delete_tls :: "nat \<Rightarrow> 'cb sched \<Rightarrow> nat option \<Rightarrow> nat option result" where
  "Scheduler_delete_tls self s t_scheduler =
     rbind (Scheduler_delete s) (\<lambda>_. Inr (if t_scheduler = Some self then None else t_scheduler))"

section \<open>Stopping and destroying an IOManager\<close>

text \<open>
  \<open>stop()\<close> from its beginning to its return. \<open>back\<close> is the scheduler's state when the root fiber, if it is called, gives the
  processor back, or else the state in which the second half begins (other threads have been running).
\<close>

definition io_stop ::
    "u64 \<Rightarrow> 'cb timer_manager \<Rightarrow> bool \<Rightarrow> 'cb sched \<Rightarrow> 'cb iomanager \<Rightarrow> 'cb fglobal \<Rightarrow> 'cb iomanager result" where
  "io_stop now tm this back m g =
     rbind (stop_enter (\<lambda>s. IO_stopping now tm (m\<lparr>io_scheds := (io_scheds m)(io_self m := s)\<rparr>)) this
        (io_scheds m (io_self m)) g) (\<lambda>(br, s1).
       Inr (m\<lparr>io_scheds := (io_scheds m)(io_self m :=
              (case br of Stop_return \<Rightarrow> s1 | _ \<Rightarrow> stop_finish back))\<rparr>))"

text \<open>
  \<open>~IOManager\<close>: it stops, closes the epoll descriptor and both ends of the pipe, and deletes the contexts; then the base class
  is destroyed.
\<close>

definition IOManager_delete ::
    "int \<Rightarrow> int \<Rightarrow> int \<Rightarrow> u64 \<Rightarrow> 'cb timer_manager \<Rightarrow> bool \<Rightarrow> 'cb sched \<Rightarrow> 'cb iomanager \<Rightarrow> 'cb fglobal \<Rightarrow> nat option
       \<Rightarrow> (int list \<times> 'cb iomanager \<times> nat option) result" where
  "IOManager_delete epfd p0 p1 now tm this back m g t_scheduler =
     rbind (io_stop now tm this back m g) (\<lambda>m1.
       let m2 = m1\<lparr>m_fd_contexts := []\<rparr>
       in rbind (Scheduler_delete_tls (io_self m) (io_scheds m1 (io_self m)) t_scheduler) (\<lambda>t.
            Inr ([epfd, p0, p1], m2, t)))"

section \<open>Lemmas\<close>

lemma HOOK_FUN_all: "f \<in> set HOOK_FUN"
  by (cases f) (simp_all add: HOOK_FUN_def)

lemma fold_upd_apply: "fold (\<lambda>f t. t(f := d f)) fs t f = (if f \<in> set fs then d f else t f)"
  by (induction fs arbitrary: t) auto

lemma hook_init_raw: "\<not> is_inited h \<Longrightarrow> raw_f (hook_init dlsym h) = dlsym"
  by (simp add: hook_init_def fold_upd_apply HOOK_FUN_all fun_eq_iff)

lemma module_names:
  "set ''fiber.stack_size'' \<subseteq> lower_name_chars" "set ''tcp_connect_timeout'' \<subseteq> lower_name_chars"
  "set ''fiber.stack_size'' \<subseteq> name_chars" "set ''tcp_connect_timeout'' \<subseteq> name_chars"
  by (simp_all add: lower_name_chars_def name_chars_def)

definition module_config :: "nat \<Rightarrow> nat \<Rightarrow> (module_value, module_listener) config" where
  "module_config a b =
     \<lparr>cf_vars = [a \<mapsto> ConfigVar_new ''fiber.stack_size'' ''uint32_t'' (V_u32 (1024 * 1024)) ''fiber stack size'',
        b \<mapsto> (ConfigVar_new ''tcp_connect_timeout'' ''int'' (V_int 5000) ''tcp connect timeout'')
              \<lparr>cv_cbs := [(1, Log_connect_timeout)]\<rparr>],
      cf_datas = [(''fiber.stack_size'', a), (''tcp_connect_timeout'', b)],
      cf_fun_id = (\<lambda>_. 0)(''int'' := 1)\<rparr>"

lemma static_init_eq:
  assumes "a \<noteq> b"
  shows "static_init dlsym a b =
    Inr (module_config a b, (hook_init dlsym hook_static)\<lparr>s_connect_timeout := 5000\<rparr>)"
  using assms module_names
  by (simp add: static_init_def g_fiber_stack_size_def g_tcp_connect_timeout_def Lookup_def Lookup_create_def
      Hook_initer_def getValue_def addListener_def module_config_def int_value_def ConfigVar_new_def Let_def)

lemma module_config_inv: "a \<noteq> b \<Longrightarrow> cfg_inv (module_config a b)"
  using module_names by (auto simp: cfg_inv_def module_config_def LookupBase_def ConfigVar_new_def split: if_splits)

lemma module_config_simps:
  "LookupBase ''fiber.stack_size'' (module_config a b) = Some a"
  "LookupBase ''tcp_connect_timeout'' (module_config a b) = Some b"
  by (simp_all add: module_config_def LookupBase_def)

lemma load_one:
  assumes "cfg_inv c" and "distinct (map fst (ListAllMember '''' root))"
    and "cf_vars c a = Some v" and "LookupBase (cv_name v) c = Some a" and "set (cv_name v) \<subseteq> lower_name_chars"
    and "y_path root ks (Y_scalar s)" and "cv_name v = key_at '''' ks" and "cv_name v \<noteq> []"
    and "conv (cv_type v) s = Some x"
    and "LoadFromYaml dump conv (\<lambda>_ _ _. True) root c = Inr c'"
  shows "getValue a c' = Inr x"
proof -
  have "cf_vars c' a = Some (loaded_var dump conv (\<lambda>_ _ _. True) (Some (Y_scalar s)) v)"
    using load_outcome [OF assms(1,2), of dump conv "\<lambda>_ _ _. True"] assms(3-8,10) by auto
  then show ?thesis using assms(9) by (simp add: getValue_def loaded_var_def node_text_def)
qed

section \<open>Properties\<close>

text \<open>
  Theorem (module_config_reaches_code). After the static initialisers, loading a document that has the paths
  \<open>fiber.stack_size\<close> and \<open>tcp_connect_timeout\<close> gives both variables the values of the document. Fibers constructed from then
  on without an explicit size get the configured stack size (and an explicit size, cut to 32 bits, wins over it). The
  connect time-out, however, stays at the 5000 ms that \<open>_Hook_initer\<close> copied: the listener does not store the new value,
  and \<open>connect\<close> goes on with the old one.
\<close>

theorem module_config_reaches_code:
  assumes "static_init dlsym a b = Inr (c, h)" and "a \<noteq> b"
    and "distinct (map fst (ListAllMember '''' root))"
    and "y_path root [''fiber'', ''stack_size''] (Y_scalar s)" and "conv ''uint32_t'' s = Some (V_u32 n)"
    and "y_path root [''tcp_connect_timeout''] (Y_scalar u)" and "conv ''int'' u = Some (V_int ms)"
  shows "\<exists>c'. LoadFromYaml dump conv (\<lambda>_ _ _. True) root c = Inr c' \<and>
    (\<exists>g'. Fiber_new_configured a f cb 0 uc True c' g = Inr g' \<and> map_option m_stacksize (fheap g' f) = Some n) \<and>
    (sz \<noteq> 0 \<longrightarrow> (\<exists>g'. Fiber_new_configured a f cb sz uc True c' g = Inr g' \<and>
       map_option m_stacksize (fheap g' f) = Some (ucast sz))) \<and>
    getValue b c' = Inr (V_int ms) \<and>
    hook_connect en (s_connect_timeout (call_listener Log_connect_timeout (V_int 5000) (V_int ms) h)) fd ins t =
      hook_connect en 5000 fd ins t"
proof -
  have c: "c = module_config a b" and h: "s_connect_timeout h = 5000"
    using assms(1) static_init_eq [OF assms(2), of dlsym] by auto
  note inv = module_config_inv [OF assms(2)]
  obtain c' where c': "LoadFromYaml dump conv (\<lambda>_ _ _. True) root c = Inr c'"
    using load_outcome [OF inv assms(3), of dump conv "\<lambda>_ _ _. True"] c by auto
  have va: "cf_vars (module_config a b) a =
      Some (ConfigVar_new ''fiber.stack_size'' ''uint32_t'' (V_u32 (1024 * 1024)) ''fiber stack size'')"
    using assms(2) by (simp add: module_config_def)
  have vb: "cf_vars (module_config a b) b =
      Some ((ConfigVar_new ''tcp_connect_timeout'' ''int'' (V_int 5000) ''tcp connect timeout'')
        \<lparr>cv_cbs := [(1, Log_connect_timeout)]\<rparr>)"
    by (simp add: module_config_def)
  have "getValue a c' = Inr (V_u32 n)"
    using load_one [OF inv assms(3) va, of "[''fiber'', ''stack_size'']" s conv "V_u32 n" dump c'] assms(4,5) c' c
      module_names module_config_simps by (simp add: ConfigVar_new_def join_key_def)
  moreover have "getValue b c' = Inr (V_int ms)"
    using load_one [OF inv assms(3) vb, of "[''tcp_connect_timeout'']" u conv "V_int ms" dump c'] assms(6,7) c' c
      module_names module_config_simps by (simp add: ConfigVar_new_def join_key_def)
  ultimately show ?thesis
    using c' h by (simp add: Fiber_new_configured_def int_value_def Fiber_new_def fiber_set_def)
qed

text \<open>
  Theorem (hook_pointers). Until \<open>_Hook_initer\<close> has run, every hooked function that needs the original dereferences a null
  pointer, hooks on or off; afterwards each of them finds the address that the dynamic linker gave. Initialising again
  changes nothing, although \<open>is_inited\<close> is never set.
\<close>

theorem hook_pointers:
  "raw_call f hook_static = Inl (Null_deref ''raw function'') \<and>
   raw_call f (hook_init dlsym hook_static) =
     (case dlsym f of None \<Rightarrow> Inl (Null_deref ''raw function'') | Some p \<Rightarrow> Inr p) \<and>
   hook_init dlsym (hook_init dlsym hook_static) = hook_init dlsym hook_static"
proof -
  have "\<not> is_inited hook_static" "\<not> is_inited (hook_init dlsym hook_static)"
    by (simp_all add: hook_static_def hook_init_def)
  note raw = hook_init_raw [OF this(1)] hook_init_raw [OF this(2)]
  have "hook_init dlsym (hook_init dlsym hook_static) = hook_init dlsym hook_static"
    using raw by (intro hook_state.equality) (simp_all add: hook_init_def hook_static_def)
  with raw show ?thesis by (simp add: raw_call_def hook_static_def)
qed


text \<open>
  Theorem (singleton_instances). \<open>Singleton\<close> hands out one object, the one its first call constructs, however often it is
  asked. \<open>SingletonPtr\<close> hands out a new object at every call.
\<close>

theorem singleton_instances:
  "instances Singleton_GetInstance (a # as) None = replicate (length (a # as)) a \<and>
   instances SingletonPtr_GetInstance (a # as) None = a # as"
proof -
  have "instances Singleton_GetInstance bs (Some a) = replicate (length bs) a" for bs
    by (induction bs) (simp_all add: Singleton_GetInstance_def)
  moreover have "instances SingletonPtr_GetInstance bs v = bs" for bs v
    by (induction bs arbitrary: v) (simp_all add: SingletonPtr_GetInstance_def)
  ultimately show ?thesis by (simp add: Singleton_GetInstance_def SingletonPtr_GetInstance_def)
qed

text \<open>
  Theorem (iomanager_destroyed). If the \<open>stop()\<close> of the destructor returns, the scheduler is stopping, whichever branch it took, so
  the assertion in \<open>~Scheduler\<close> holds: the destructor returns, having closed its three descriptors and deleted its
  contexts, and the thread's scheduler is cleared exactly if it was this one. \<open>IOManager::GetThis\<close> then answers null on that
  thread.
\<close>

theorem iomanager_destroyed:
  assumes "io_stop now tm this back m g = Inr m1"
  shows "\<exists>m2. IOManager_delete epfd p0 p1 now tm this back m g ts =
      Inr ([epfd, p0, p1], m2, if ts = Some (io_self m) then None else ts) \<and>
    m_stopping (io_scheds m2 (io_self m)) \<and> m_fd_contexts m2 = [] \<and>
    (Scheduler_setThis (io_self m) ts0 = ts \<longrightarrow>
       IOManager_GetThis is_iom (if ts = Some (io_self m) then None else ts) = None)"
proof -
  let ?virt = "\<lambda>s. IO_stopping now tm (m\<lparr>io_scheds := (io_scheds m)(io_self m := s)\<rparr>)"
  have virt: "m_stopping s" if "?virt s" for s
    using that by (simp add: IO_stopping_def IO_stopping_timeout_def stopping_def Let_def)
  obtain br s1 where st: "stop_enter ?virt this (io_scheds m (io_self m)) g = Inr (br, s1)"
    and m1: "m1 = m\<lparr>io_scheds := (io_scheds m)(io_self m :=
      (case br of Stop_return \<Rightarrow> s1 | _ \<Rightarrow> stop_finish back))\<rparr>"
    using assms by (auto simp: io_stop_def result_simps)
  have "m_stopping s1" if "br = Stop_return"
    using st that virt
    by (auto simp: stop_enter_def Let_def result_simps split: if_splits option.splits)
  moreover have tk: "m_stopping ((tickle ^^ k) s) = m_stopping s" for k and s :: "'a sched"
    by (induction k) simp_all
  moreover have "m_stopping (stop_finish back)" by (simp add: stop_finish_def Let_def tk)
  ultimately have "m_stopping (io_scheds m1 (io_self m))" using m1 by (cases br) simp_all
  then show ?thesis
    using assms
    by (simp add: IOManager_delete_def Scheduler_delete_tls_def Scheduler_delete_def Let_def
        Scheduler_setThis_def IOManager_GetThis_def Scheduler_GetThis_def)
qed

section \<open>Witnesses\<close>

definition module_doc :: yaml where
  "module_doc = Y_map [(''fiber'', Y_map [(''stack_size'', Y_scalar ''131072'')]),
     (''tcp_connect_timeout'', Y_scalar ''300'')]"

definition module_conv :: "string \<Rightarrow> string \<Rightarrow> module_value option" where
  "module_conv type s =
     (if type = ''uint32_t'' \<and> s = ''131072'' then Some (V_u32 131072)
      else if type = ''int'' \<and> s = ''300'' then Some (V_int 300) else None)"

theorem module_config_reaches_code_witness:
  "\<exists>c h c' g'. static_init (\<lambda>_. Some 7) 1 2 = Inr (c, h) \<and>
     LoadFromYaml (\<lambda>_. '''') module_conv (\<lambda>_ _ _. True) module_doc c = Inr c' \<and>
     Fiber_new_configured 1 5 (Some (0 :: nat)) 0 False True c' fglobal_init = Inr g' \<and>
     map_option m_stacksize (fheap g' 5) = Some 131072 \<and> getValue 2 c' = Inr (V_int 300)"
proof -
  obtain c h where st: "static_init (\<lambda>_. Some 7) 1 2 = Inr (c, h)"
    using static_init_eq [of 1 2 "\<lambda>_. Some 7"] by simp
  have d: "distinct (map fst (ListAllMember '''' module_doc))" by code_simp
  have p: "y_path module_doc [''fiber'', ''stack_size''] (Y_scalar ''131072'')"
    "y_path module_doc [''tcp_connect_timeout''] (Y_scalar ''300'')"
    by (auto simp: module_doc_def y_path_Cons)
  have v: "module_conv ''uint32_t'' ''131072'' = Some (V_u32 131072)" "module_conv ''int'' ''300'' = Some (V_int 300)"
    by (simp_all add: module_conv_def)
  from module_config_reaches_code [OF st _ d p(1) v(1) p(2) v(2), of "\<lambda>_. ''''" 5 "Some (0 :: nat)" False fglobal_init 0
      True 3 "[]" "\<lparr>fd_heap = Map.empty, m_datas = []\<rparr>"] st
  show ?thesis by auto
qed

theorem iomanager_destroyed_witness:
  "\<exists>m2. IOManager_delete 3 4 5 0 (empty_manager :: nat timer_manager) False (sched_running\<lparr>m_thread_count := 2\<rparr>)
       (demo_io\<lparr>io_scheds := \<lambda>_. sched_running\<rparr>) fglobal_init (Some (io_self demo_io)) = Inr ([3, 4, 5], m2, None) \<and>
     m_stopping (io_scheds m2 (io_self demo_io)) \<and> m_fd_contexts m2 = []"
proof -
  let ?m = "demo_io\<lparr>io_scheds := \<lambda>_. sched_running\<rparr>"
  obtain m1 where "io_stop 0 (empty_manager :: nat timer_manager) False (sched_running\<lparr>m_thread_count := 2\<rparr>) ?m fglobal_init = Inr m1"
    by (simp add: io_stop_def stop_enter_def sched_running_def Let_def)
  from iomanager_destroyed [OF this, of 3 4 5 "Some (io_self demo_io)" None "\<lambda>_. True"] show ?thesis by auto
qed

end
