(* ===== verification/Spec2Isabelle.thy ===== *)
theory Spec2Isabelle
  imports Timer Timer_Alarms IO_Events Hook_Wait Hook_Fcntl Config Log_Config Locks Threads Address Util
    Server Wakeup Lock_Programs Startup
begin

text \<open>
  A model of sylar, a C++ server framework (src/sylar): fibers, an N:M scheduler that runs them on worker
  threads, an event loop on epoll with timers, and system calls replaced ("hooked") so that a fiber that
  would block gives its thread away.

  \<^bold>\<open>How the program is put together.\<close> A \<open>Fiber\<close> (fiber.cc) is a stackful coroutine; \<open>swapIn\<close> and the yields switch
  between it and its thread's scheduler fiber. A \<open>Scheduler\<close> (scheduler.cc) owns a queue of tasks (a fiber or a callback,
  possibly pinned to a thread); every worker executes \<open>run()\<close>, which takes a task, runs it until it leaves
  the processor, and runs an idle fiber when there is none. \<open>TimerManager\<close> (timer.cc) keeps timers in a
  \<open>std::set\<close> ordered by deadline and address. \<open>IOManager\<close> (iomanager.cc) is a scheduler and a timer manager: its idle
  fiber waits in \<open>epoll_wait\<close>, queues the callbacks of expired timers and the fibers or callbacks that
  wait for a descriptor. The hooks (hook.cc) keep a context per descriptor (fd_manager.cc) and turn \<open>EAGAIN\<close> into:
  arm a timer, register an event, yield, try again. Beside these stand the logger (log.cc: loggers write events through appenders, formatted by
  a parsed pattern), typed configuration variables loaded from YAML (config.h, config.cc; the listener of one of them configures the loggers), and
  wrappers of pthread locks, semaphores and threads (thread.h, thread.cc).

  \<^bold>\<open>Theories.\<close>
  \<^item> \<open>Prelude\<close>: machine integers, failures as values (\<open>result\<close>, \<open>rbind\<close>, \<open>SYLAR_ASSERT\<close> of macro.h), list facts.
  \<^item> \<open>Ordered_Set\<close>: \<open>std::set\<close> as the list in iteration order. The locale \<open>strict_weak_order\<close> is the contract on the comparator and
    \<open>strict_total_order\<close> extends it.
  \<^item> \<open>Timer\<close>: timer.h, timer.cc. \<open>timer_manager\<close> is the state, \<open>add_timer\<close>, \<open>Timer_cancel\<close>, \<open>Timer_refresh\<close>, \<open>Timer_reset\<close>,
    \<open>get_next_timeout\<close>, \<open>list_expired_cbs\<close>, \<open>detect_clock_rollover\<close> and \<open>add_condition_timer\<close> the operations. The comparator interprets
    \<open>strict_total_order\<close> for every heap; the locale \<open>timer_queue\<close> is what the event loop relies on, interpreted
    by the manager. Shown: the set stays sorted and duplicate-free, every operation implements an update of the map from
    timers to deadlines, expiry returns the due callbacks (a timer due at this very millisecond may stay, depending on its address) and re-arms the recurring ones; and
    the two ways in which its locking is broken.
  \<^item> \<open>Timer_Alarms\<close>: what the timer manager promises, as an abstract table of armed timers (\<open>alarm_step\<close>). Shown: every history of calls on the manager is a
    history of the table.
  \<^item> \<open>Fiber\<close>: fiber.h, fiber.cc. Fiber objects by address, the variables of a thread, the contexts of
    \<open>swapcontext\<close>. Shown: when \<open>swapIn\<close> succeeds, where each way of leaving the processor ends, \<open>reset\<close>, counting and numbering.
  \<^item> \<open>Scheduler\<close>, \<open>Scheduler_System\<close>: scheduler.h, scheduler.cc. One iteration of \<open>run()\<close> is four steps (\<open>run_pick\<close>, \<open>run_dispatch\<close>, the
    fiber leaving, \<open>run_after\<close>), cut where another thread can come between, and \<open>world_step\<close> interleaves the
    workers and their clients in every order. \<open>exec_acts\<close> runs a given interleaving. Shown: the counters of active and idle threads are exact
    in every reachable state, which task is taken, that no worker leaves before \<open>stop()\<close>, that it leaves after,
    and three interleavings that go wrong.
  \<^item> \<open>Scheduler_Bag\<close>: what the scheduler promises, as an abstract system (\<open>bag_step\<close>): a bag of tasks and a running fiber per thread. The locale
    \<open>simulation\<close> says what it takes to implement an abstract step relation and is interpreted for \<open>world_step\<close>. Shown: every interleaving is a run of
    the bag, so no task is lost, duplicated or started on a thread it is pinned away from.
  \<^item> \<open>IO_Manager\<close>, \<open>IO_Events\<close>: iomanager.h, iomanager.cc. Contexts per descriptor, the event operations, the idle turn. The locale \<open>event_removal\<close> is the
    contract shared by \<open>del_event\<close> and \<open>cancel_event\<close>. Shown: the invariant that ties counts, slots and registered events
    together, the outcome of every operation on every branch, that the kernel's interest list is the image of the
    registered events, when the loop may stop; and the effects of the missing locks.
  \<^item> \<open>Fd_Manager\<close>, \<open>Hook\<close>, \<open>Hook_Wait\<close>, \<open>Hook_Fcntl\<close>, \<open>Double\<close>: fd_manager.h, fd_manager.cc, hook.cc. The locale \<open>descriptor_table\<close> is the contract of the context table.
    In \<open>Hook\<close> a hooked call is a function from the answers of the operating system to the actions it takes; in \<open>Hook_Wait\<close> one
    waiting round and the sleeping functions are composed of the operations of timers, events and
    fibers; \<open>Double\<close> is the rounding of double precision that \<open>nanosleep\<close> needs. \<open>Hook_Fcntl\<close> is \<open>fcntl\<close> with all its commands over an abstract
    kernel. Shown: what \<open>do_io\<close> answers, that a waiting fiber is queued exactly once by whichever of event and
    time-out comes first, that the user sees his own \<open>O_NONBLOCK\<close>; that the hooks never engage, because
    nothing calls \<open>FdCtx::init\<close>; and that a hooked sleep on a worker of a plain scheduler dereferences a null pointer.
  \<^item> \<open>Event_Loop\<close>, \<open>Server\<close>: the idle fiber of \<open>IOManager\<close> in steps, and the running server as one transition system (\<open>server_step\<close>): workers, event loops,
    timers, events and clients in every interleaving, each step labelled with the tasks it queues. The locale \<open>labelled_simulation\<close> says what it takes for such a
    system to be implemented by runs of another one and is interpreted for the server over the scheduler. Shown: the steps of the loop compose to the turn of
    \<open>IO_Manager\<close>; what a turn waits for, expires and queues; all invariants of the components hold together in every reachable state and no call of \<open>epoll_wait\<close> has a time-out above five seconds; a run of the server is a run of the bag that
    submits exactly what timers, events and clients queued; the callback of a due timer and the task of a reported event are run; the kernel's interest list and the registered events stay in step; and a wake-up that is missed.
  \<^item> \<open>Wakeup\<close>: the composition of hooks, timers, events, scheduler and fibers. Shown: a fiber suspended by a hooked call is back on a processor after
    its event or its time-out, in two steps of any worker; and what goes wrong when it is found between the change of its state and the saving of its context.
  \<^item> \<open>Locks\<close>: the mutexes and scoped guards of thread.h. The locale \<open>lockable\<close> is what a guard needs of a mutex, \<open>scoped_guard\<close> the guard over it and
    \<open>lock_object\<close> a lock with all its guards; they are interpreted for \<open>Mutex\<close>, \<open>Spin_Mutex\<close> and \<open>RWMutex\<close> with its two kinds of guards. Shown: a guard is
    balanced whatever the other threads do, a lock used through guards is never unlocked or destroyed wrongly from construction to destruction, and writers exclude everybody else.
  \<^item> \<open>Lock_Order\<close>, \<open>Lock_Programs\<close>: threads as sequences of lock operations over the locks of \<open>Locks\<close>, and for every operation of the sources the
    set of the sequences it can make (the definitions named \<open>..._locks\<close>), with every logging call inside a locked block. The locale \<open>lock_order\<close> is the contract "keeps a
    global order", checked along the structure of the code by the rules \<open>ranked_intros\<close> and interpreted for the whole server. Shown: no deadlock, whatever
    the threads do; and that the locks \<open>Logger::log\<close> takes in a given state are among the sequences.
  \<^item> \<open>Threads\<close>: semaphores and threads of thread.cc. \<open>start_step\<close> interleaves the constructor, \<open>Thread::run\<close> and the owner of the object. Shown: the
    handshake of the constructor with the new thread.
  \<^item> \<open>Yaml\<close>, \<open>Config\<close>: YAML trees as the sources see them; config.h, config.cc. \<open>Lookup\<close>, \<open>setValue\<close>, \<open>ConfigVar_fromString\<close>, the listeners, \<open>ListAllMember\<close>
    and \<open>LoadFromYaml\<close>. Shown: lookups are typed and keep the registry well formed, what setting a variable does, which nodes of a
    document are considered and what loading one changes, and the round trip of the sequence casts.
  \<^item> \<open>Log_Format\<close>: levels, events, format items and the pattern parser of log.cc, a loop over indices, proved equal to a recursive
    reference parser (\<open>ref_parse\<close>) and inverse to writing a pattern.
  \<^item> \<open>Logger\<close>: loggers and appenders by address, the manager, the streams. Shown: what a log call writes where, that in every reachable state it
    returns, and how named loggers fall back to the root logger.
  \<^item> \<open>Log_Config\<close>: the YAML casts of logger definitions and the listener that applies them. Shown: the round trip of the casts, what
    the listener changes, and that a definition which did not change crashes it. The end of this theory composes the two: setting
    the variable \<open>logs\<close> from text configures the loggers.
  \<^item> \<open>Address\<close>, \<open>Util\<close>: the comparison of addresses (an interpretation of \<open>strict_total_order\<close>) and their family, clock readings, backtraces.

  \<^item> \<open>Startup\<close>: static initialisation (the table of raw functions, the variables of the modules), singletons, the thread's scheduler and
    the destruction of an \<open>IOManager\<close>. Shown: which configured values reach the code, and that the destructor's assertion holds.

  \<^bold>\<open>Parameters.\<close> \<open>epoll_ctl\<close> is a parameter \<open>ctl\<close> over an abstract kernel state, and \<open>epoll_ctl_spec\<close> states what its
    manual documents (only \<open>interest_list_matches\<close> and \<open>server_interest_list\<close> need it; they say nothing of a descriptor that is closed while it has registered events); the raw \<open>fcntl\<close> is a parameter \<open>raw\<close> with \<open>keeps_nonblock\<close>. Clock readings, addresses returned by \<open>new\<close>, the results of \<open>epoll_wait\<close> and
    of the raw system calls are arguments. User callbacks are an arbitrary type. \<open>YAML::Load\<close>, the emitter and \<open>as<std::string>\<close> of yaml-cpp,
    \<open>boost::lexical_cast\<close>, \<open>strftime\<close> and \<open>vasprintf\<close> are function arguments; the two round trips of YAML casts assume that the library reads
    back the document it emitted.

  \<^bold>\<open>Steps.\<close> Where the sources hold a lock over an operation, the operation is one step. Some operations are one step although the sources
  do not protect them: removing an event and handling a reported one (the context's mutex is copied, not locked), collecting the expired timers (the
  lock is given up on the way), suspending a fiber (state and context), and dispatching one (state test, counter and switch). Theorems about interleavings, of
  \<open>Scheduler_System\<close>, \<open>Scheduler_Bag\<close>, \<open>Server\<close> and \<open>Wakeup\<close>, speak of executions in which these do not overlap; what an overlap
  does is shown in \<open>del_event_race\<close>, \<open>expiry_unlocked_inserts\<close>, \<open>expiry_check_race\<close>, \<open>hold_before_saved\<close> and \<open>fiber_on_two_workers\<close>.

  \<^bold>\<open>Loops.\<close> There is no fuel. The growing loop of \<open>add_event\<close> is a partial function, proved to return for every
    descriptor, and so is \<open>Logger::log\<close>, which follows the chain of root loggers, proved to return in every reachable state. The pattern parser is a total function
    with a measure. The loops of \<open>epoll_wait\<close> and \<open>do_io\<close> recurse on the list of the system's answers, and \<open>run()\<close> is a
    step relation.

  \<^bold>\<open>Not modelled.\<close> \<open>shared_ptr\<close> counts, memory and stacks, the weak memory model (a critical section or an access to an
    atomic variable is one step). The answers of \<open>dlsym\<close> are a parameter. The diagnostics the logger prints to the console about itself, and the
    log messages of the other components (a log call changes nothing they depend on). The interleaving of the writes of log calls: each call is one step of
    \<open>Logger\<close>, as it holds the logger's mutex; its locking is modelled in \<open>Lock_Programs\<close>, where client callbacks are limited to listeners that configure or log and to visitors that
    print, waiting on a semaphore or for a thread is not a lock operation, and a failed assertion is not followed. Of address.h the virtual functions have no implementation in the repository; an address is the bytes they would give. The umbrella header
    has no behaviour of its own; the programs under src/tests are clients.
\<close>

section \<open>Configuring the loggers from text\<close>

text \<open>
  The variable \<open>logs\<close> (src/sylar/log.cc): its conversion from text is the cast of logger definitions and its only listener the one that
  applies them to the manager, whose state is \<open>w\<close>.
\<close>

definition logs_conv :: "yaml_load \<Rightarrow> yaml_as_str \<Rightarrow> string \<Rightarrow> log_define list option" where
  "logs_conv load as_str text = (case cast_to_log_defines load as_str text of Inr ds \<Rightarrow> Some ds | Inl _ \<Rightarrow> None)"

definition logs_call :: "date_fun \<Rightarrow> log_event \<Rightarrow> log_world \<Rightarrow> 'cb \<Rightarrow> log_define list \<Rightarrow> log_define list \<Rightarrow> bool" where
  "logs_call date ev w cb old new = (case log_listener date ev old new w of Some (Inr _) \<Rightarrow> True | _ \<Rightarrow> False)"

lemma listener_crashes:
  assumes "log_wf w" "\<And>f t. date f t \<noteq> None" "sorted_wrt LogDefine_less old" "d \<in> set old" "d \<in> set new"
  shows "\<exists>e. log_listener date ev old new w = Some (Inl e)"
proof -
  obtain w0 where w0: "SYLAR_LOG_LEVEL date (getRoot w) LV_INFO (ev\<lparr>m_ss := ''one_logger_conf_changed''\<rparr>) w = Some (Inr w0)"
    using listener_message [OF assms(1), of date LV_INFO "ev\<lparr>m_ss := ''one_logger_conf_changed''\<rparr>"] assms(2) by blast
  moreover obtain e where "apply_defines old new w0 = Inl e"
    using apply_defines_distinct [OF assms(3,4), of new w0] assms(5) by (cases "apply_defines old new w0") auto
  ultimately show ?thesis by (simp add: log_listener_def)
qed

text \<open>
  C34 (log_config_from_text). Setting the variable \<open>logs\<close> from its first text calls the listener once, which registers every definition
  of the text with the manager, and then stores the definitions; setting it again from the same text calls nothing. A later set of definitions
  that keeps one of them unchanged beside a change crashes the listener.
\<close>

theorem log_config_from_text:
  assumes "log_reachable date w" "\<And>f t. date f t \<noteq> None" "cast_to_log_defines load as_str s = Inr ds" "ds \<noteq> []"
    and "cv_val v = []" "cv_cbs v = [(k, cb)]"
  shows "(\<exists>w'. log_listener date ev [] ds w = Some (Inr w') \<and> log_wf w' \<and> (\<forall>d \<in> set ds. define_applied w w' d) \<and>
      (\<forall>d \<in> set ds. \<forall>new. d \<in> set new \<longrightarrow> (\<exists>e. log_listener date ev ds new w' = Some (Inl e)))) \<and>
    ConfigVar_fromString (logs_conv load as_str) (logs_call date ev w) s v = (True, [cb], v\<lparr>cv_val := ds\<rparr>) \<and>
    ConfigVar_fromString (logs_conv load as_str) call s (v\<lparr>cv_val := ds\<rparr>) = (True, [], v\<lparr>cv_val := ds\<rparr>)"
proof -
  note ds = cast_to_log_defines_loaded [OF assms(3)]
  have types: "\<forall>d \<in> set ds. \<forall>a \<in> set (ld_appenders d). lad_type a = 1 \<or> lad_type a = 2"
    using ds(2) by (auto simp: define_loaded_def appender_loaded_def)
  obtain w' where w': "log_listener date ev [] ds w = Some (Inr w')" "log_wf w'" "\<forall>d \<in> set ds. define_applied w w' d"
    using listener_applies [OF log_reachable_wf [OF assms(1)], of date "[]" ds ev] assms(2) ds(1) types by auto
  have "logs_conv load as_str s = Some ds" by (simp add: logs_conv_def assms(3))
  then have "ConfigVar_fromString (logs_conv load as_str) (logs_call date ev w) s v = (True, [cb], v\<lparr>cv_val := ds\<rparr>)"
    "ConfigVar_fromString (logs_conv load as_str) call s (v\<lparr>cv_val := ds\<rparr>) = (True, [], v\<lparr>cv_val := ds\<rparr>)"
    using assms(4-6) w'(1) by (simp_all add: ConfigVar_fromString_def setValue_def logs_call_def)
  moreover have "\<forall>d \<in> set ds. \<forall>new. d \<in> set new \<longrightarrow> (\<exists>e. log_listener date ev ds new w' = Some (Inl e))"
    using listener_crashes [OF w'(2), of date ds _ _ ev] assms(2) ds(1) by blast
  ultimately show ?thesis using w' by blast
qed

lemma log_config_from_text_witness:
  "\<exists>w'. log_listener (\<lambda>_ _. Some ''now'') sample_event [] sample_defines fresh_world = Some (Inr w') \<and>
     (\<forall>d \<in> set sample_defines. define_applied fresh_world w' d) \<and>
     ConfigVar_fromString (logs_conv sample_load sample_as_str) (logs_call (\<lambda>_ _. Some ''now'') sample_event fresh_world) ''in''
       \<lparr>cv_name = ''logs'', cv_description = [], cv_type = ''set'', cv_val = [], cv_cbs = [(1, 7 :: nat)]\<rparr> =
     (True, [7], \<lparr>cv_name = ''logs'', cv_description = [], cv_type = ''set'', cv_val = sample_defines, cv_cbs = [(1, 7)]\<rparr>)"
proof -
  have "cast_to_log_defines sample_load sample_as_str ''in'' = Inr sample_defines" by code_simp
  moreover have "sample_defines \<noteq> []" by (simp add: sample_defines_def)
  ultimately show ?thesis
    using log_config_from_text [where call = "\<lambda>_ _ _. True" and ev = sample_event and load = sample_load and as_str = sample_as_str
        and s = "''in''" and ds = sample_defines and k = 1 and cb = "7 :: nat"
        and v = "\<lparr>cv_name = ''logs'', cv_description = [], cv_type = ''set'', cv_val = [], cv_cbs = [(1, 7)]\<rparr>",
        OF fresh_world_reachable [of "\<lambda>_ _. Some ''now''"]]
    by auto
qed

end
